(* ===== verification/Prelude.thy ===== *)
theory Prelude
  imports Main "HOL-Library.Word" "HOL-Library.Sublist"
begin

text \<open>
  Shared vocabulary of the development: the machine types of the C++ sources as word types,
  the rule collections the components fill, and the generic facts on lists, options and words
  that several components use.
\<close>

unbundle bit_operations_syntax

type_synonym u8 = "8 word"
type_synonym u16 = "16 word"
type_synonym u32 = "32 word"
type_synonym u64 = "64 word"

named_theorems field_simps_bits \<open>reading a bit field back after it was written\<close>
named_theorems inv_intros \<open>an operation keeps the invariant of its component\<close>

lemma take_bit_word_eq_self:
  fixes w :: "'a::len word"
  shows "LENGTH('a) \<le> n \<Longrightarrow> take_bit n w = w"
  by (rule bit_eqI) (auto simp: bit_simps)

lemma word_zero_by_bits: "w = (0 :: 'a::len word) \<longleftrightarrow> (\<forall>n < LENGTH('a). \<not> bit w n)"
  by (auto intro: bit_word_eqI)

lemma takeWhile_upt_length:
  fixes P :: "nat \<Rightarrow> bool" and n :: nat
  shows takeWhile_upt_le: "length (takeWhile P [0..<n]) \<le> n"
    and takeWhile_upt_before: "i < length (takeWhile P [0..<n]) \<Longrightarrow> P i"
    and takeWhile_upt_at: "length (takeWhile P [0..<n]) < n \<Longrightarrow> \<not> P (length (takeWhile P [0..<n]))"
proof -
  show le: "length (takeWhile P [0..<n]) \<le> n"
    using length_takeWhile_le [of P "[0..<n]"] by simp
  show "P i" if "i < length (takeWhile P [0..<n])"
  proof -
    from that have "takeWhile P [0..<n] ! i \<in> set (takeWhile P [0..<n])"
      by (rule nth_mem)
    moreover from that le have "takeWhile P [0..<n] ! i = i"
      by (simp add: takeWhile_nth)
    ultimately show ?thesis by (metis set_takeWhileD)
  qed
  show "\<not> P (length (takeWhile P [0..<n]))" if "length (takeWhile P [0..<n]) < n"
    using that nth_length_takeWhile [of P "[0..<n]"] by simp
qed

lemma takeWhile_upt_eqI:
  assumes "k < n" and "\<not> P k" and "\<And>i. i < k \<Longrightarrow> P i"
  shows "length (takeWhile P [0..<n]) = k"
proof (rule linorder_cases [of "length (takeWhile P [0..<n])" k])
  assume "length (takeWhile P [0..<n]) < k"
  with assms takeWhile_upt_at [of P n] show ?thesis by auto
next
  assume "k < length (takeWhile P [0..<n])"
  with assms(2) takeWhile_upt_before [of k P n] show ?thesis by blast
qed

lemma unat_less_exp_iff_bits:
  fixes x :: "'a::len word"
  shows "unat x < 2 ^ n \<longleftrightarrow> (\<forall>i \<ge> n. \<not> bit x i)"
proof -
  have "unat x < 2 ^ n \<longleftrightarrow> take_bit n (unat x) = unat x"
    by (metis take_bit_nat_eq_self_iff)
  also have "\<dots> \<longleftrightarrow> take_bit n x = x"
    by (metis unsigned_take_bit_eq word_unat_eq_iff)
  also have "\<dots> \<longleftrightarrow> (\<forall>i \<ge> n. \<not> bit x i)"
  proof
    assume "take_bit n x = x"
    then show "\<forall>i \<ge> n. \<not> bit x i" by (metis bit_take_bit_iff not_le)
  next
    assume "\<forall>i \<ge> n. \<not> bit x i"
    then show "take_bit n x = x" by (auto intro!: bit_word_eqI simp: bit_simps not_le [symmetric])
  qed
  finally show ?thesis .
qed

text \<open>A word fits in \<open>n\<close> bits when no bit from position \<open>n\<close> on is set.\<close>

definition fits :: "nat \<Rightarrow> 'a::len word \<Rightarrow> bool" where
  "fits n w \<longleftrightarrow> (\<forall>i \<ge> n. \<not> bit w i)"

lemma fits_unat: "fits n w \<longleftrightarrow> unat w < 2 ^ n"
  by (simp add: fits_def unat_less_exp_iff_bits)

lemma fits_take_bit: "fits n w \<Longrightarrow> take_bit n w = w"
  by (auto simp: fits_def bit_simps not_le [symmetric] intro!: bit_word_eqI)

lemma fits_0 [simp]: "fits n 0"
  by (simp add: fits_def)

lemma fits_inc:
  fixes x :: "'a::len word"
  assumes "fits n x" and "x \<noteq> mask n" and "n < LENGTH('a)"
  shows "unat (x + 1) = unat x + 1" and "fits n (x + 1)"
proof -
  have "unat (mask n :: 'a word) = mask n"
    using assms(3) by (auto intro!: bit_eqI simp: bit_simps)
  then have "unat (mask n :: 'a word) = 2 ^ n - 1"
    by (simp add: mask_eq_exp_minus_1)
  with assms(1,2) have less: "unat x + 1 < 2 ^ n"
    unfolding fits_unat word_unat_eq_iff by linarith
  moreover have "(2 :: nat) ^ n < 2 ^ LENGTH('a)" using assms(3) by simp
  ultimately have "unat x + 1 < 2 ^ LENGTH('a)" by linarith
  then show "unat (x + 1) = unat x + 1"
    by (simp add: unat_word_ariths)
  with less show "fits n (x + 1)" by (simp add: fits_unat)
qed

lemma bit_word_times_2: "bit (x * 2) n \<longleftrightarrow> 0 < n \<and> n < LENGTH('a) \<and> bit x (n - 1)"
  for x :: "'a::len word"
  by (simp add: mult.commute [of x] bit_double_iff) auto

lemma take_bit_mask_and: "w AND mask n = take_bit n (w :: 'a::len word)"
  by (simp add: take_bit_eq_mask)

section \<open>Memory\<close>

text \<open>Byte-addressed memory; a pointer is an address.\<close>

type_synonym mem = "nat \<Rightarrow> u8"

abbreviation load :: "mem \<Rightarrow> nat \<Rightarrow> u32" where
  "load m p \<equiv> ucast (m p)"

fun store :: "mem \<Rightarrow> nat \<Rightarrow> u8 list \<Rightarrow> mem" where
  "store m p [] = m"
| "store m p (b # bs) = store (m(p := b)) (p + 1) bs"

definition holds :: "mem \<Rightarrow> nat \<Rightarrow> u8 list \<Rightarrow> bool" where
  "holds m p bs \<longleftrightarrow> (\<forall>i < length bs. m (p + i) = bs ! i)"

lemma store_other: "a < p \<or> p + length bs \<le> a \<Longrightarrow> store m p bs a = m a"
  by (induction bs arbitrary: m p) auto

lemma holds_Nil [simp]: "holds m p []"
  by (simp add: holds_def)

lemma holds_Cons: "holds m p (b # bs) \<longleftrightarrow> m p = b \<and> holds m (p + 1) bs"
  by (auto simp: holds_def nth_Cons less_Suc_eq_0_disj split: nat.splits)

lemma holds_store: "holds (store m p bs) p bs"
  by (induction bs arbitrary: m p) (auto simp: holds_Cons store_other)

lemma holds_append: "holds m p (xs @ ys) \<longleftrightarrow> holds m p xs \<and> holds m (p + length xs) ys"
  by (induction xs arbitrary: p) (auto simp: holds_Cons)

lemma holds_other: "holds m p bs \<Longrightarrow> (\<And>a. p \<le> a \<Longrightarrow> a < p + length bs \<Longrightarrow> m' a = m a) \<Longrightarrow> holds m' p bs"
  by (auto simp: holds_def)

lemma unat_ucast_u8 [simp]: "unat (ucast (b :: u8) :: u32) = unat b"
proof -
  have "unat b < 2 ^ 8" using unsigned_less [of b] by simp
  then show ?thesis by (simp add: unsigned_ucast_eq take_bit_nat_eq_self)
qed

section \<open>Masks and disjoint bits as arithmetic\<close>

lemma nat_and_masks:
  "(n :: nat) AND 15 = n mod 16" "n AND 31 = n mod 32" "n AND 63 = n mod 64" "n AND 255 = n mod 256"
  "n AND 1023 = n mod 1024" "n AND 65535 = n mod 65536"
  using take_bit_eq_mask [of 4 n] take_bit_eq_mask [of 5 n] take_bit_eq_mask [of 6 n] take_bit_eq_mask [of 8 n]
    take_bit_eq_mask [of 10 n] take_bit_eq_mask [of 16 n]
  by (simp_all add: take_bit_eq_mod mask_eq_exp_minus_1)

lemma nat_or_disjoint: "b < 2 ^ k \<Longrightarrow> (a * 2 ^ k) OR b = a * 2 ^ k + (b :: nat)"
proof -
  assume "b < 2 ^ k"
  then have "take_bit k b = b" by (simp add: take_bit_nat_eq_self_iff)
  then have "\<not> bit (push_bit k a) n \<or> \<not> bit b n" for n
    by (metis bit_push_bit_iff bit_take_bit_iff not_less)
  then have "push_bit k a + b = push_bit k a OR b" by (rule disjunctive_add)
  then show ?thesis by (simp add: push_bit_eq_mult)
qed

lemmas nat_or_shifts = nat_or_disjoint [of _ 4, simplified] nat_or_disjoint [of _ 5, simplified]
  nat_or_disjoint [of _ 6, simplified] nat_or_disjoint [of _ 7, simplified] nat_or_disjoint [of _ 12, simplified]
  nat_or_disjoint [of _ 16, simplified] nat_or_disjoint [of _ 18, simplified]

lemma unat_drop_bit_div:
  fixes x :: "'a::len word"
  shows "unat (drop_bit n x) = unat x div 2 ^ n"
  by (simp only: unsigned_drop_bit_eq) (simp add: take_bit_nat_eq_self drop_bit_eq_div)

lemma unat_inc:
  fixes w :: "'a::len word"
  shows "w + 1 = 0 \<longleftrightarrow> unat w + 1 = 2 ^ LENGTH('a)" "w + 1 \<noteq> 0 \<Longrightarrow> unat (w + 1) = unat w + 1"
proof -
  have u: "unat (w + 1) = (unat w + 1) mod 2 ^ LENGTH('a)" by (simp add: unat_word_ariths(1))
  have less: "unat w < 2 ^ LENGTH('a)" by (rule unsigned_less)
  show zero: "w + 1 = 0 \<longleftrightarrow> unat w + 1 = 2 ^ LENGTH('a)"
  proof (cases "unat w + 1 = 2 ^ LENGTH('a)")
    case False
    then have "unat (w + 1) = unat w + 1" using u less by simp
    then show ?thesis using False by (metis add_is_0 unsigned_0 zero_neq_one)
  qed (use u in \<open>simp add: unat_eq_zero\<close>)
  show "unat (w + 1) = unat w + 1" if "w + 1 \<noteq> 0"
    using that zero u less by simp
qed

section \<open>Words as bytes\<close>

definition u64_of_bytes :: "u8 list \<Rightarrow> u64" where
  "u64_of_bytes bs = foldr (\<lambda>b acc. ucast b OR push_bit 8 acc) bs 0"

definition u64_to_bytes :: "u64 \<Rightarrow> u8 list" where
  "u64_to_bytes w = map (\<lambda>i. ucast (drop_bit (8 * i) w)) [0..<8]"

lemma bit_u64_of_bytes:
  "bit (u64_of_bytes bs) n \<longleftrightarrow> n < 64 \<and> n div 8 < length bs \<and> bit (bs ! (n div 8)) (n mod 8)"
proof (induction bs arbitrary: n)
  case Nil
  then show ?case by (simp add: u64_of_bytes_def)
next
  case (Cons b bs)
  have split: "bit (u64_of_bytes (b # bs)) n \<longleftrightarrow> n < 64 \<and> (bit b n \<or> 8 \<le> n \<and> bit (u64_of_bytes bs) (n - 8))"
    by (auto simp: u64_of_bytes_def bit_or_iff bit_push_bit_iff bit_ucast_iff)
  show ?case
  proof (cases "n < 8")
    case False
    then have "\<not> bit b n" using bit_imp_le_length [of b n] by auto
    moreover have "n div 8 = Suc ((n - 8) div 8)" "n mod 8 = (n - 8) mod 8" using False by (auto simp: div_if mod_if)
    ultimately show ?thesis unfolding split Cons using False by auto
  qed (simp add: split)
qed

lemma length_u64_to_bytes: "length (u64_to_bytes w) = 8"
  by (simp add: u64_to_bytes_def)

lemma u64_bytes: "u64_of_bytes (u64_to_bytes w) = w"
  by (rule bit_word_eqI) (auto simp: bit_u64_of_bytes u64_to_bytes_def bit_ucast_iff bit_drop_bit_eq)

lemma store_append: "store m p (xs @ ys) = store (store m p xs) (p + length xs) ys"
  by (induction xs arbitrary: m p) simp_all

end
