(* ===== verification/BitUtils.thy ===== *)
theory BitUtils
  imports Prelude
begin

text \<open>
  The bit primitives of \<^verbatim>\<open>libartbase/base/bit_utils.h\<close> on machine words.  The C++ templates are
  instantiated at an unsigned type of \<open>LENGTH('a)\<close> bits unless the name says \<open>signed\<close>; the
  debug-only checks (DCHECK) are the hypotheses of the lemmas.  The compiler builtins
  (count leading and trailing zeros, population count, byte swap) are written out bit by bit.
\<close>

section \<open>Counting bits\<close>

definition CLZ :: "'a::len word \<Rightarrow> nat" where
  "CLZ x = length (takeWhile (\<lambda>i. \<not> bit x (LENGTH('a) - 1 - i)) [0..<LENGTH('a)])"

definition JAVASTYLE_CLZ :: "'a::len word \<Rightarrow> nat" where
  "JAVASTYLE_CLZ x = (if x = 0 then LENGTH('a) else CLZ x)"

definition CTZ :: "'a::len word \<Rightarrow> nat" where
  "CTZ x = length (takeWhile (\<lambda>i. \<not> bit x i) [0..<LENGTH('a)])"

definition JAVASTYLE_CTZ :: "'a::len word \<Rightarrow> nat" where
  "JAVASTYLE_CTZ x = (if x = 0 then LENGTH('a) else CTZ x)"

definition POPCOUNT :: "'a::len word \<Rightarrow> nat" where
  "POPCOUNT x = length (filter (bit x) [0..<LENGTH('a)])"

definition MostSignificantBit :: "'a::len word \<Rightarrow> int" where
  "MostSignificantBit value =
     (if value = 0 then -1 else int (LENGTH('a)) - 1 - int (CLZ value))"

definition LeastSignificantBit :: "'a::len word \<Rightarrow> int" where
  "LeastSignificantBit value = (if value = 0 then -1 else int (CTZ value))"

definition MinimumBitsToStore :: "'a::len word \<Rightarrow> nat" where
  "MinimumBitsToStore value = nat (MostSignificantBit value + 1)"

section \<open>Powers of two, rounding and alignment\<close>

definition RoundUpToPowerOfTwo :: "'a::len word \<Rightarrow> 'a word" where
  "RoundUpToPowerOfTwo x = (if x < 2 then x else push_bit (LENGTH('a) - CLZ (x - 1)) 1)"

definition TruncToPowerOfTwo :: "'a::len word \<Rightarrow> 'a word" where
  "TruncToPowerOfTwo val = (if val \<noteq> 0 then push_bit (LENGTH('a) - CLZ val - 1) 1 else 0)"

definition IsPowerOfTwo :: "'a::len word \<Rightarrow> bool" where
  "IsPowerOfTwo x \<longleftrightarrow> x AND (x - 1) = 0"

definition WhichPowerOf2 :: "'a::len word \<Rightarrow> nat" where
  "WhichPowerOf2 x = CTZ x"

definition RoundDown :: "'a::len word \<Rightarrow> 'a word \<Rightarrow> 'a word" where
  "RoundDown x n = x AND - n"

definition RoundUp :: "'a::len word \<Rightarrow> 'a word \<Rightarrow> 'a word" where
  "RoundUp x n = RoundDown (x + n - 1) n"

definition IsAligned :: "'a::len word \<Rightarrow> 'a word \<Rightarrow> bool" where
  "IsAligned n x \<longleftrightarrow> x AND (n - 1) = 0"

definition Low16Bits :: "u32 \<Rightarrow> u16" where
  "Low16Bits value = ucast value"

definition High16Bits :: "u32 \<Rightarrow> u16" where
  "High16Bits value = ucast (drop_bit 16 value)"

definition Low32Bits :: "u64 \<Rightarrow> u32" where
  "Low32Bits value = ucast value"

definition High32Bits :: "u64 \<Rightarrow> u32" where
  "High32Bits value = ucast (drop_bit 32 value)"

definition LowestOneBitValue :: "'a::len word \<Rightarrow> 'a word" where
  "LowestOneBitValue opnd = opnd AND - opnd"

definition HighestOneBitValue :: "'a::len word \<Rightarrow> 'a word" where
  "HighestOneBitValue opnd =
     (if opnd = 0 then 0 else push_bit (LENGTH('a) - (CLZ opnd + 1)) 1)"

definition ReverseBits32 :: "u32 \<Rightarrow> u32" where
  "ReverseBits32 opnd0 =
     (let opnd1 = (drop_bit 1 opnd0 AND 0x55555555) OR push_bit 1 (opnd0 AND 0x55555555);
          opnd2 = (drop_bit 2 opnd1 AND 0x33333333) OR push_bit 2 (opnd1 AND 0x33333333);
          opnd3 = (drop_bit 4 opnd2 AND 0x0F0F0F0F) OR push_bit 4 (opnd2 AND 0x0F0F0F0F);
          opnd4 = (drop_bit 8 opnd3 AND 0x00FF00FF) OR push_bit 8 (opnd3 AND 0x00FF00FF)
      in drop_bit 16 opnd4 OR push_bit 16 opnd4)"

definition ReverseBits64 :: "u64 \<Rightarrow> u64" where
  "ReverseBits64 opnd0 =
     (let opnd1 = push_bit 1 (opnd0 AND 0x5555555555555555) OR
                  (drop_bit 1 opnd0 AND 0x5555555555555555);
          opnd2 = push_bit 2 (opnd1 AND 0x3333333333333333) OR
                  (drop_bit 2 opnd1 AND 0x3333333333333333);
          opnd3 = push_bit 4 (opnd2 AND 0x0f0f0f0f0f0f0f0f) OR
                  (drop_bit 4 opnd2 AND 0x0f0f0f0f0f0f0f0f);
          opnd4 = push_bit 8 (opnd3 AND 0x00ff00ff00ff00ff) OR
                  (drop_bit 8 opnd3 AND 0x00ff00ff00ff00ff)
      in push_bit 48 opnd4 OR push_bit 16 (opnd4 AND 0xffff0000) OR
         (drop_bit 16 opnd4 AND 0xffff0000) OR drop_bit 48 opnd4)"

section \<open>Ranges of N-bit integers\<close>

text \<open>Signed template arguments are read through \<^const>\<open>sint\<close>, unsigned ones through \<^const>\<open>uint\<close>.\<close>

definition IsInt :: "nat \<Rightarrow> 'a::len word \<Rightarrow> bool" where
  "IsInt N value \<longleftrightarrow>
     (if N = LENGTH('a) then True
      else let limit = push_bit (N - 1) (1 :: 'a word)
           in sint (- limit) \<le> sint value \<and> sint value < sint limit)"

definition MaxInt_unsigned :: "nat \<Rightarrow> 'a::len word" where
  "MaxInt_unsigned bits = (if bits = LENGTH('a) then - 1 else push_bit bits 1 - 1)"

definition MaxInt_signed :: "nat \<Rightarrow> 'a::len word" where
  "MaxInt_signed bits =
     (if bits = LENGTH('a) then push_bit (LENGTH('a) - 1) 1 - 1
      else if bits = 1 then 0 else MaxInt_unsigned (bits - 1))"

definition MinInt_signed :: "nat \<Rightarrow> 'a::len word" where
  "MinInt_signed bits =
     (if bits = LENGTH('a) then push_bit (LENGTH('a) - 1) 1
      else if bits = 1 then - 1 else - 1 - MaxInt_signed bits)"

section \<open>Bit fields\<close>

definition MaskLeastSignificant :: "nat \<Rightarrow> 'a::len word" where
  "MaskLeastSignificant bits = (if bits \<ge> LENGTH('a) then - 1 else push_bit bits 1 - 1)"

definition BitFieldClear :: "'a::len word \<Rightarrow> nat \<Rightarrow> nat \<Rightarrow> 'a word" where
  "BitFieldClear val lsb width = val AND NOT (push_bit lsb (MaskLeastSignificant width))"

definition BitFieldInsert :: "'a::len word \<Rightarrow> 'a word \<Rightarrow> nat \<Rightarrow> nat \<Rightarrow> 'a word" where
  "BitFieldInsert val data lsb width =
     (let data_mask = MaskLeastSignificant width;
          value_cleared = BitFieldClear val lsb width
      in value_cleared OR push_bit lsb (data AND data_mask))"

definition BitFieldExtract :: "'a::len word \<Rightarrow> nat \<Rightarrow> nat \<Rightarrow> 'a word" where
  "BitFieldExtract val lsb width = drop_bit lsb val AND MaskLeastSignificant width"

text \<open>
  At a signed type the sign bit is tested against the C++ expression \<open>1 << (width - 1)\<close>, whose
  operand is a 32-bit \<open>int\<close>: the shift is undefined from \<open>width = 33\<close> on (\<open>None\<close>), and its
  value is converted to the template type with sign extension.
\<close>

definition BitFieldExtract_signed :: "'a::len word \<Rightarrow> nat \<Rightarrow> nat \<Rightarrow> 'a word option" where
  "BitFieldExtract_signed val lsb width =
     (let bitfield_unsigned = drop_bit lsb val AND MaskLeastSignificant width
      in if width = 0 then Some 0
         else if width - 1 \<ge> 32 then None
         else if bitfield_unsigned AND scast (push_bit (width - 1) (1 :: u32)) \<noteq> 0
         then Some (bitfield_unsigned OR NOT (MaskLeastSignificant width))
         else Some bitfield_unsigned)"

definition BitsToBytesRoundUp :: "u64 \<Rightarrow> u64" where
  "BitsToBytesRoundUp num_bits = RoundUp num_bits 8 div 8"

subsection \<open>Reading bits of the results\<close>

lemma MaskLeastSignificant_mask: "MaskLeastSignificant n = (mask n :: 'a::len word)"
  by (auto simp: MaskLeastSignificant_def mask_eq_exp_minus_1 push_bit_eq_mult not_le
      intro!: bit_word_eqI simp: bit_simps)

lemma bit_BitFieldClear:
  "bit (BitFieldClear v l w) n \<longleftrightarrow> bit v n \<and> \<not> (l \<le> n \<and> n < l + w)"
  for v :: "'a::len word"
  by (auto simp: BitFieldClear_def MaskLeastSignificant_mask bit_simps dest: bit_imp_le_length)

lemma bit_BitFieldInsert:
  "n < LENGTH('a) \<Longrightarrow>
   bit (BitFieldInsert v d l w) n \<longleftrightarrow> (if l \<le> n \<and> n < l + w then bit d (n - l) else bit v n)"
  for v :: "'a::len word"
  by (auto simp: BitFieldInsert_def Let_def MaskLeastSignificant_mask bit_simps bit_BitFieldClear
      dest: bit_imp_le_length)

lemma bit_BitFieldExtract:
  "bit (BitFieldExtract v l w) n \<longleftrightarrow> n < w \<and> bit v (l + n)"
  for v :: "'a::len word"
  by (auto simp: BitFieldExtract_def MaskLeastSignificant_mask bit_simps dest: bit_imp_le_length)

lemma BitFieldExtract_take_bit: "BitFieldExtract v l w = take_bit w (drop_bit l v)"
  by (simp add: BitFieldExtract_def MaskLeastSignificant_mask take_bit_eq_mask)

lemma BitFieldExtract_Insert_same [field_simps_bits]:
  fixes v :: "'a::len word"
  assumes "l + w \<le> LENGTH('a)"
  shows "BitFieldExtract (BitFieldInsert v d l w) l w = take_bit w d"
  using assms
  by (auto intro!: bit_word_eqI simp: bit_BitFieldExtract bit_BitFieldInsert bit_simps
      dest: bit_imp_le_length)

lemma BitFieldExtract_Insert_other [field_simps_bits]:
  fixes v :: "'a::len word"
  assumes "l + w \<le> LENGTH('a)" and "l' + w' \<le> LENGTH('a)" and "l' + w' \<le> l \<or> l + w \<le> l'"
  shows "BitFieldExtract (BitFieldInsert v d l w) l' w' = BitFieldExtract v l' w'"
  using assms
  by (auto intro!: bit_word_eqI simp: bit_BitFieldExtract bit_BitFieldInsert bit_simps
      dest: bit_imp_le_length)

lemma unat_BitFieldExtract_less: "unat (BitFieldExtract v l w) < 2 ^ w"
  for v :: "'a::len word"
  by (simp add: unat_less_exp_iff_bits bit_BitFieldExtract)

lemma fits_BitFieldExtract [simp]: "fits w (BitFieldExtract v l w)"
  by (simp add: fits_def bit_BitFieldExtract)

lemma fits_BitFieldClear: "fits n v \<Longrightarrow> fits n (BitFieldClear v l w)"
  by (simp add: fits_def bit_BitFieldClear)

lemma fits_BitFieldInsert: "fits n v \<Longrightarrow> l + w \<le> n \<Longrightarrow> fits n (BitFieldInsert v d l w)"
  for v :: "'a::len word"
  unfolding fits_def
  by (metis bit_BitFieldInsert bit_imp_le_length le_trans not_le)

lemma BitFieldExtract_signed_Some:
  fixes v :: "'a::len word"
  assumes "0 < w" and "w \<le> 32" and "l + w \<le> LENGTH('a)"
  shows "BitFieldExtract_signed v l w = Some (signed_take_bit (w - 1) (drop_bit l v))"
proof -
  let ?b = "take_bit w (drop_bit l v)"
  from assms obtain k where w: "w = Suc k" by (cases w) auto
  have sbit: "bit (scast (push_bit k (1 :: u32)) :: 'a word) n \<longleftrightarrow>
      n < LENGTH('a) \<and> (n = k \<or> k = 31 \<and> 31 \<le> n)" for n
    using assms w by (auto simp: bit_simps min_def)
  have test: "?b AND scast (push_bit k (1 :: u32)) \<noteq> 0 \<longleftrightarrow> bit (drop_bit l v) k"
    using assms w by (auto simp: word_zero_by_bits bit_simps sbit)
  have "(if bit (drop_bit l v) k then ?b OR NOT (mask w) else ?b) = signed_take_bit k (drop_bit l v)"
  proof (rule bit_word_eqI)
    fix n assume "n < LENGTH('a)"
    then show "bit (if bit (drop_bit l v) k then ?b OR NOT (mask w) else ?b) n =
        bit (signed_take_bit k (drop_bit l v)) n"
      using w by (cases "n < k"; cases "n = k") (auto simp: bit_simps bit_signed_take_bit_iff)
  qed
  then show ?thesis
    using assms w test
    by (auto simp: BitFieldExtract_signed_def MaskLeastSignificant_mask take_bit_mask_and Let_def)
qed

subsection \<open>Counting\<close>

lemma CLZ_facts:
  fixes x :: "'a::len word"
  assumes "x \<noteq> 0"
  shows "CLZ x < LENGTH('a)" and "bit x (LENGTH('a) - 1 - CLZ x)"
    and "LENGTH('a) - 1 - CLZ x < n \<Longrightarrow> \<not> bit x n"
proof -
  let ?P = "\<lambda>i. \<not> bit x (LENGTH('a) - 1 - i)"
  note tw = takeWhile_upt_length [where P = ?P and n = "LENGTH('a)", folded CLZ_def]
  from assms obtain m where m: "bit x m" "m < LENGTH('a)"
    by (auto simp: word_zero_by_bits)
  have "\<not> LENGTH('a) - 1 - m < CLZ x"
    using tw(2) [of "LENGTH('a) - 1 - m"] m by auto
  then show less: "CLZ x < LENGTH('a)" using m by linarith
  then show "bit x (LENGTH('a) - 1 - CLZ x)" using tw(3) by blast
  show "\<not> bit x n" if "LENGTH('a) - 1 - CLZ x < n"
  proof (cases "n < LENGTH('a)")
    case True
    with that have "LENGTH('a) - 1 - n < CLZ x" by linarith
    from tw(2) [OF this] True show ?thesis by (simp add: Suc_diff_Suc)
  next
    case False
    then show ?thesis by (auto dest: bit_imp_le_length)
  qed
qed

lemma CTZ_facts:
  fixes x :: "'a::len word"
  assumes "x \<noteq> 0"
  shows "CTZ x < LENGTH('a)" and "bit x (CTZ x)" and "n < CTZ x \<Longrightarrow> \<not> bit x n"
proof -
  note tw = takeWhile_upt_length [where P = "\<lambda>i. \<not> bit x i" and n = "LENGTH('a)", folded CTZ_def]
  from assms obtain m where m: "bit x m" "m < LENGTH('a)"
    by (auto simp: word_zero_by_bits)
  have "\<not> m < CTZ x" using tw(2) [of m] m by blast
  then show less: "CTZ x < LENGTH('a)" using m by linarith
  then show "bit x (CTZ x)" using tw(3) by blast
  show "\<not> bit x n" if "n < CTZ x" using tw(2) that by blast
qed

lemma POPCOUNT_card: "POPCOUNT v = card {i. bit (v :: 'a::len word) i}"
proof -
  have "{i. bit v i} = set (filter (bit v) [0..<LENGTH('a)])" using bit_imp_le_length [of v] by auto
  then show ?thesis by (simp only: POPCOUNT_def distinct_card [OF distinct_filter [OF distinct_upt]])
qed

lemma MinimumBitsToStore_le_iff:
  fixes x :: "'a::len word"
  shows "MinimumBitsToStore x \<le> n \<longleftrightarrow> unat x < 2 ^ n"
proof (cases "x = 0")
  case True
  then show ?thesis by (simp add: MinimumBitsToStore_def MostSignificantBit_def)
next
  case False
  note f = CLZ_facts [OF False]
  have m: "MinimumBitsToStore x = LENGTH('a) - CLZ x"
    using f(1) False by (simp add: MinimumBitsToStore_def MostSignificantBit_def)
  show ?thesis
  proof
    assume "MinimumBitsToStore x \<le> n"
    with m f show "unat x < 2 ^ n" by (auto simp: unat_less_exp_iff_bits)
  next
    assume "unat x < 2 ^ n"
    with f(2) have "\<not> n \<le> LENGTH('a) - 1 - CLZ x" by (auto simp: unat_less_exp_iff_bits)
    with m f(1) show "MinimumBitsToStore x \<le> n" by linarith
  qed
qed

lemma MinimumBitsToStore_le_length: "MinimumBitsToStore (x :: 'a::len word) \<le> LENGTH('a)"
  by (simp add: MinimumBitsToStore_le_iff)

subsection \<open>Rounding\<close>

lemma RoundDown_unat:
  fixes x :: "'a::len word"
  shows "unat (RoundDown x (2 ^ k)) = unat x div 2 ^ k * 2 ^ k"
proof -
  have "RoundDown x (2 ^ k) = push_bit k (drop_bit k x)"
    by (rule bit_word_eqI) (auto simp: RoundDown_def minus_exp_eq_not_mask bit_simps)
  moreover have "unat (push_bit k (drop_bit k x)) = push_bit k (drop_bit k (unat x))"
    by (rule bit_eqI) (auto simp: bit_simps dest: bit_imp_le_length)
  ultimately show ?thesis
    by (simp add: push_bit_eq_mult drop_bit_eq_div)
qed

lemma RoundUp_unat:
  fixes x :: "'a::len word"
  assumes "k < LENGTH('a)" and "unat x + 2 ^ k - 1 < 2 ^ LENGTH('a)"
  shows "unat (RoundUp x (2 ^ k)) = (unat x + 2 ^ k - 1) div 2 ^ k * 2 ^ k"
proof -
  have "unat (x + 2 ^ k - 1) = unat x + 2 ^ k - 1"
  proof -
    have "x + 2 ^ k - 1 = word_of_nat (unat x + (2 ^ k - 1))"
      by (simp add: of_nat_diff del: add_diff_assoc)
    also have "unat \<dots> = unat x + (2 ^ k - 1)"
      using assms by (simp add: unsigned_of_nat take_bit_nat_eq_self)
    finally show ?thesis by simp
  qed
  then show ?thesis by (simp add: RoundUp_def RoundDown_unat)
qed

lemma ReverseBits32_bit: "n < 32 \<Longrightarrow> bit (ReverseBits32 x) n \<longleftrightarrow> bit x (31 - n)"
proof -
  have "\<forall>n \<in> {0..<32}. bit (ReverseBits32 x) n \<longleftrightarrow> bit x (31 - n)"
    by (simp add: ReverseBits32_def Let_def bit_simps bit_word_times_2 atLeastLessThan_nat_numeral)
      (simp add: numeral_2_eq_2)
  then show "n < 32 \<Longrightarrow> bit (ReverseBits32 x) n \<longleftrightarrow> bit x (31 - n)" by simp
qed

end
