(* ===== verification/BitString.thy ===== *)
theory BitString
  imports BitUtils
begin

text \<open>
  The packed strings of \<^verbatim>\<open>libartbase/base/bit_string.h\<close>: up to three characters of 12, 4 and 11 bits
  in the low 27 bits of a 32-bit word.  The struct \<open>BitString\<close> has the one field \<open>storage_\<close>, so a
  bit string is that word.
\<close>

section \<open>Characters\<close>

record BitStringChar =
  bc_data :: u32
  bc_bitlength :: nat

definition BitStringChar_default :: BitStringChar where
  "BitStringChar_default = \<lparr>bc_data = 0, bc_bitlength = 0\<rparr>"

definition BitStringChar_make :: "u32 \<Rightarrow> nat \<Rightarrow> BitStringChar" where
  "BitStringChar_make data bitlength = \<lparr>bc_data = data, bc_bitlength = bitlength\<rparr>"

definition BitStringChar_IsEmpty :: "BitStringChar \<Rightarrow> bool" where
  "BitStringChar_IsEmpty c \<longleftrightarrow> bc_bitlength c = 0"

definition BitStringChar_equals :: "BitStringChar \<Rightarrow> BitStringChar \<Rightarrow> bool" where
  "BitStringChar_equals c other \<longleftrightarrow> bc_data c = bc_data other"

definition BitStringChar_plus :: "BitStringChar \<Rightarrow> u32 \<Rightarrow> BitStringChar" where
  "BitStringChar_plus c storage = BitStringChar_make (bc_data c + storage) (bc_bitlength c)"

definition MaximumValue :: "BitStringChar \<Rightarrow> BitStringChar" where
  "MaximumValue c = BitStringChar_make (MaxInt_unsigned (bc_bitlength c)) (bc_bitlength c)"

section \<open>Strings\<close>

type_synonym BitString = u32

definition kBitSizeAtPosition :: "nat list" where
  "kBitSizeAtPosition = [12, 4, 11]"

definition kCapacity :: nat where
  "kCapacity = length kBitSizeAtPosition"

function GetBitLengthTotal_loop :: "nat \<Rightarrow> nat \<Rightarrow> nat \<Rightarrow> nat" where
  "GetBitLengthTotal_loop position idx acc =
     (if idx < position \<and> idx < kCapacity
      then GetBitLengthTotal_loop position (idx + 1) (acc + kBitSizeAtPosition ! idx)
      else acc)"
  by pat_completeness auto
termination
  by (relation "measure (\<lambda>(position, idx, acc). kCapacity - idx)") auto

declare GetBitLengthTotal_loop.simps [simp del]

definition GetBitLengthTotalAtPosition :: "nat \<Rightarrow> nat" where
  "GetBitLengthTotalAtPosition position = GetBitLengthTotal_loop position 0 0"

definition GetLsbForPosition :: "nat \<Rightarrow> nat" where
  "GetLsbForPosition position = GetBitLengthTotalAtPosition position"

definition MaybeGetBitLengthAtPosition :: "nat \<Rightarrow> nat" where
  "MaybeGetBitLengthAtPosition position =
     (if position \<ge> kCapacity then 0 else kBitSizeAtPosition ! position)"

definition BitString_at :: "BitString \<Rightarrow> nat \<Rightarrow> BitStringChar" where
  "BitString_at storage idx =
     BitStringChar_make (BitFieldExtract storage (GetLsbForPosition idx) (kBitSizeAtPosition ! idx))
       (kBitSizeAtPosition ! idx)"

definition SetAt :: "BitString \<Rightarrow> nat \<Rightarrow> BitStringChar \<Rightarrow> BitString" where
  "SetAt storage idx bitchar =
     BitFieldInsert storage (bc_data bitchar) (GetLsbForPosition idx) (kBitSizeAtPosition ! idx)"

fun Length_loop :: "BitString \<Rightarrow> nat \<Rightarrow> nat \<Rightarrow> nat" where
  "Length_loop s 0 num_trailing_zeros =
     (if bc_data (BitString_at s 0) \<noteq> 0 then num_trailing_zeros else num_trailing_zeros + 1)"
| "Length_loop s (Suc i) num_trailing_zeros =
     (if bc_data (BitString_at s (Suc i)) \<noteq> 0 then num_trailing_zeros
      else Length_loop s i (num_trailing_zeros + 1))"

definition BitString_Length :: "BitString \<Rightarrow> nat" where
  "BitString_Length s = kCapacity - Length_loop s (kCapacity - 1) 0"

definition BitString_IsEmpty :: "BitString \<Rightarrow> bool" where
  "BitString_IsEmpty s \<longleftrightarrow> s = 0"

definition BitString_BitStructSizeOf :: nat where
  "BitString_BitStructSizeOf = GetBitLengthTotalAtPosition kCapacity"

definition Truncate :: "BitString \<Rightarrow> nat \<Rightarrow> BitString" where
  "Truncate s end0 =
     (if end0 < kCapacity
      then let lsb = GetLsbForPosition end0;
               bit_size = GetLsbForPosition kCapacity - lsb
           in BitFieldClear s lsb bit_size
      else s)"

section \<open>Facts about the layout\<close>

text \<open>The data of the character at a position; every operation is described by its effect on it.\<close>

abbreviation char_at :: "BitString \<Rightarrow> nat \<Rightarrow> u32" where
  "char_at s i \<equiv> bc_data (BitString_at s i)"

lemma kCapacity_3 [simp]: "kCapacity = 3"
  by (simp add: kCapacity_def kBitSizeAtPosition_def)

lemma GetBitLengthTotalAtPosition_values [simp]:
  "GetBitLengthTotalAtPosition 0 = 0"
  "GetBitLengthTotalAtPosition (Suc 0) = 12"
  "GetBitLengthTotalAtPosition 2 = 16"
  "GetBitLengthTotalAtPosition 3 = 27"
  by (simp_all add: GetBitLengthTotalAtPosition_def GetBitLengthTotal_loop.simps
      kBitSizeAtPosition_def numeral_2_eq_2 numeral_3_eq_3)

lemma BitString_BitStructSizeOf_27 [simp]: "BitString_BitStructSizeOf = 27"
  by (simp add: BitString_BitStructSizeOf_def)

lemma less_3_cases: "i < (3 :: nat) \<Longrightarrow> i = 0 \<or> i = 1 \<or> i = 2"
  by auto

lemma size_at [simp]:
  "kBitSizeAtPosition ! 0 = 12" "kBitSizeAtPosition ! Suc 0 = 4" "kBitSizeAtPosition ! 2 = 11"
  by (simp_all add: kBitSizeAtPosition_def)

lemmas layout = GetLsbForPosition_def BitString_at_def SetAt_def BitStringChar_make_def

lemma char_at_extract:
  "char_at s 0 = BitFieldExtract s 0 12"
  "char_at s (Suc 0) = BitFieldExtract s 12 4"
  "char_at s 2 = BitFieldExtract s 16 11"
  by (simp_all add: layout)

lemma char_at_0 [simp]: "j < 3 \<Longrightarrow> char_at 0 j = 0"
  by (simp add: layout BitFieldExtract_take_bit)

lemma bitlength_at: "bc_bitlength (BitString_at s i) = kBitSizeAtPosition ! i"
  by (simp add: layout)

lemma char_at_SetAt [field_simps_bits]:
  assumes "i < 3" and "j < 3"
  shows "char_at (SetAt s i c) j =
         (if i = j then take_bit (kBitSizeAtPosition ! i) (bc_data c) else char_at s j)"
  using less_3_cases [OF assms(1)] less_3_cases [OF assms(2)]
  by (auto simp: layout field_simps_bits)

lemma char_at_Truncate [field_simps_bits]:
  assumes "j < 3" and "e \<le> 3"
  shows "char_at (Truncate s e) j = (if j < e then char_at s j else 0)"
proof -
  from assms(2) have "e = 0 \<or> e = 1 \<or> e = 2 \<or> e = 3" by auto
  then show ?thesis
    using less_3_cases [OF assms(1)]
    by (auto simp: char_at_extract Truncate_def GetLsbForPosition_def Let_def word_zero_by_bits
        bit_BitFieldExtract bit_BitFieldClear intro!: bit_word_eqI)
qed

lemma unat_char_at_less: "i < 3 \<Longrightarrow> unat (char_at s i) < 2 ^ (kBitSizeAtPosition ! i)"
  using less_3_cases [of i] unat_BitFieldExtract_less by (auto simp: layout)

lemma BitString_eqI:
  assumes "fits 27 s" and "fits 27 t" and ch: "\<And>i. i < 3 \<Longrightarrow> char_at s i = char_at t i"
  shows "s = t"
proof (rule bit_word_eqI)
  fix n :: nat
  have f: "BitFieldExtract s 0 12 = BitFieldExtract t 0 12"
    "BitFieldExtract s 12 4 = BitFieldExtract t 12 4"
    "BitFieldExtract s 16 11 = BitFieldExtract t 16 11"
    using ch [of 0] ch [of 1] ch [of 2] by (simp_all add: layout)
  consider "n < 12" | "12 \<le> n" "n < 16" | "16 \<le> n" "n < 27" | "27 \<le> n" by linarith
  then show "bit s n = bit t n"
  proof cases
    case 1
    then show ?thesis
      using arg_cong [OF f(1), of "\<lambda>w. bit w n"] by (simp add: bit_BitFieldExtract)
  next
    case 2
    then show ?thesis
      using arg_cong [OF f(2), of "\<lambda>w. bit w (n - 12)"] by (simp add: bit_BitFieldExtract) linarith
  next
    case 3
    then show ?thesis
      using arg_cong [OF f(3), of "\<lambda>w. bit w (n - 16)"] by (simp add: bit_BitFieldExtract) linarith
  next
    case 4
    then show ?thesis using assms(1,2) by (simp add: fits_def)
  qed
qed

lemma BitString_Length_chars:
  "BitString_Length s =
     (if char_at s 2 \<noteq> 0 then 3 else if char_at s 1 \<noteq> 0 then 2 else if char_at s 0 \<noteq> 0 then 1 else 0)"
  by (simp add: BitString_Length_def numeral_2_eq_2)

lemma BitString_Length_Truncate:
  assumes "e \<le> 3"
  shows "BitString_Length (Truncate s e) \<le> e"
    and "0 < e \<Longrightarrow> BitString_Length (Truncate s e) = e \<longleftrightarrow> char_at s (e - 1) \<noteq> 0"
proof -
  from assms have "e = 0 \<or> e = 1 \<or> e = 2 \<or> e = 3" by auto
  then show "BitString_Length (Truncate s e) \<le> e"
    and "0 < e \<Longrightarrow> BitString_Length (Truncate s e) = e \<longleftrightarrow> char_at s (e - 1) \<noteq> 0"
    by (auto simp: BitString_Length_chars char_at_Truncate)
qed

lemma Truncate_and_mask:
  assumes "fits 27 s" and "e \<le> 3"
  shows "s AND MaskLeastSignificant (GetBitLengthTotalAtPosition e) = Truncate s e"
proof -
  from assms(2) have "e = 0 \<or> e = 1 \<or> e = 2 \<or> e = 3" by auto
  then show ?thesis
    using assms(1)
    by (auto simp: Truncate_def GetLsbForPosition_def Let_def MaskLeastSignificant_mask fits_def
        bit_BitFieldClear bit_simps not_le [symmetric] intro!: bit_word_eqI)
qed

lemma fits_SetAt [simp]: "i < 3 \<Longrightarrow> fits 27 s \<Longrightarrow> fits 27 (SetAt s i c)"
  using less_3_cases [of i] by (auto simp: layout intro!: fits_BitFieldInsert)

lemma fits_Truncate [simp]: "fits 27 s \<Longrightarrow> fits 27 (Truncate s e)"
  by (simp add: Truncate_def Let_def fits_BitFieldClear)

end
