(* ===== verification/SubtypeCheckInfo.thy ===== *)
theory SubtypeCheckInfo
  imports BitString
begin

text \<open>
  The label of one class for the constant-time subtype check:
  \<^verbatim>\<open>runtime/subtype_check_bits.h\<close> and \<^verbatim>\<open>runtime/subtype_check_info.h\<close>.  A label is the class depth
  and the 28-bit word of path characters, next character and overflow flag.  The operations are the
  methods of \<open>SubtypeCheckInfo\<close>; the lemmas describe each of them by its effect on the characters
  and on the overflow flag.
\<close>

section \<open>The bit struct SubtypeCheckBits\<close>

type_synonym SubtypeCheckBits = u32

definition SubtypeCheckBits_BitStructSizeOf :: nat where
  "SubtypeCheckBits_BitStructSizeOf = BitString_BitStructSizeOf + 1"

definition get_bitstring :: "SubtypeCheckBits \<Rightarrow> BitString" where
  "get_bitstring b = BitFieldExtract b 0 BitString_BitStructSizeOf"

definition set_bitstring :: "SubtypeCheckBits \<Rightarrow> BitString \<Rightarrow> SubtypeCheckBits" where
  "set_bitstring b s = BitFieldInsert b s 0 BitString_BitStructSizeOf"

definition get_overflow :: "SubtypeCheckBits \<Rightarrow> bool" where
  "get_overflow b \<longleftrightarrow> BitFieldExtract b BitString_BitStructSizeOf 1 \<noteq> 0"

definition set_overflow :: "SubtypeCheckBits \<Rightarrow> bool \<Rightarrow> SubtypeCheckBits" where
  "set_overflow b v = BitFieldInsert b (if v then 1 else 0) BitString_BitStructSizeOf 1"

section \<open>SubtypeCheckInfo\<close>

datatype sci_state = kUninitialized | kInitialized | kAssigned | kOverflowed

datatype sci_result = kUnknownSubtypeOf | kNotSubtypeOf | kSubtypeOf

record SubtypeCheckInfo =
  sci_depth :: nat
  sci_bits :: SubtypeCheckBits

definition SubtypeCheckInfo_Create :: "SubtypeCheckBits \<Rightarrow> nat \<Rightarrow> SubtypeCheckInfo" where
  "SubtypeCheckInfo_Create compressed_value depth = \<lparr>sci_depth = depth, sci_bits = compressed_value\<rparr>"

definition GetSafeDepth :: "nat \<Rightarrow> nat" where
  "GetSafeDepth depth = min depth kCapacity"

definition HasNext :: "SubtypeCheckInfo \<Rightarrow> bool" where
  "HasNext i \<longleftrightarrow> sci_depth i < kCapacity"

definition GetBitString :: "SubtypeCheckInfo \<Rightarrow> BitString" where
  "GetBitString i = get_bitstring (sci_bits i)"

definition SetBitStringUnchecked :: "SubtypeCheckInfo \<Rightarrow> BitString \<Rightarrow> SubtypeCheckInfo" where
  "SetBitStringUnchecked i val = i\<lparr>sci_bits := set_bitstring (sci_bits i) val\<rparr>"

definition GetPathToRoot :: "SubtypeCheckInfo \<Rightarrow> BitString" where
  "GetPathToRoot i = Truncate (GetBitString i) (GetSafeDepth (sci_depth i))"

definition GetState :: "SubtypeCheckInfo \<Rightarrow> sci_state" where
  "GetState i =
     (if get_overflow (sci_bits i) then kOverflowed
      else if BitString_IsEmpty (GetBitString i) then kUninitialized
      else let path_to_root = GetPathToRoot i
           in if BitString_Length path_to_root = sci_depth i then kAssigned else kInitialized)"

definition GetEncodedPathToRoot :: "SubtypeCheckInfo \<Rightarrow> u32" where
  "GetEncodedPathToRoot i = GetPathToRoot i"

definition GetEncodedPathToRootMask :: "SubtypeCheckInfo \<Rightarrow> u32" where
  "GetEncodedPathToRootMask i =
     (let num_bitchars = GetSafeDepth (sci_depth i);
          bitlength = GetBitLengthTotalAtPosition num_bitchars
      in MaskLeastSignificant bitlength)"

definition GetNext :: "SubtypeCheckInfo \<Rightarrow> BitStringChar" where
  "GetNext i = BitString_at (GetBitString i) (sci_depth i)"

definition MaybeGetNext :: "SubtypeCheckInfo \<Rightarrow> BitStringChar option" where
  "MaybeGetNext i = (if HasNext i then Some (BitString_at (GetBitString i) (sci_depth i)) else None)"

definition SetNext :: "SubtypeCheckInfo \<Rightarrow> BitStringChar \<Rightarrow> SubtypeCheckInfo" where
  "SetNext i next_char =
     (let bs = SetAt (GetBitString i) (sci_depth i) next_char in SetBitStringUnchecked i bs)"

definition SetNextUnchecked :: "SubtypeCheckInfo \<Rightarrow> BitStringChar \<Rightarrow> SubtypeCheckInfo" where
  "SetNextUnchecked i next_char =
     (let bs = SetAt (GetBitString i) (sci_depth i) next_char in SetBitStringUnchecked i bs)"

definition MaybeInitNext :: "SubtypeCheckInfo \<Rightarrow> SubtypeCheckInfo" where
  "MaybeInitNext i =
     (if HasNext i
      then let cleared = SetNextUnchecked i BitStringChar_default
           in SetNextUnchecked cleared (BitStringChar_plus (GetNext cleared) 1)
      else i)"

definition MarkOverflowed :: "SubtypeCheckInfo \<Rightarrow> SubtypeCheckInfo" where
  "MarkOverflowed i = i\<lparr>sci_bits := set_overflow (sci_bits i) True\<rparr>"

definition OverwriteNextValueFromParent ::
  "SubtypeCheckInfo \<Rightarrow> SubtypeCheckInfo \<Rightarrow> BitStringChar \<Rightarrow> SubtypeCheckInfo" where
  "OverwriteNextValueFromParent this child value =
     (if HasNext this
      then let bs = SetAt (GetBitString child) (sci_depth this) value
           in SetBitStringUnchecked child bs
      else child)"

definition CreateRoot :: SubtypeCheckInfo where
  "CreateRoot =
     (let io = \<lparr>sci_depth = 0, sci_bits = 0\<rparr> in SetNext io (BitStringChar_plus (GetNext io) 1))"

text \<open>\<open>CreateChild\<close> also updates the parent it is called on: the result is (parent, child).\<close>

definition CreateChild :: "SubtypeCheckInfo \<Rightarrow> bool \<Rightarrow> SubtypeCheckInfo \<times> SubtypeCheckInfo" where
  "CreateChild this assign_next =
     (let child0 = this\<lparr>sci_depth := sci_depth this + 1\<rparr>;
          child1 = MaybeInitNext child0;
          child = OverwriteNextValueFromParent this child1 BitStringChar_default
      in if \<not> assign_next then (this, child)
         else if HasNext this \<and> \<not> get_overflow (sci_bits this)
         then let next_char = GetNext this
              in if \<not> BitStringChar_equals next_char (MaximumValue next_char)
                 then (SetNext this (BitStringChar_plus next_char 1),
                       OverwriteNextValueFromParent this child next_char)
                 else (this, MarkOverflowed child)
         else (this, MarkOverflowed child))"

definition Info_IsSubtypeOf :: "SubtypeCheckInfo \<Rightarrow> SubtypeCheckInfo \<Rightarrow> sci_result" where
  "Info_IsSubtypeOf this target =
     (if GetState target \<noteq> kAssigned \<or> GetState this = kUninitialized then kUnknownSubtypeOf
      else let source_value = GetEncodedPathToRoot this;
               target_value = GetEncodedPathToRoot target;
               target_mask = GetEncodedPathToRootMask target
           in if source_value AND target_mask = target_value then kSubtypeOf else kNotSubtypeOf)"

text \<open>The checks of \<open>DcheckInvariants\<close>, which a debug build runs after every public operation.\<close>

definition DcheckInvariants :: "SubtypeCheckInfo \<Rightarrow> bool" where
  "DcheckInvariants i \<longleftrightarrow>
     BitString_Length (GetBitString i) \<le> GetSafeDepth (sci_depth i + 1) \<and>
     (let path_to_root = GetPathToRoot i;
          chars = map (\<lambda>k. bc_data (BitString_at path_to_root k)) [0..<kCapacity]
      in list_all (\<lambda>c. c = 0) (dropWhile (\<lambda>c. c \<noteq> 0) chars))"

section \<open>Characters and overflow flag of a label\<close>

definition path_char :: "SubtypeCheckInfo \<Rightarrow> nat \<Rightarrow> u32" where
  "path_char i j = bc_data (BitString_at (GetBitString i) j)"

abbreviation overflowed :: "SubtypeCheckInfo \<Rightarrow> bool" where
  "overflowed i \<equiv> get_overflow (sci_bits i)"

lemma fits_GetBitString [simp]: "fits 27 (GetBitString i)"
  by (simp add: GetBitString_def get_bitstring_def)

lemma get_set_bitstring [field_simps_bits]:
  "fits 27 s \<Longrightarrow> get_bitstring (set_bitstring b s) = s"
  "get_overflow (set_bitstring b s) = get_overflow b"
  "get_bitstring (set_overflow b v) = get_bitstring b"
  "get_overflow (set_overflow b v) = v"
  by (simp_all add: get_bitstring_def set_bitstring_def get_overflow_def set_overflow_def
      field_simps_bits fits_take_bit)

lemma sci_SetNext [field_simps_bits]:
  "sci_depth (SetNext i c) = sci_depth i"
  "overflowed (SetNext i c) = overflowed i"
  by (simp_all add: SetNext_def SetBitStringUnchecked_def Let_def field_simps_bits)

lemma path_char_SetNext [field_simps_bits]:
  assumes "sci_depth i < 3" and "j < 3"
  shows "path_char (SetNext i c) j =
    (if j = sci_depth i then take_bit (kBitSizeAtPosition ! j) (bc_data c) else path_char i j)"
  using assms
  by (auto simp: path_char_def SetNext_def SetBitStringUnchecked_def GetBitString_def [of "_\<lparr>sci_bits := _\<rparr>"]
      Let_def field_simps_bits)

lemma SetNextUnchecked_eq [simp]: "SetNextUnchecked = SetNext"
  by (simp add: fun_eq_iff SetNextUnchecked_def SetNext_def)

lemma sci_MarkOverflowed [simp]:
  "sci_depth (MarkOverflowed i) = sci_depth i"
  "overflowed (MarkOverflowed i)"
  "path_char (MarkOverflowed i) j = path_char i j"
  by (simp_all add: MarkOverflowed_def path_char_def GetBitString_def field_simps_bits)

lemma BitStringChar_parts [simp]:
  "bc_data BitStringChar_default = 0"
  "bc_data (BitStringChar_plus c n) = bc_data c + n"
  "bc_data (MaximumValue c) = MaxInt_unsigned (bc_bitlength c)"
  by (simp_all add: BitStringChar_default_def BitStringChar_plus_def MaximumValue_def
      BitStringChar_make_def)

lemma GetNext_data: "bc_data (GetNext i) = path_char i (sci_depth i)"
  by (simp add: GetNext_def path_char_def)

lemma size_at_pos: "j < 3 \<Longrightarrow> 0 < kBitSizeAtPosition ! j \<and> kBitSizeAtPosition ! j \<le> 12"
  using less_3_cases [of j] by auto

lemma take_bit_size_1 [simp]: "j < 3 \<Longrightarrow> take_bit (kBitSizeAtPosition ! j) (1 :: u32) = 1"
  using size_at_pos [of j] by (cases "kBitSizeAtPosition ! j") auto

lemma path_char_depth [simp]: "path_char (i\<lparr>sci_depth := d\<rparr>) j = path_char i j"
  by (simp add: path_char_def GetBitString_def)

lemma sci_MaybeInitNext [field_simps_bits]:
  "sci_depth (MaybeInitNext i) = sci_depth i"
  "overflowed (MaybeInitNext i) = overflowed i"
  "j < 3 \<Longrightarrow> path_char (MaybeInitNext i) j = (if j = sci_depth i then 1 else path_char i j)"
  by (auto simp: MaybeInitNext_def HasNext_def Let_def GetNext_data field_simps_bits size_at_pos)

lemma sci_OverwriteNext [field_simps_bits]:
  "sci_depth (OverwriteNextValueFromParent p c v) = sci_depth c"
  "overflowed (OverwriteNextValueFromParent p c v) = overflowed c"
  "j < 3 \<Longrightarrow> path_char (OverwriteNextValueFromParent p c v) j =
     (if j = sci_depth p then take_bit (kBitSizeAtPosition ! j) (bc_data v) else path_char c j)"
  by (auto simp: OverwriteNextValueFromParent_def HasNext_def Let_def SetBitStringUnchecked_def
      path_char_def GetBitString_def [of "_\<lparr>sci_bits := _\<rparr>"] field_simps_bits)

lemma path_char_fits: "j < 3 \<Longrightarrow> fits (kBitSizeAtPosition ! j) (path_char i j)"
  unfolding path_char_def using unat_char_at_less [of j] by (simp add: fits_unat)

section \<open>Each operation on the characters\<close>

text \<open>The largest value of the character at a position; a parent at it has no room for a child.\<close>

definition max_char :: "nat \<Rightarrow> u32" where
  "max_char j = mask (kBitSizeAtPosition ! j)"

lemma MaximumValue_GetNext: "sci_depth i < 3 \<Longrightarrow> bc_data (MaximumValue (GetNext i)) = max_char (sci_depth i)"
  using size_at_pos [of "sci_depth i"]
  by (auto simp: GetNext_def bitlength_at MaxInt_unsigned_def max_char_def mask_eq_exp_minus_1
      push_bit_eq_mult)

lemma next_char_fits:
  assumes "j < 3" and "path_char i j \<noteq> max_char j"
  shows "unat (path_char i j + 1) = unat (path_char i j) + 1"
    and "fits (kBitSizeAtPosition ! j) (path_char i j + 1)"
  using fits_inc [OF path_char_fits [OF assms(1)]] assms size_at_pos [OF assms(1)]
  by (auto simp: max_char_def)

lemma CreateRoot_facts:
  "sci_depth CreateRoot = 0" "\<not> overflowed CreateRoot"
  "j < 3 \<Longrightarrow> path_char CreateRoot j = (if j = 0 then 1 else 0)"
proof -
  have zero: "path_char \<lparr>sci_depth = 0, sci_bits = 0\<rparr> j = 0" if "j < 3" for j
    using less_3_cases [OF that]
    by (auto simp: path_char_def GetBitString_def get_bitstring_def BitFieldExtract_take_bit)
  show "sci_depth CreateRoot = 0" "\<not> overflowed CreateRoot"
    by (simp_all add: CreateRoot_def Let_def field_simps_bits)
      (simp add: get_overflow_def BitFieldExtract_take_bit)
  show "j < 3 \<Longrightarrow> path_char CreateRoot j = (if j = 0 then 1 else 0)"
    using take_bit_size_1 [of 0]
    by (simp add: CreateRoot_def Let_def field_simps_bits GetNext_data zero)
qed

lemma CreateChild_init:
  assumes "CreateChild p False = (p', c)"
  shows "p' = p" "sci_depth c = sci_depth p + 1" "overflowed c = overflowed p"
    "j < 3 \<Longrightarrow> path_char c j = (if j = sci_depth p then 0 else if j = sci_depth p + 1 then 1 else path_char p j)"
  using assms
  by (auto simp: CreateChild_def Let_def field_simps_bits)

lemma CreateChild_assign_ok:
  assumes "CreateChild p True = (p', c)"
    and room: "sci_depth p < 3" "\<not> overflowed p" "path_char p (sci_depth p) \<noteq> max_char (sci_depth p)"
  shows "sci_depth p' = sci_depth p" "\<not> overflowed p'" "sci_depth c = sci_depth p + 1" "\<not> overflowed c"
    "j < 3 \<Longrightarrow> path_char c j = (if j = sci_depth p + 1 then 1 else path_char p j)"
    "j < 3 \<Longrightarrow> path_char p' j = (if j = sci_depth p then path_char p j + 1 else path_char p j)"
proof -
  have ne: "\<not> BitStringChar_equals (GetNext p) (MaximumValue (GetNext p))"
    using room by (simp add: BitStringChar_equals_def GetNext_data MaximumValue_GetNext
        del: BitStringChar_parts)
  note eqs = assms(1) [unfolded CreateChild_def Let_def, simplified room HasNext_def ne kCapacity_3
      if_True if_False simp_thms prod.inject]
  have fit: "take_bit (kBitSizeAtPosition ! sci_depth p) (path_char p (sci_depth p)) =
      path_char p (sci_depth p)"
    using path_char_fits [OF room(1)] by (rule fits_take_bit)
  show "sci_depth p' = sci_depth p" "\<not> overflowed p'" "sci_depth c = sci_depth p + 1" "\<not> overflowed c"
    using eqs room by (auto simp: field_simps_bits)
  show "j < 3 \<Longrightarrow> path_char c j = (if j = sci_depth p + 1 then 1 else path_char p j)"
    using eqs room fit by (auto simp: field_simps_bits GetNext_data)
  show "j < 3 \<Longrightarrow> path_char p' j = (if j = sci_depth p then path_char p j + 1 else path_char p j)"
    using eqs room fits_take_bit [OF next_char_fits(2) [OF room(1,3)]]
    by (auto simp: field_simps_bits GetNext_data)
qed

lemma CreateChild_assign_full:
  assumes "CreateChild p True = (p', c)"
    and "\<not> (sci_depth p < 3 \<and> \<not> overflowed p \<and> path_char p (sci_depth p) \<noteq> max_char (sci_depth p))"
  shows "p' = p" "sci_depth c = sci_depth p + 1" "overflowed c"
    "j < 3 \<Longrightarrow> path_char c j = (if j = sci_depth p then 0 else if j = sci_depth p + 1 then 1 else path_char p j)"
proof -
  have "\<not> BitStringChar_equals (GetNext p) (MaximumValue (GetNext p)) \<longleftrightarrow>
      path_char p (sci_depth p) \<noteq> max_char (sci_depth p)" if "sci_depth p < 3"
    using that by (simp add: BitStringChar_equals_def GetNext_data MaximumValue_GetNext
        del: BitStringChar_parts)
  with assms have "p' = p \<and> c = MarkOverflowed (OverwriteNextValueFromParent p
      (MaybeInitNext (p\<lparr>sci_depth := sci_depth p + 1\<rparr>)) BitStringChar_default)"
    by (auto simp: CreateChild_def Let_def HasNext_def split: if_splits)
  then show "p' = p" "sci_depth c = sci_depth p + 1" "overflowed c"
    "j < 3 \<Longrightarrow> path_char c j = (if j = sci_depth p then 0 else if j = sci_depth p + 1 then 1 else path_char p j)"
    by (auto simp: field_simps_bits)
qed

lemma GetBitString_zero_iff: "GetBitString i = 0 \<longleftrightarrow> (\<forall>j < 3. path_char i j = 0)"
proof
  assume "GetBitString i = 0"
  then show "\<forall>j < 3. path_char i j = 0" by (simp add: path_char_def)
next
  assume "\<forall>j < 3. path_char i j = 0"
  then show "GetBitString i = 0"
    using BitString_eqI [of "GetBitString i" 0] by (simp add: path_char_def)
qed

lemma GetState_chars:
  "GetState i =
     (if overflowed i then kOverflowed
      else if \<forall>j < 3. path_char i j = 0 then kUninitialized
      else if sci_depth i = 0 \<or> sci_depth i \<le> 3 \<and> path_char i (sci_depth i - 1) \<noteq> 0 then kAssigned
      else kInitialized)"
proof -
  have assigned: "BitString_Length (GetPathToRoot i) = sci_depth i \<longleftrightarrow>
        sci_depth i = 0 \<or> sci_depth i \<le> 3 \<and> path_char i (sci_depth i - 1) \<noteq> 0"
    using BitString_Length_Truncate [of "min (sci_depth i) 3" "GetBitString i"]
    by (cases "sci_depth i = 0"; cases "sci_depth i \<le> 3")
      (simp_all add: GetPathToRoot_def GetSafeDepth_def path_char_def)
  show ?thesis
    by (simp only: GetState_def BitString_IsEmpty_def GetBitString_zero_iff Let_def assigned)
qed

lemma Info_IsSubtypeOf_chars:
  "Info_IsSubtypeOf s t =
     (if GetState t \<noteq> kAssigned \<or> GetState s = kUninitialized then kUnknownSubtypeOf
      else if \<forall>j < 3. j < sci_depth t \<longrightarrow> (if j < sci_depth s then path_char s j else 0) = path_char t j
      then kSubtypeOf else kNotSubtypeOf)"
proof -
  let ?d = "GetSafeDepth (sci_depth t)"
  have d: "?d \<le> 3" by (simp add: GetSafeDepth_def)
  have masked: "GetEncodedPathToRoot s AND GetEncodedPathToRootMask t = Truncate (GetPathToRoot s) ?d"
    using Truncate_and_mask [OF _ d, of "GetPathToRoot s"]
    by (simp add: GetEncodedPathToRoot_def GetEncodedPathToRootMask_def GetPathToRoot_def)
  have "Truncate (GetPathToRoot s) ?d = GetPathToRoot t \<longleftrightarrow>
      (\<forall>j < 3. char_at (Truncate (GetPathToRoot s) ?d) j = char_at (GetPathToRoot t) j)"
    using BitString_eqI [of "Truncate (GetPathToRoot s) ?d" "GetPathToRoot t"]
    by (auto simp: GetPathToRoot_def)
  also have "\<dots> \<longleftrightarrow>
      (\<forall>j < 3. j < sci_depth t \<longrightarrow> (if j < sci_depth s then path_char s j else 0) = path_char t j)"
    by (auto simp: GetPathToRoot_def GetSafeDepth_def char_at_Truncate path_char_def)
  finally have compare: "Truncate (GetPathToRoot s) ?d = GetPathToRoot t \<longleftrightarrow>
      (\<forall>j < 3. j < sci_depth t \<longrightarrow> (if j < sci_depth s then path_char s j else 0) = path_char t j)" .
  show ?thesis
    by (simp only: Info_IsSubtypeOf_def Let_def masked GetEncodedPathToRoot_def [of t] compare)
qed

end
