(* ===== verification/ClassStatus.thy ===== *)
theory ClassStatus
  imports BitUtils
begin

text \<open>
  The status of a class: \<^verbatim>\<open>runtime/class_status.h\<close>, the status predicates of \<^verbatim>\<open>runtime/mirror/class.h\<close>
  and the guarded status transitions of \<^verbatim>\<open>runtime/mirror/class.cc\<close>.  The order of the statuses is the
  order of their enum values, which the code compares.
\<close>

section \<open>The enumeration\<close>

datatype ClassStatus =
    NotReady | Retired | ErrorResolved | ErrorUnresolved | Idx | Loaded | Resolving | Resolved
  | Verifying | RetryVerificationAtRuntime | VerifiedNeedsAccessChecks | Verified
  | SuperclassValidated | Initializing | Initialized | VisiblyInitialized

fun status_value :: "ClassStatus \<Rightarrow> nat" where
  "status_value NotReady = 0"
| "status_value Retired = 1"
| "status_value ErrorResolved = 2"
| "status_value ErrorUnresolved = 3"
| "status_value Idx = 4"
| "status_value Loaded = 5"
| "status_value Resolving = 6"
| "status_value Resolved = 7"
| "status_value Verifying = 8"
| "status_value RetryVerificationAtRuntime = 9"
| "status_value VerifiedNeedsAccessChecks = 10"
| "status_value Verified = 11"
| "status_value SuperclassValidated = 12"
| "status_value Initializing = 13"
| "status_value Initialized = 14"
| "status_value VisiblyInitialized = 15"

definition all_statuses :: "ClassStatus list" where
  "all_statuses = [NotReady, Retired, ErrorResolved, ErrorUnresolved, Idx, Loaded, Resolving, Resolved,
     Verifying, RetryVerificationAtRuntime, VerifiedNeedsAccessChecks, Verified,
     SuperclassValidated, Initializing, Initialized, VisiblyInitialized]"

text \<open>The cast of the four-bit field back to the enumeration; four bits give all sixteen values.\<close>

definition status_of_value :: "nat \<Rightarrow> ClassStatus" where
  "status_of_value n = all_statuses ! (n mod 16)"

lemma status_of_value_inverse [simp]: "status_of_value (status_value s) = s"
  by (cases s) (simp_all add: status_of_value_def all_statuses_def)

instantiation ClassStatus :: linorder
begin

definition less_eq_ClassStatus :: "ClassStatus \<Rightarrow> ClassStatus \<Rightarrow> bool" where
  "s \<le> t \<longleftrightarrow> status_value s \<le> status_value t"

definition less_ClassStatus :: "ClassStatus \<Rightarrow> ClassStatus \<Rightarrow> bool" where
  "s < t \<longleftrightarrow> status_value s < status_value t"

instance
proof
  fix s t u :: ClassStatus
  show "(s < t) = (s \<le> t \<and> \<not> t \<le> s)" and "s \<le> s" and "s \<le> t \<or> t \<le> s"
    by (auto simp: less_eq_ClassStatus_def less_ClassStatus_def)
  show "s \<le> u" if "s \<le> t" and "t \<le> u"
    using that by (simp add: less_eq_ClassStatus_def)
  show "s = t" if "s \<le> t" and "t \<le> s"
    using that unfolding less_eq_ClassStatus_def
    by (metis order.antisym status_of_value_inverse)
qed

end

lemmas status_order = less_eq_ClassStatus_def less_ClassStatus_def

lemma status_value_less: "status_value s < 16"
  by (cases s) simp_all

section \<open>Predicates\<close>

definition IsErroneous :: "ClassStatus \<Rightarrow> bool" where
  "IsErroneous status \<longleftrightarrow> status = ErrorUnresolved \<or> status = ErrorResolved"

definition IsResolved :: "ClassStatus \<Rightarrow> bool" where
  "IsResolved status \<longleftrightarrow> status \<ge> Resolved \<or> status = ErrorResolved"

definition IsVerified :: "ClassStatus \<Rightarrow> bool" where
  "IsVerified status \<longleftrightarrow> status \<ge> Verified"

definition IsInitialized :: "ClassStatus \<Rightarrow> bool" where
  "IsInitialized status \<longleftrightarrow> status \<ge> Initialized"

definition IsVisiblyInitialized :: "ClassStatus \<Rightarrow> bool" where
  "IsVisiblyInitialized status \<longleftrightarrow> status = VisiblyInitialized"

text \<open>\<open>GetStatus\<close> reads the four most significant bits of the status word.\<close>

definition GetStatus :: "u32 \<Rightarrow> ClassStatus" where
  "GetStatus field_value = status_of_value (unat (drop_bit (32 - 4) field_value))"

section \<open>Setting the status\<close>

text \<open>
  The class as far as \<open>SetStatus\<close> reads and writes it.  \<open>embedded_vtable\<close> is
  \<open>ShouldHaveEmbeddedVTable\<close>, \<open>variable_size\<close> and \<open>finalizable\<close> the predicates of the same name;
  \<open>notified\<close> counts the calls of \<open>NotifyAll\<close> and \<open>error_state\<close> the installed error.
\<close>

record status_class =
  class_status_word :: u32
  object_size :: u32
  alloc_fast_path :: u32
  embedded_vtable :: bool
  variable_size :: bool
  finalizable :: bool
  error_state :: "nat option"
  notified :: nat

text \<open>
  What the checks ask of the calling thread: whether it holds the mutator lock exclusively, its id,
  the owner of the class's monitor, whether it has a pending exception (by identity), and whether
  the class extension could be allocated.
\<close>

record status_env =
  mutator_exclusive :: bool
  self_id :: nat
  lock_owner :: nat
  pending_exception :: nat
  ext_allocated :: bool
  linker_initialized :: bool

definition IsTemp :: "status_class \<Rightarrow> bool" where
  "IsTemp c \<longleftrightarrow> GetStatus (class_status_word c) < Resolving \<and>
     GetStatus (class_status_word c) \<noteq> ErrorResolved \<and> embedded_vtable c"

text \<open>\<open>CheckSetStatus\<close>: false stands for the abort of a failed CHECK or a FATAL log.\<close>

definition CheckSetStatus :: "status_env \<Rightarrow> ClassStatus \<Rightarrow> ClassStatus \<Rightarrow> bool" where
  "CheckSetStatus env new_status old_status \<longleftrightarrow>
     \<not> (new_status \<le> old_status \<and> new_status \<noteq> ErrorUnresolved \<and> new_status \<noteq> ErrorResolved \<and>
        new_status \<noteq> Retired) \<and>
     (if old_status = Initialized then new_status = VisiblyInitialized
      else if (new_status \<ge> Resolved \<or> old_status \<ge> Resolved) \<and> \<not> mutator_exclusive env
      then lock_owner env = self_id env
      else True) \<and>
     (mutator_exclusive env \<longrightarrow> \<not> IsErroneous new_status \<and> IsResolved old_status)"

definition SetStatusInternal :: "status_class \<Rightarrow> ClassStatus \<Rightarrow> status_class" where
  "SetStatusInternal c new_status =
     c\<lparr>class_status_word := push_bit (32 - 4) (word_of_nat (status_value new_status))\<rparr>"

definition SetStatusLocked :: "status_env \<Rightarrow> status_class \<Rightarrow> ClassStatus \<Rightarrow> status_class option" where
  "SetStatusLocked env c new_status =
     (let old_status = GetStatus (class_status_word c)
      in if CheckSetStatus env new_status old_status then Some (SetStatusInternal c new_status)
         else None)"

definition kObjectAlignment :: u32 where
  "kObjectAlignment = 8"

text \<open>\<open>SetStatus\<close> in its three parts: the checks, the writes, and the wake-up of waiting threads.\<close>

definition SetStatus_check :: "status_env \<Rightarrow> ClassStatus \<Rightarrow> ClassStatus \<Rightarrow> bool" where
  "SetStatus_check env new_status old_status \<longleftrightarrow>
     (linker_initialized env \<longrightarrow> CheckSetStatus env new_status old_status) \<and>
     (IsErroneous new_status \<longrightarrow>
        \<not> IsErroneous old_status \<and> (new_status = ErrorResolved \<longleftrightarrow> old_status \<ge> Resolved))"

definition SetStatus_write :: "status_env \<Rightarrow> status_class \<Rightarrow> ClassStatus \<Rightarrow> status_class" where
  "SetStatus_write env c new_status =
     (let c1 = (if IsErroneous new_status \<and> ext_allocated env
                then c\<lparr>error_state := Some (pending_exception env)\<rparr> else c);
          c2 = SetStatusInternal c1 new_status
      in if new_status = VisiblyInitialized \<and> \<not> variable_size c2 \<and> \<not> finalizable c2
         then c2\<lparr>alloc_fast_path := RoundUp (object_size c2) kObjectAlignment\<rparr>
         else c2)"

definition SetStatus_notify ::
  "status_env \<Rightarrow> ClassStatus \<Rightarrow> ClassStatus \<Rightarrow> status_class \<Rightarrow> status_class option" where
  "SetStatus_notify env old_status new_status c =
     (if \<not> linker_initialized env then Some c
      else if IsTemp c
      then if \<not> new_status < Resolved then None
           else if new_status = Retired \<or> new_status = ErrorUnresolved
           then Some (c\<lparr>notified := notified c + 1\<rparr>) else Some c
      else if old_status = Initialized then Some c
      else if new_status = Retired then None
      else if old_status \<ge> Resolved \<or> new_status \<ge> Resolved
      then Some (c\<lparr>notified := notified c + 1\<rparr>) else Some c)"

definition SetStatus :: "status_env \<Rightarrow> status_class \<Rightarrow> ClassStatus \<Rightarrow> status_class option" where
  "SetStatus env c new_status =
     (let old_status = GetStatus (class_status_word c)
      in if SetStatus_check env new_status old_status
         then SetStatus_notify env old_status new_status (SetStatus_write env c new_status)
         else None)"

lemma GetStatus_SetStatusInternal [simp]:
  "GetStatus (class_status_word (SetStatusInternal c s)) = s"
proof -
  have "drop_bit 28 (push_bit 28 (word_of_nat (status_value s) :: u32)) = word_of_nat (status_value s)"
    by (cases s) simp_all
  moreover have "unat (word_of_nat (status_value s) :: u32) = status_value s"
    by (cases s) simp_all
  ultimately show ?thesis by (simp add: GetStatus_def SetStatusInternal_def)
qed

lemma SetStatus_write_status [simp]:
  "GetStatus (class_status_word (SetStatus_write env c s)) = s"
  by (simp add: SetStatus_write_def Let_def)

lemma SetStatus_notify_status:
  "SetStatus_notify env old s c = Some c' \<Longrightarrow> class_status_word c' = class_status_word c"
  by (auto simp: SetStatus_notify_def split: if_splits)

lemma SetStatus_facts:
  assumes "SetStatus env c s = Some c'"
  shows SetStatus_status: "GetStatus (class_status_word c') = s"
    and SetStatus_checked: "SetStatus_check env s (GetStatus (class_status_word c))"
    and SetStatus_notified:
      "SetStatus_notify env (GetStatus (class_status_word c)) s (SetStatus_write env c s) = Some c'"
  using assms SetStatus_notify_status [of env _ s "SetStatus_write env c s" c']
  by (auto simp: SetStatus_def Let_def split: if_splits)

section \<open>Runs\<close>

inductive status_run :: "status_class \<Rightarrow> (status_env \<times> ClassStatus) list \<Rightarrow> status_class \<Rightarrow> bool" where
  run_start: "status_run c [] c"
| run_step: "SetStatus env c s = Some c' \<Longrightarrow> status_run c' hist c'' \<Longrightarrow> status_run c ((env, s) # hist) c''"

inductive_simps status_run_simps: "status_run c [] c'" "status_run c ((env, s) # hist) c'"

abbreviation status_of :: "status_class \<Rightarrow> ClassStatus" where
  "status_of c \<equiv> GetStatus (class_status_word c)"

lemma SetStatus_increases:
  assumes "SetStatus env c s = Some c'" "linker_initialized env" "\<not> IsErroneous s" "s \<noteq> Retired"
  shows "status_of c < s"
  using SetStatus_checked [OF assms(1)] assms(2-4)
  by (auto simp: SetStatus_check_def CheckSetStatus_def IsErroneous_def)

lemma SetStatus_alloc_fast_path:
  assumes "SetStatus env c s = Some c'" "alloc_fast_path c' \<noteq> alloc_fast_path c"
  shows "s = VisiblyInitialized"
proof -
  have "alloc_fast_path c' = alloc_fast_path (SetStatus_write env c s)"
    using SetStatus_notified [OF assms(1)] by (auto simp: SetStatus_notify_def split: if_splits)
  with assms(2) show ?thesis
    by (auto simp: SetStatus_write_def SetStatusInternal_def Let_def split: if_splits)
qed

text \<open>An initialized class about to become visibly initialized.\<close>

definition example_class :: status_class where
  "example_class = \<lparr>class_status_word = push_bit 28 14, object_size = 12, alloc_fast_path = 4294967295,
     embedded_vtable = False, variable_size = False, finalizable = False, error_state = None, notified = 0\<rparr>"

definition example_env :: status_env where
  "example_env = \<lparr>mutator_exclusive = False, self_id = 1, lock_owner = 1, pending_exception = 0,
     ext_allocated = True, linker_initialized = True\<rparr>"

lemma example_step: "status_run example_class [(example_env, VisiblyInitialized)]
    (example_class\<lparr>class_status_word := push_bit 28 15, alloc_fast_path := 16\<rparr>)"
proof -
  have "SetStatus example_env example_class VisiblyInitialized =
      Some (example_class\<lparr>class_status_word := push_bit 28 15, alloc_fast_path := 16\<rparr>)" by code_simp
  then show ?thesis by (simp add: status_run_simps)
qed

section \<open>Properties\<close>





end
