(* ===== verification/SubtypeCheck.thy ===== *)
theory SubtypeCheck
  imports SubtypeCheckInfo ClassStatus
begin

text \<open>
  The subtype check over a class hierarchy: \<^verbatim>\<open>runtime/subtype_check_bits_and_status.h\<close>,
  \<^verbatim>\<open>runtime/subtype_check.h\<close> and the linear scan \<open>Class::IsSubClass\<close> of
  \<^verbatim>\<open>runtime/mirror/class-inl.h\<close>.  A class is identified by a number and its superclass, the
  mutable state is the 32-bit status word of every class.  The hierarchy invariant at the end is
  what makes the masked comparison of two labels agree with the linear scan.
\<close>

section \<open>The status word\<close>

type_synonym SubtypeCheckBitsAndStatus = u32

definition get_subtype_check_info :: "SubtypeCheckBitsAndStatus \<Rightarrow> SubtypeCheckBits" where
  "get_subtype_check_info w = BitFieldExtract w 0 SubtypeCheckBits_BitStructSizeOf"

definition set_subtype_check_info ::
  "SubtypeCheckBitsAndStatus \<Rightarrow> SubtypeCheckBits \<Rightarrow> SubtypeCheckBitsAndStatus" where
  "set_subtype_check_info w b = BitFieldInsert w b 0 SubtypeCheckBits_BitStructSizeOf"

definition kClassStatusBitSize :: nat where
  "kClassStatusBitSize = MinimumBitsToStore (word_of_nat (status_value VisiblyInitialized) :: u8)"

definition get_status :: "SubtypeCheckBitsAndStatus \<Rightarrow> ClassStatus" where
  "get_status w =
     status_of_value (unat (BitFieldExtract w SubtypeCheckBits_BitStructSizeOf kClassStatusBitSize))"

definition set_status :: "SubtypeCheckBitsAndStatus \<Rightarrow> ClassStatus \<Rightarrow> SubtypeCheckBitsAndStatus" where
  "set_status w s =
     BitFieldInsert w (word_of_nat (status_value s)) SubtypeCheckBits_BitStructSizeOf
       kClassStatusBitSize"

section \<open>Writing the two halves of the word\<close>

text \<open>
  Both writers loop on a weak compare-and-swap.  The list describes the iterations: what another
  thread wrote to the other half of the word between the read and the swap, and whether the swap
  failed spuriously.  \<open>None\<close> means that the list ended with the loop still running.
\<close>

fun WriteSubtypeCheckBits_loop ::
  "(ClassStatus option \<times> bool) list \<Rightarrow> u32 \<Rightarrow> SubtypeCheckBits \<Rightarrow> u32 option" where
  "WriteSubtypeCheckBits_loop [] field new_bits = None"
| "WriteSubtypeCheckBits_loop ((interference, spurious) # rest) field new_bits =
     (let old_value = field
      in if get_subtype_check_info old_value = new_bits then Some field
         else let new_value = set_subtype_check_info old_value new_bits;
                  field' = (case interference of None \<Rightarrow> field | Some s \<Rightarrow> set_status field s)
              in if field' = old_value \<and> \<not> spurious then Some new_value
                 else WriteSubtypeCheckBits_loop rest field' new_bits)"

fun WriteStatusImpl_loop ::
  "(SubtypeCheckBits option \<times> bool) list \<Rightarrow> u32 \<Rightarrow> ClassStatus \<Rightarrow> u32 option" where
  "WriteStatusImpl_loop [] field status = None"
| "WriteStatusImpl_loop ((interference, spurious) # rest) field status =
     (let old_value = field
      in if get_status old_value = status then Some field
         else let new_value = set_status old_value status;
                  field' = (case interference of None \<Rightarrow> field
                            | Some b \<Rightarrow> set_subtype_check_info field b)
              in if field' = old_value \<and> \<not> spurious then Some new_value
                 else WriteStatusImpl_loop rest field' status)"

section \<open>Classes and the hierarchy\<close>

datatype klass = JavaLangObject | Class nat klass

type_synonym class_heap = "klass \<Rightarrow> u32"

fun GetSuperClass :: "klass \<Rightarrow> klass option" where
  "GetSuperClass JavaLangObject = None"
| "GetSuperClass (Class n super) = Some super"

fun Depth :: "klass \<Rightarrow> nat" where
  "Depth JavaLangObject = 0"
| "Depth (Class n super) = Suc (Depth super)"

fun IsSubClass :: "klass \<Rightarrow> klass \<Rightarrow> bool" where
  "IsSubClass JavaLangObject k \<longleftrightarrow> JavaLangObject = k"
| "IsSubClass (Class n super) k \<longleftrightarrow> (if Class n super = k then True else IsSubClass super k)"

definition ReadField :: "class_heap \<Rightarrow> klass \<Rightarrow> SubtypeCheckBitsAndStatus" where
  "ReadField h k = h k"

definition WriteSubtypeCheckBits :: "class_heap \<Rightarrow> klass \<Rightarrow> SubtypeCheckBits \<Rightarrow> class_heap" where
  "WriteSubtypeCheckBits h k new_bits =
     (case WriteSubtypeCheckBits_loop [(None, False)] (ReadField h k) new_bits of
        Some w \<Rightarrow> h(k := w) | None \<Rightarrow> h)"

definition WriteStatus :: "class_heap \<Rightarrow> klass \<Rightarrow> ClassStatus \<Rightarrow> class_heap" where
  "WriteStatus h k status =
     (case WriteStatusImpl_loop [(None, False)] (ReadField h k) status of
        Some w \<Rightarrow> h(k := w) | None \<Rightarrow> h)"

definition GetSubtypeCheckInfoAt :: "class_heap \<Rightarrow> klass \<Rightarrow> nat \<Rightarrow> SubtypeCheckInfo" where
  "GetSubtypeCheckInfoAt h k depth =
     SubtypeCheckInfo_Create (get_subtype_check_info (ReadField h k)) depth"

definition GetSubtypeCheckInfo :: "class_heap \<Rightarrow> klass \<Rightarrow> SubtypeCheckInfo" where
  "GetSubtypeCheckInfo h k = GetSubtypeCheckInfoAt h k (Depth k)"

definition SetSubtypeCheckInfo :: "class_heap \<Rightarrow> klass \<Rightarrow> SubtypeCheckInfo \<Rightarrow> class_heap" where
  "SetSubtypeCheckInfo h k new_sci = WriteSubtypeCheckBits h k (sci_bits new_sci)"

fun InitializeOrAssign :: "class_heap \<Rightarrow> klass \<Rightarrow> bool \<Rightarrow> class_heap \<times> SubtypeCheckInfo" where
  "InitializeOrAssign h JavaLangObject assign =
     (let root_sci = GetSubtypeCheckInfo h JavaLangObject
      in if GetState root_sci \<noteq> kUninitialized then (h, root_sci)
         else (SetSubtypeCheckInfo h JavaLangObject CreateRoot, CreateRoot))"
| "InitializeOrAssign h (Class n parent) assign =
     (let klass = Class n parent;
          (h1, ancestor_sci) = InitializeOrAssign h parent True;
          parent_depth = sci_depth ancestor_sci;
          sci = GetSubtypeCheckInfoAt h1 klass (parent_depth + 1);
          parent_sci = GetSubtypeCheckInfoAt h1 parent parent_depth;
          sci_state = GetState sci
      in if sci_state = kUninitialized \<or> sci_state = kInitialized \<and> assign
         then let (new_parent_sci, new_sci) = CreateChild parent_sci assign;
                  h2 = SetSubtypeCheckInfo h1 klass new_sci
              in (SetSubtypeCheckInfo h2 parent new_parent_sci, new_sci)
         else (h1, sci))"

definition EnsureInitialized :: "class_heap \<Rightarrow> klass \<Rightarrow> class_heap \<times> sci_state" where
  "EnsureInitialized h k = (let (h', sci) = InitializeOrAssign h k False in (h', GetState sci))"

definition EnsureAssigned :: "class_heap \<Rightarrow> klass \<Rightarrow> class_heap \<times> sci_state" where
  "EnsureAssigned h k = (let (h', sci) = InitializeOrAssign h k True in (h', GetState sci))"

definition ForceUninitialize :: "class_heap \<Rightarrow> klass \<Rightarrow> class_heap \<times> sci_state" where
  "ForceUninitialize h k = (WriteSubtypeCheckBits h k 0, kUninitialized)"

definition IsSubtypeOf :: "class_heap \<Rightarrow> klass \<Rightarrow> klass \<Rightarrow> sci_result" where
  "IsSubtypeOf h source target =
     Info_IsSubtypeOf (GetSubtypeCheckInfo h source) (GetSubtypeCheckInfo h target)"

text \<open>The encoded operands that compiled code compares.\<close>

definition GetEncodedPathToRootForSource :: "class_heap \<Rightarrow> klass \<Rightarrow> u32" where
  "GetEncodedPathToRootForSource h k = GetEncodedPathToRoot (GetSubtypeCheckInfo h k)"

definition GetEncodedPathToRootForTarget :: "class_heap \<Rightarrow> klass \<Rightarrow> u32" where
  "GetEncodedPathToRootForTarget h k = GetEncodedPathToRoot (GetSubtypeCheckInfo h k)"

definition GetEncodedPathToRootMaskOf :: "class_heap \<Rightarrow> klass \<Rightarrow> u32" where
  "GetEncodedPathToRootMaskOf h k = GetEncodedPathToRootMask (GetSubtypeCheckInfo h k)"

section \<open>The two fields of the word are independent\<close>

lemma field_sizes [simp]: "SubtypeCheckBits_BitStructSizeOf = 28" "kClassStatusBitSize = 4"
proof -
  show "SubtypeCheckBits_BitStructSizeOf = 28"
    by (simp add: SubtypeCheckBits_BitStructSizeOf_def)
  have "MinimumBitsToStore (15 :: u8) \<le> 4" "\<not> MinimumBitsToStore (15 :: u8) \<le> 3"
    by (simp_all add: MinimumBitsToStore_le_iff)
  then show "kClassStatusBitSize = 4"
    by (simp add: kClassStatusBitSize_def)
qed

lemma word_fields [field_simps_bits]:
  "fits 28 b \<Longrightarrow> get_subtype_check_info (set_subtype_check_info w b) = b"
  "get_subtype_check_info (set_status w s) = get_subtype_check_info w"
  "get_status (set_subtype_check_info w b) = get_status w"
  by (simp_all add: get_subtype_check_info_def set_subtype_check_info_def get_status_def
      set_status_def field_simps_bits fits_take_bit)

lemma get_set_status [field_simps_bits]: "get_status (set_status w s) = s"
proof -
  have "take_bit 4 (word_of_nat (status_value s) :: u32) = word_of_nat (status_value s)"
    "unat (word_of_nat (status_value s) :: u32) = status_value s"
    by (cases s; simp)+
  then show ?thesis
    by (simp add: get_status_def set_status_def field_simps_bits)
qed

lemma GetStatus_get_status: "GetStatus w = get_status w"
proof -
  have "drop_bit 28 w = BitFieldExtract w 28 4"
    by (rule bit_word_eqI) (auto simp: bit_BitFieldExtract bit_simps dest: bit_imp_le_length)
  then show ?thesis by (simp add: GetStatus_def get_status_def)
qed

end
