(* ===== verification/SubtypeHierarchy.thy ===== *)
theory SubtypeHierarchy
  imports SubtypeCheck
begin

text \<open>
  The invariant of the labels of a class hierarchy (the "Tree Invariants" of
  \<^verbatim>\<open>runtime/subtype_check_info.h\<close>), its preservation by every operation of \<open>SubtypeCheck\<close>, and
  the agreement of the masked comparison with the linear scan over superclasses.
\<close>

section \<open>Labels of a heap\<close>

definition live :: "SubtypeCheckInfo \<Rightarrow> bool" where
  "live i \<longleftrightarrow> GetState i \<noteq> kUninitialized"

definition ready :: "SubtypeCheckInfo \<Rightarrow> bool" where
  "ready i \<longleftrightarrow> GetState i = kAssigned \<or> GetState i = kOverflowed"

definition child_inv :: "SubtypeCheckInfo \<Rightarrow> SubtypeCheckInfo \<Rightarrow> bool" where
  "child_inv P C \<longleftrightarrow>
     ready P \<and>
     (overflowed P \<longrightarrow> overflowed C) \<and>
     (\<forall>j < 3. j < sci_depth P \<longrightarrow> path_char C j = path_char P j) \<and>
     (overflowed C \<and> sci_depth P < 3 \<longrightarrow> path_char C (sci_depth P) = 0) \<and>
     (GetState C = kAssigned \<longrightarrow> path_char C (sci_depth P) < path_char P (sci_depth P))"

definition label_inv :: "SubtypeCheckInfo \<Rightarrow> bool" where
  "label_inv i \<longleftrightarrow>
     (live i \<and> \<not> overflowed i \<and> sci_depth i < 3 \<longrightarrow> path_char i (sci_depth i) \<noteq> 0) \<and>
     (\<forall>j < 3. sci_depth i < j \<longrightarrow> path_char i j = 0) \<and>
     (\<not> live i \<longrightarrow> \<not> overflowed i)"

definition hierarchy_inv :: "(klass \<Rightarrow> SubtypeCheckInfo) \<Rightarrow> bool" where
  "hierarchy_inv I \<longleftrightarrow>
     (\<forall>k. sci_depth (I k) = Depth k) \<and>
     (\<forall>k. label_inv (I k)) \<and>
     \<not> overflowed (I JavaLangObject) \<and>
     (\<forall>n p. live (I (Class n p)) \<longrightarrow> child_inv (I p) (I (Class n p))) \<and>
     (\<forall>n m p. GetState (I (Class n p)) = kAssigned \<and> GetState (I (Class m p)) = kAssigned \<and> n \<noteq> m \<longrightarrow>
        path_char (I (Class n p)) (Depth p) \<noteq> path_char (I (Class m p)) (Depth p))"

lemma state_iffs:
  "GetState i = kOverflowed \<longleftrightarrow> overflowed i"
  "live i \<longleftrightarrow> overflowed i \<or> (\<exists>j < 3. path_char i j \<noteq> 0)"
  "GetState i = kAssigned \<longleftrightarrow> \<not> overflowed i \<and> live i \<and>
     (sci_depth i = 0 \<or> sci_depth i \<le> 3 \<and> path_char i (sci_depth i - 1) \<noteq> 0)"
  by (auto simp: live_def GetState_chars)

lemma ready_iff: "ready i \<longleftrightarrow>
   overflowed i \<or> live i \<and> (sci_depth i = 0 \<or> sci_depth i \<le> 3 \<and> path_char i (sci_depth i - 1) \<noteq> 0)"
  by (auto simp: ready_def state_iffs)

section \<open>One new label\<close>

lemma CreateChild_cases:
  assumes "CreateChild P a = (P', C)"
  obtains (init) "\<not> a" "P' = P" "overflowed C = overflowed P"
      "\<And>j. j < 3 \<Longrightarrow> path_char C j =
         (if j = sci_depth P then 0 else if j = sci_depth P + 1 then 1 else path_char P j)"
      "sci_depth C = sci_depth P + 1"
  | (full) "a" "P' = P" "overflowed C"
      "\<And>j. j < 3 \<Longrightarrow> path_char C j =
         (if j = sci_depth P then 0 else if j = sci_depth P + 1 then 1 else path_char P j)"
      "sci_depth C = sci_depth P + 1"
  | (assigned) "a" "sci_depth P < 3" "\<not> overflowed P" "\<not> overflowed C" "\<not> overflowed P'"
      "sci_depth P' = sci_depth P" "sci_depth C = sci_depth P + 1"
      "\<And>j. j < 3 \<Longrightarrow> path_char C j = (if j = sci_depth P + 1 then 1 else path_char P j)"
      "\<And>j. j < 3 \<Longrightarrow> j \<noteq> sci_depth P \<Longrightarrow> path_char P' j = path_char P j"
      "path_char P (sci_depth P) < path_char P' (sci_depth P)"
proof (cases a)
  case False
  then show ?thesis using assms CreateChild_init [of P P' C] init by auto
next
  case True
  note [simp] = True
  show ?thesis
  proof (cases "sci_depth P < 3 \<and> \<not> overflowed P \<and> path_char P (sci_depth P) \<noteq> max_char (sci_depth P)")
    case False
    then show ?thesis using assms CreateChild_assign_full [of P P' C] full by auto
  next
    case room: True
    from assms have cc: "CreateChild P True = (P', C)" by simp
    note f = CreateChild_assign_ok [OF cc]
    have "path_char P' (sci_depth P) = path_char P (sci_depth P) + 1"
      using f(6) room by simp
    then have "path_char P (sci_depth P) < path_char P' (sci_depth P)"
      using next_char_fits(1) [of "sci_depth P" P] room by (simp add: word_less_nat_alt)
    then show ?thesis using f room by (intro assigned) auto
  qed
qed

lemma CreateChild_parent:
  assumes "CreateChild P a = (P', C)"
  shows "sci_depth P' = sci_depth P" "overflowed P' = overflowed P"
    "j < 3 \<Longrightarrow> j \<noteq> sci_depth P \<Longrightarrow> path_char P' j = path_char P j"
    "path_char P (sci_depth P) \<le> path_char P' (sci_depth P)"
  using assms by (cases rule: CreateChild_cases; auto)+

lemma CreateChild_child:
  assumes "CreateChild P a = (P', C)"
  shows "sci_depth C = sci_depth P + 1" "overflowed P \<Longrightarrow> overflowed C"
    "j < 3 \<Longrightarrow> j < sci_depth P \<Longrightarrow> path_char C j = path_char P j"
    "sci_depth P + 1 < 3 \<Longrightarrow> path_char C (sci_depth P + 1) = 1"
    "j < 3 \<Longrightarrow> sci_depth P + 1 < j \<Longrightarrow> path_char C j = path_char P j"
    "sci_depth P < 3 \<Longrightarrow> overflowed C \<Longrightarrow> path_char C (sci_depth P) = 0"
    "a \<Longrightarrow> overflowed C \<or> sci_depth P < 3 \<and> path_char C (sci_depth P) = path_char P (sci_depth P)"
    "sci_depth P < 3 \<Longrightarrow> path_char C (sci_depth P) \<noteq> 0 \<Longrightarrow>
       a \<and> path_char C (sci_depth P) = path_char P (sci_depth P) \<and>
       path_char P (sci_depth P) < path_char P' (sci_depth P)"
  using assms by (cases rule: CreateChild_cases; auto)+

lemma CreateChild_live:
  assumes cc: "CreateChild P a = (P', C)" and P: "ready P"
  shows "live C"
proof (cases "overflowed C \<or> sci_depth P + 1 < 3")
  case True
  then show ?thesis using CreateChild_child(4) [OF cc] by (auto simp: state_iffs(2))
next
  case False
  with CreateChild_child(2) [OF cc] P
  have "sci_depth P \<le> 3" "path_char P (sci_depth P - 1) \<noteq> 0"
    by (auto simp: ready_iff)
  with False CreateChild_child(3) [OF cc, of "sci_depth P - 1"] show ?thesis
    by (auto simp: state_iffs(2) intro!: exI [of _ "sci_depth P - 1"])
qed

lemma parent_state_kept:
  assumes cc: "CreateChild P a = (P', C)" and P: "ready P" "label_inv P"
  shows "ready P'" "label_inv P'"
proof -
  note p = CreateChild_parent [OF cc]
  have next_pos: "path_char P' (sci_depth P) \<noteq> 0"
    if "\<not> overflowed P" "live P" "sci_depth P < 3"
    using that P(2) p(4) by (auto simp: label_inv_def word_le_0_iff)
  have "live P'"
  proof (cases "overflowed P \<or> sci_depth P < 3")
    case True
    with P next_pos show ?thesis by (auto simp: state_iffs(2) p(2) ready_iff)
  next
    case False
    with P obtain j where "j < 3" "path_char P j \<noteq> 0" by (auto simp: ready_iff state_iffs(2))
    with False p(3) [of j] show ?thesis by (auto simp: state_iffs(2))
  qed
  have "path_char P' (sci_depth P - 1) = path_char P (sci_depth P - 1)"
    if "0 < sci_depth P" "sci_depth P \<le> 3"
    using that p(3) [of "sci_depth P - 1"] by simp
  with P p(1,2) \<open>live P'\<close> show "ready P'"
    by (auto simp: ready_iff)
  show "label_inv P'"
    using P \<open>live P'\<close> next_pos p(1,2,3)
    by (auto simp: label_inv_def ready_iff state_iffs(2))
qed

lemma child_label_inv:
  assumes cc: "CreateChild P a = (P', C)" and P: "ready P" "label_inv P"
  shows "label_inv C" "child_inv P' C" "a \<Longrightarrow> ready C"
proof -
  note c = CreateChild_child [OF cc] and p = CreateChild_parent [OF cc]
  show "label_inv C"
    using CreateChild_live [OF cc P(1)] P(2) c(1,4,5) by (auto simp: label_inv_def)
  have "path_char C (sci_depth P) < path_char P' (sci_depth P)" if "GetState C = kAssigned"
    using that c(1) c(8) by (auto simp: state_iffs(3))
  then show "child_inv P' C"
    using parent_state_kept(1) [OF cc P] c(2,3,6) p(1,2) p(3)
    by (auto simp: child_inv_def)
  show "ready C" if a
    using c(7) [OF that] c(1) P CreateChild_live [OF cc P(1)]
    by (auto simp: ready_iff label_inv_def dest: c(2))
qed

section \<open>The hierarchy\<close>

lemma hierarchy_invD:
  assumes "hierarchy_inv I"
  shows "sci_depth (I k) = Depth k" "label_inv (I k)" "\<not> overflowed (I JavaLangObject)"
    "live (I (Class n p)) \<Longrightarrow> child_inv (I p) (I (Class n p))"
    "GetState (I (Class n p)) = kAssigned \<Longrightarrow> GetState (I (Class m p)) = kAssigned \<Longrightarrow> n \<noteq> m \<Longrightarrow>
       path_char (I (Class n p)) (Depth p) \<noteq> path_char (I (Class m p)) (Depth p)"
  using assms by (auto simp: hierarchy_inv_def)

lemma neq_by_Depth: "Depth x \<noteq> Depth y \<Longrightarrow> x \<noteq> y"
  by auto

lemma klass_not_own_super [simp]: "p \<noteq> Class n p" "Class n p \<noteq> p" "Class m (Class n p) \<noteq> p"
  by (rule neq_by_Depth, simp)+

lemma child_inv_cong:
  assumes "child_inv P C" and "ready P'" "overflowed P' = overflowed P" "sci_depth P' = sci_depth P"
    "\<And>j. j < 3 \<Longrightarrow> j < sci_depth P \<Longrightarrow> path_char P' j = path_char P j"
    "path_char P (sci_depth P) \<le> path_char P' (sci_depth P)"
  shows "child_inv P' C"
  using assms by (auto simp: child_inv_def)

lemma child_inv_changed_child:
  assumes "child_inv P C" and "overflowed C' = overflowed C" "sci_depth C' = sci_depth C"
    "sci_depth C = sci_depth P + 1" "ready C" "ready C'"
    "\<And>j. j < 3 \<Longrightarrow> j \<le> sci_depth P \<Longrightarrow> path_char C' j = path_char C j"
  shows "child_inv P C'"
  using assms by (auto simp: child_inv_def ready_iff state_iffs(3))

lemma assigned_same:
  assumes "ready C" "ready C'" "overflowed C' = overflowed C"
  shows "GetState C' = kAssigned \<longleftrightarrow> GetState C = kAssigned"
  using assms by (auto simp: ready_iff state_iffs(3))

text \<open>The label of the parent changes in its next character only.\<close>

lemma parent_assigned_same:
  assumes "hierarchy_inv I" "ready (I p)" "CreateChild (I p) a = (P', C)"
  shows "GetState P' = kAssigned \<longleftrightarrow> GetState (I p) = kAssigned"
  using parent_state_kept(1) [OF assms(3,2)] hierarchy_invD(2) [OF assms(1)]
    CreateChild_parent(2) [OF assms(3)] assms(2) by (intro assigned_same) auto

lemma create_child_inv:
  assumes inv: "hierarchy_inv I" and P: "ready (I p)" and k: "\<not> ready (I (Class n p))"
    and cc: "CreateChild (I p) a = (P', C)"
    and I': "I' = I(Class n p := C, p := P')" and live: "live (I' (Class m q))"
  shows "child_inv (I' q) (I' (Class m q))"
proof -
  note d = hierarchy_invD [OF inv]
  note pa = CreateChild_parent [OF cc] and ps = parent_state_kept [OF cc P d(2)]
  consider "q = p" "m = n" | "q = p" "m \<noteq> n" | "q = Class n p" | "q \<noteq> p" "Class m q = p"
    | "q \<noteq> p" "q \<noteq> Class n p" "Class m q \<noteq> p" by blast
  then show ?thesis
  proof cases
    case 1
    then show ?thesis using child_label_inv(2) [OF cc P d(2)] I' by simp
  next
    case 2
    then have ne: "Class m p \<noteq> p" "Class m p \<noteq> Class n p" by simp_all
    with 2 live I' have "child_inv (I p) (I (Class m p))" using d(4) by simp
    from child_inv_cong [OF this ps(1) pa(2,1) pa(3) pa(4)] 2 ne I'
    show ?thesis by simp
  next
    case 3
    have "\<not> live (I (Class m (Class n p)))"
      using d(4) [of m "Class n p"] k by (auto simp: child_inv_def)
    then show ?thesis using 3 live I' by simp
  next
    case 4
    have "Depth (Class n p) \<noteq> Depth q" using 4(2) by auto
    then have "Class n p \<noteq> q" by (rule neq_by_Depth)
    have "child_inv (I q) (I p)" using d(4) [of m q] P 4 by (auto simp: ready_def live_def)
    moreover have "sci_depth (I p) = sci_depth (I q) + 1" using d(1) 4 by auto
    ultimately have "child_inv (I q) P'"
      using child_inv_changed_child [of "I q" "I p" P'] P ps(1) pa(1,2,3) by simp
    then show ?thesis using 4 \<open>Class n p \<noteq> q\<close> I' by auto
  next
    case 5
    then show ?thesis using live d(4) [of m q] I' by auto
  qed
qed

lemma create_siblings:
  assumes inv: "hierarchy_inv I" and P: "ready (I p)"
    and cc: "CreateChild (I p) a = (P', C)"
    and I': "I' = I(Class n p := C, p := P')"
    and as: "GetState (I' (Class l q)) = kAssigned" "GetState (I' (Class m q)) = kAssigned" "l \<noteq> m"
  shows "path_char (I' (Class l q)) (Depth q) \<noteq> path_char (I' (Class m q)) (Depth q)"
proof -
  note d = hierarchy_invD [OF inv]
  have new: "path_char C (Depth p) = path_char (I p) (Depth p)" if "GetState C = kAssigned"
    using that CreateChild_child(1,8) [OF cc] d(1) [of p] by (auto simp: state_iffs(3))
  have old: "path_char (I (Class i p)) (Depth p) < path_char (I p) (Depth p)"
    if "GetState (I (Class i p)) = kAssigned" for i
    using that d(4) [of i p] d(1) [of p] by (auto simp: child_inv_def live_def)
  have upd: "I' (Class i q) = (if q = p \<and> i = n then C else if Class i q = p then P' else I (Class i q))"
    for i using I' by auto
  show ?thesis
  proof (cases "q = p")
    case True
    with as upd [of l] upd [of m] d(5) [of l p m] old [of l] old [of m] new show ?thesis
      by (cases "l = n"; cases "m = n") auto
  next
    case False
    have kept: "GetState (I' (Class i q)) = kAssigned \<longleftrightarrow> GetState (I (Class i q)) = kAssigned"
      "Depth q < 3 \<Longrightarrow> path_char (I' (Class i q)) (Depth q) = path_char (I (Class i q)) (Depth q)" for i
      using upd [of i] False parent_assigned_same [OF inv P cc] CreateChild_parent(3) [OF cc, of "Depth q"]
        d(1) [of p] by auto
    have "Depth q < 3" using as(1) kept(1) [of l] d(1) [of "Class l q"] by (auto simp: state_iffs(3))
    with as kept d(5) [of l q m] show ?thesis by simp
  qed
qed

lemma hierarchy_inv_create [inv_intros]:
  assumes inv: "hierarchy_inv I" and P: "ready (I p)" and k: "\<not> ready (I (Class n p))"
    and cc: "CreateChild (I p) a = (P', C)"
  shows "hierarchy_inv (I(Class n p := C, p := P'))"
proof -
  note d = hierarchy_invD [OF inv]
  let ?I = "I(Class n p := C, p := P')"
  have "sci_depth (?I x) = Depth x" "label_inv (?I x)" "\<not> overflowed (?I JavaLangObject)" for x
    using d(1,2,3) child_label_inv(1) [OF cc P d(2)] parent_state_kept(2) [OF cc P d(2)]
      CreateChild_child(1) [OF cc] CreateChild_parent(1,2) [OF cc] by auto
  then show ?thesis
    unfolding hierarchy_inv_def
    using create_child_inv [OF inv P k cc refl] create_siblings [OF inv P cc refl] by blast
qed

lemma hierarchy_inv_root [inv_intros]:
  assumes inv: "hierarchy_inv I" and dead: "\<not> live (I JavaLangObject)"
  shows "hierarchy_inv (I(JavaLangObject := CreateRoot))"
proof -
  note d = hierarchy_invD [OF inv]
  have no_child: "\<not> live (I (Class m JavaLangObject))" for m
    using d(4) [of m JavaLangObject] dead by (auto simp: child_inv_def ready_iff d(3))
  have "label_inv CreateRoot"
    using CreateRoot_facts by (auto simp: label_inv_def state_iffs(2))
  then show ?thesis
    unfolding hierarchy_inv_def
    using d no_child CreateRoot_facts(1,2) by (auto simp: state_iffs(3))
qed

section \<open>From labels to the subclass relation\<close>

lemma IsSubClass_refl [simp]: "IsSubClass x x"
  by (cases x) auto

lemma IsSubClass_Depth: "IsSubClass x y \<Longrightarrow> Depth y \<le> Depth x"
  by (induction x) (auto split: if_splits)

lemma ancestor_at_depth: "d \<le> Depth x \<Longrightarrow> \<exists>y. IsSubClass x y \<and> Depth y = d"
proof (induction x)
  case (Class n p)
  show ?case
  proof (cases "d = Depth (Class n p)")
    case True
    then show ?thesis by (intro exI [of _ "Class n p"]) simp
  next
    case False
    with Class obtain y where "IsSubClass p y" "Depth y = d" by auto
    with False show ?thesis by (intro exI [of _ y]) auto
  qed
qed simp

lemma IsSubClass_super: "IsSubClass x (Class n p) \<Longrightarrow> IsSubClass x p"
  by (induction x) (auto split: if_splits)

lemma ancestors_live:
  assumes inv: "hierarchy_inv I"
  shows "live (I x) \<Longrightarrow> IsSubClass x y \<Longrightarrow> live (I y)"
proof (induction x)
  case (Class n p)
  then show ?case
    using hierarchy_invD(4) [OF inv, of n p] by (auto simp: child_inv_def ready_iff state_iffs(2) split: if_splits)
qed simp

lemma ancestors_path:
  assumes inv: "hierarchy_inv I"
  shows "live (I x) \<Longrightarrow> IsSubClass x y \<Longrightarrow> j < 3 \<Longrightarrow> j < Depth y \<Longrightarrow> path_char (I x) j = path_char (I y) j"
proof (induction x)
  case (Class n p)
  show ?case
  proof (cases "Class n p = y")
    case False
    with Class.prems have sub: "IsSubClass p y" by simp
    have "live (I p)" using ancestors_live [OF inv Class.prems(1), of p] by simp
    moreover have "path_char (I (Class n p)) j = path_char (I p) j"
      using hierarchy_invD(1,4) [OF inv] Class.prems IsSubClass_Depth [OF sub]
      by (auto simp: child_inv_def)
    ultimately show ?thesis using Class.IH sub Class.prems by simp
  qed simp
qed simp

lemma assigned_super:
  assumes inv: "hierarchy_inv I" and "GetState (I (Class n p)) = kAssigned"
  shows "GetState (I p) = kAssigned"
  using assms(2) hierarchy_invD(4) [OF inv, of n p]
  by (auto simp: child_inv_def ready_def live_def state_iffs(1) state_iffs(3) [of "I (Class n p)"])

lemma assigned_path:
  assumes inv: "hierarchy_inv I"
  shows "GetState (I x) = kAssigned \<Longrightarrow> Depth x \<le> 3 \<and> (\<forall>j < Depth x. path_char (I x) j \<noteq> 0)"
proof (induction x)
  case (Class n p)
  have "Depth (Class n p) \<le> 3" "path_char (I (Class n p)) (Depth p) \<noteq> 0" "live (I (Class n p))"
    using Class.prems hierarchy_invD(1) [OF inv, of "Class n p"] by (auto simp: state_iffs(3))
  moreover have "path_char (I (Class n p)) j \<noteq> 0" if "j < Depth p" for j
    using Class.IH [OF assigned_super [OF inv Class.prems]] that \<open>live (I (Class n p))\<close>
      ancestors_path [OF inv, of "Class n p" p j] by auto
  ultimately show ?case by (auto simp: less_Suc_eq)
qed simp

lemma assigned_unique:
  assumes inv: "hierarchy_inv I"
  shows "GetState (I x) = kAssigned \<Longrightarrow> GetState (I y) = kAssigned \<Longrightarrow> Depth x = Depth y \<Longrightarrow>
    (\<forall>j < Depth x. path_char (I x) j = path_char (I y) j) \<Longrightarrow> x = y"
proof (induction x arbitrary: y)
  case JavaLangObject
  then show ?case by (cases y) auto
next
  case (Class n p)
  then obtain m q where y: "y = Class m q" by (cases y) auto
  have lv: "live (I (Class n p))" "live (I (Class m q))"
    using Class.prems y by (auto simp: live_def)
  have dp: "Depth p = Depth q" "Depth p < 3"
    using Class.prems y assigned_path [OF inv Class.prems(1)] by auto
  have "path_char (I p) j = path_char (I q) j" if "j < Depth p" for j
    using that dp Class.prems(4) y ancestors_path [OF inv lv(1), of p j]
      ancestors_path [OF inv lv(2), of q j] by auto
  then have "p = q"
    using Class.IH [of q] dp y assigned_super [OF inv] Class.prems(1,2) by blast
  moreover have "n = m"
  proof (rule ccontr)
    assume "n \<noteq> m"
    with hierarchy_invD(5) [OF inv, of n p m] Class.prems y \<open>p = q\<close> show False by auto
  qed
  ultimately show ?case using y by simp
qed

lemma nonzero_char_assigned:
  assumes inv: "hierarchy_inv I" and "live (I y)" and "0 < Depth y" "Depth y \<le> 3"
    and "path_char (I y) (Depth y - 1) \<noteq> 0"
  shows "GetState (I y) = kAssigned"
proof (cases y)
  case (Class n p)
  then have "\<not> overflowed (I y)"
    using assms hierarchy_invD(1,4) [OF inv] by (auto simp: child_inv_def)
  with assms hierarchy_invD(1) [OF inv, of y] show ?thesis by (auto simp: state_iffs(3))
qed (use assms in simp)

lemma same_path_subclass:
  assumes inv: "hierarchy_inv I" and s: "live (I s)" and t: "GetState (I t) = kAssigned"
    and path: "\<And>j. j < Depth t \<Longrightarrow> (if j < Depth s then path_char (I s) j else 0) = path_char (I t) j"
  shows "IsSubClass s t"
proof -
  note tp = assigned_path [OF inv t]
  have le: "Depth t \<le> Depth s"
    using path [of "Depth s"] tp by (metis less_irrefl not_le)
  then obtain y where y: "IsSubClass s y" "Depth y = Depth t"
    using ancestor_at_depth by blast
  have ypath: "path_char (I y) j = path_char (I t) j" if "j < Depth t" for j
    using path [OF that] that le y tp ancestors_path [OF inv s y(1), of j] by auto
  have "GetState (I y) = kAssigned"
  proof (cases "Depth t = 0")
    case True
    then have "y = t" using y(2) by (cases y; cases t) auto
    with t show ?thesis by simp
  next
    case False
    then show ?thesis
      using nonzero_char_assigned [OF inv ancestors_live [OF inv s y(1)]] y(2) tp ypath by auto
  qed
  then have "y = t" using assigned_unique [OF inv _ t y(2)] ypath y(2) by auto
  with y(1) show ?thesis by simp
qed

lemma Info_IsSubtypeOf_correct:
  assumes inv: "hierarchy_inv I"
  shows "Info_IsSubtypeOf (I s) (I t) =
    (if GetState (I t) = kAssigned \<and> live (I s)
     then (if IsSubClass s t then kSubtypeOf else kNotSubtypeOf) else kUnknownSubtypeOf)"
proof (cases "GetState (I t) = kAssigned \<and> live (I s)")
  case True
  then have t: "GetState (I t) = kAssigned" and s: "live (I s)" by auto
  note dep = hierarchy_invD(1) [OF inv] and tp = assigned_path [OF inv t]
  have "(\<forall>j < 3. j < Depth t \<longrightarrow> (if j < Depth s then path_char (I s) j else 0) = path_char (I t) j)
    \<longleftrightarrow> IsSubClass s t" (is "?cmp \<longleftrightarrow> _")
  proof
    assume ?cmp
    with tp show "IsSubClass s t" by (intro same_path_subclass [OF inv s t]) auto
  next
    assume "IsSubClass s t"
    with ancestors_path [OF inv s this] IsSubClass_Depth [OF this] show ?cmp by auto
  qed
  then show ?thesis
    using True by (simp add: Info_IsSubtypeOf_chars dep live_def)
next
  case False
  then show ?thesis by (auto simp: Info_IsSubtypeOf_def live_def)
qed

end
