(* ===== verification/SubtypeCheckHeap.thy ===== *)
theory SubtypeCheckHeap
  imports SubtypeHierarchy
begin

text \<open>
  The operations of \<^verbatim>\<open>runtime/subtype_check.h\<close> on a heap of class status words: each keeps the
  hierarchy invariant and every class status, and the heaps a run can reach give the answers of
  the linear scan.
\<close>

section \<open>Labels stay inside their 28 bits\<close>

lemma fits_set_fields:
  "fits 28 b \<Longrightarrow> fits 28 (set_bitstring b s)"
  "fits 28 b \<Longrightarrow> fits 28 (set_overflow b v)"
  by (simp_all add: set_bitstring_def set_overflow_def fits_BitFieldInsert)

lemma fits_label_ops:
  "fits 28 (sci_bits i) \<Longrightarrow> fits 28 (sci_bits (SetNext i c))"
  "fits 28 (sci_bits i) \<Longrightarrow> fits 28 (sci_bits (MarkOverflowed i))"
  "fits 28 (sci_bits i) \<Longrightarrow> fits 28 (sci_bits (MaybeInitNext i))"
  "fits 28 (sci_bits i) \<Longrightarrow> fits 28 (sci_bits (OverwriteNextValueFromParent p i c))"
  by (simp_all add: SetNext_def MarkOverflowed_def MaybeInitNext_def OverwriteNextValueFromParent_def
      SetBitStringUnchecked_def Let_def fits_set_fields)

lemma fits_CreateRoot: "fits 28 (sci_bits CreateRoot)"
  by (simp add: CreateRoot_def Let_def fits_label_ops)

lemma fits_CreateChild:
  assumes "CreateChild P a = (P', C)" "fits 28 (sci_bits P)"
  shows "fits 28 (sci_bits P')" "fits 28 (sci_bits C)"
  using assms by (auto simp: CreateChild_def Let_def fits_label_ops split: if_splits)

section \<open>Reads and writes of labels\<close>

lemma info_parts [simp]:
  "sci_depth (GetSubtypeCheckInfo h k) = Depth k"
  "sci_bits (GetSubtypeCheckInfo h k) = get_subtype_check_info (h k)"
  "GetSubtypeCheckInfoAt h k (Depth k) = GetSubtypeCheckInfo h k"
  by (simp_all add: GetSubtypeCheckInfo_def GetSubtypeCheckInfoAt_def SubtypeCheckInfo_Create_def
      ReadField_def)

lemma fits_info [simp]: "fits 28 (get_subtype_check_info w)"
  by (simp add: get_subtype_check_info_def)

lemma WriteSubtypeCheckBits_word:
  "WriteSubtypeCheckBits h k b =
     h(k := if get_subtype_check_info (h k) = b then h k else set_subtype_check_info (h k) b)"
  by (auto simp: WriteSubtypeCheckBits_def ReadField_def Let_def)

lemma WriteStatus_word:
  "WriteStatus h k s = h(k := if get_status (h k) = s then h k else set_status (h k) s)"
  by (auto simp: WriteStatus_def ReadField_def Let_def)

lemma SetSubtypeCheckInfo_info:
  assumes "fits 28 (sci_bits c)" "sci_depth c = Depth k"
  shows "GetSubtypeCheckInfo (SetSubtypeCheckInfo h k c) = (GetSubtypeCheckInfo h)(k := c)"
proof
  fix x
  show "GetSubtypeCheckInfo (SetSubtypeCheckInfo h k c) x = ((GetSubtypeCheckInfo h)(k := c)) x"
    using assms
    by (simp add: SetSubtypeCheckInfo_def WriteSubtypeCheckBits_word field_simps_bits
        SubtypeCheckInfo.equality)
qed

lemma SetSubtypeCheckInfo_status [simp]:
  "get_status (SetSubtypeCheckInfo h k c x) = get_status (h x)"
  by (simp add: SetSubtypeCheckInfo_def WriteSubtypeCheckBits_word field_simps_bits)

lemma WriteStatus_info [simp]: "GetSubtypeCheckInfo (WriteStatus h k s) = GetSubtypeCheckInfo h"
  by (rule ext) (simp add: WriteStatus_word field_simps_bits SubtypeCheckInfo.equality)

section \<open>Initializing and assigning\<close>

definition InitializeOrAssign_ok ::
  "class_heap \<Rightarrow> klass \<Rightarrow> bool \<Rightarrow> class_heap \<Rightarrow> SubtypeCheckInfo \<Rightarrow> bool" where
  "InitializeOrAssign_ok h k a h' sci \<longleftrightarrow>
     hierarchy_inv (GetSubtypeCheckInfo h') \<and> sci = GetSubtypeCheckInfo h' k \<and> live sci \<and>
     (a \<or> k = JavaLangObject \<longrightarrow> ready sci) \<and> (\<forall>x. get_status (h' x) = get_status (h x))"

lemma InitializeOrAssign_root:
  assumes "hierarchy_inv (GetSubtypeCheckInfo h)" "InitializeOrAssign h JavaLangObject a = (h', sci)"
  shows "InitializeOrAssign_ok h JavaLangObject a h' sci"
proof (cases "live (GetSubtypeCheckInfo h JavaLangObject)")
  case True
  then show ?thesis
    using assms hierarchy_invD(3) [OF assms(1)]
    by (auto simp: InitializeOrAssign_ok_def live_def ready_iff)
next
  case False
  have "ready CreateRoot"
    using CreateRoot_facts by (auto simp: ready_iff state_iffs(2) intro!: exI [of _ 0])
  moreover from this have "live CreateRoot"
    using CreateRoot_facts(2) by (auto simp: ready_iff)
  ultimately show ?thesis
    using False assms hierarchy_inv_root [OF assms(1) False] CreateRoot_facts(1)
    by (auto simp: InitializeOrAssign_ok_def live_def Let_def fits_CreateRoot SetSubtypeCheckInfo_info)
qed

lemma InitializeOrAssign_child:
  assumes par: "InitializeOrAssign_ok h p True h1 anc"
    and step: "InitializeOrAssign h p True = (h1, anc)" "InitializeOrAssign h (Class n p) a = (h', sci)"
  shows "InitializeOrAssign_ok h (Class n p) a h' sci"
proof -
  let ?I = "GetSubtypeCheckInfo h1" and ?k = "Class n p"
  note par' = par [unfolded InitializeOrAssign_ok_def]
  have at: "GetSubtypeCheckInfoAt h1 ?k (Suc (Depth p)) = ?I ?k"
    using info_parts(3) [of h1 ?k] by simp
  show ?thesis
  proof (cases "live (?I ?k) \<and> (a \<longrightarrow> ready (?I ?k))")
    case True
    then have "GetState (?I ?k) \<noteq> kUninitialized" "GetState (?I ?k) = kInitialized \<longrightarrow> \<not> a"
      by (auto simp: live_def ready_def)
    with step par' at have "(h', sci) = (h1, ?I ?k)" by (auto simp: Let_def)
    with True par' show ?thesis by (simp add: InitializeOrAssign_ok_def)
  next
    case False
    then have nr: "\<not> ready (?I ?k)"
      and new: "GetState (?I ?k) = kUninitialized \<or> GetState (?I ?k) = kInitialized \<and> a"
      by (cases "GetState (?I ?k)"; auto simp: live_def ready_def)+
    obtain P' C where cc: "CreateChild (?I p) a = (P', C)" by fastforce
    with step par' at new have h': "h' = SetSubtypeCheckInfo (SetSubtypeCheckInfo h1 ?k C) p P'"
      and sci: "sci = C" by (auto simp: Let_def)
    have "GetSubtypeCheckInfo h' = ?I(?k := C, p := P')"
      unfolding h' using fits_CreateChild [OF cc] CreateChild_child(1) [OF cc] CreateChild_parent(1) [OF cc]
      by (simp add: SetSubtypeCheckInfo_info)
    with hierarchy_inv_create [OF _ _ nr cc] child_label_inv(3) [OF cc] CreateChild_live [OF cc]
      hierarchy_invD(2) sci h' par' show ?thesis
      by (auto simp: InitializeOrAssign_ok_def)
  qed
qed

lemma InitializeOrAssign_correct:
  "hierarchy_inv (GetSubtypeCheckInfo h) \<Longrightarrow> InitializeOrAssign h k a = (h', sci) \<Longrightarrow>
     InitializeOrAssign_ok h k a h' sci"
proof (induction k arbitrary: a h' sci)
  case JavaLangObject
  then show ?case by (rule InitializeOrAssign_root)
next
  case (Class n p)
  obtain h1 anc where "InitializeOrAssign h p True = (h1, anc)" by fastforce
  with Class show ?case by (blast intro: InitializeOrAssign_child)
qed

lemma InitializeOrAssign_depth:
  "hierarchy_inv (GetSubtypeCheckInfo h) \<Longrightarrow> sci_depth (snd (InitializeOrAssign h k a)) = Depth k"
  using InitializeOrAssign_correct [of h k a "fst (InitializeOrAssign h k a)" "snd (InitializeOrAssign h k a)"]
  by (simp add: InitializeOrAssign_ok_def)

section \<open>Labels of ready classes never change\<close>

definition label_kept :: "SubtypeCheckInfo \<Rightarrow> SubtypeCheckInfo \<Rightarrow> bool" where
  "label_kept i i' \<longleftrightarrow>
     (live i \<longrightarrow> live i') \<and>
     (ready i \<longrightarrow> GetState i' = GetState i \<and> (\<forall>j < 3. j < sci_depth i \<longrightarrow> path_char i' j = path_char i j))"

lemma label_kept_refl [simp]: "label_kept i i"
  by (simp add: label_kept_def)

lemma label_kept_trans:
  "label_kept i j \<Longrightarrow> label_kept j k \<Longrightarrow> sci_depth i = sci_depth j \<Longrightarrow> label_kept i k"
  by (auto simp: label_kept_def ready_def)

lemma label_kept_create:
  assumes inv: "hierarchy_inv I" and P: "ready (I p)" and k: "\<not> ready (I (Class n p))"
    and cc: "CreateChild (I p) a = (P', C)"
  shows "label_kept (I x) ((I(Class n p := C, p := P')) x)"
proof (cases "x = p")
  case True
  have "GetState P' = GetState (I p)"
    using P parent_state_kept(1) [OF cc P hierarchy_invD(2) [OF inv]] parent_assigned_same [OF inv P cc]
    by (auto simp: ready_def)
  then show ?thesis
    using True CreateChild_parent(1,3) [OF cc] by (auto simp: label_kept_def live_def)
next
  case False
  then show ?thesis using k CreateChild_live [OF cc P] by (auto simp: label_kept_def)
qed

lemma kept_path:
  assumes kept: "label_kept (GetSubtypeCheckInfo h k) (GetSubtypeCheckInfo h' k)"
    and ready: "ready (GetSubtypeCheckInfo h k)"
  shows "GetPathToRoot (GetSubtypeCheckInfo h' k) = GetPathToRoot (GetSubtypeCheckInfo h k)"
proof (rule BitString_eqI)
  show "char_at (GetPathToRoot (GetSubtypeCheckInfo h' k)) j = char_at (GetPathToRoot (GetSubtypeCheckInfo h k)) j"
    if "j < 3" for j
    using that kept ready
    by (auto simp: GetPathToRoot_def GetSafeDepth_def char_at_Truncate label_kept_def path_char_def)
qed (simp_all add: GetPathToRoot_def)

lemma InitializeOrAssign_kept:
  "hierarchy_inv (GetSubtypeCheckInfo h) \<Longrightarrow> InitializeOrAssign h k a = (h', sci) \<Longrightarrow>
     label_kept (GetSubtypeCheckInfo h x) (GetSubtypeCheckInfo h' x)"
proof (induction k arbitrary: a h' sci)
  case JavaLangObject
  then show ?case
    by (auto simp: Let_def SetSubtypeCheckInfo_info fits_CreateRoot CreateRoot_facts label_kept_def
        live_def ready_def split: if_splits)
next
  case (Class n p)
  obtain h1 anc where h1: "InitializeOrAssign h p True = (h1, anc)" by fastforce
  note par = InitializeOrAssign_correct [OF Class.prems(1) h1, unfolded InitializeOrAssign_ok_def]
  let ?I = "GetSubtypeCheckInfo h1" and ?k = "Class n p"
  have at: "GetSubtypeCheckInfoAt h1 ?k (Suc (Depth p)) = ?I ?k"
    using info_parts(3) [of h1 ?k] by simp
  have "label_kept (?I x) (GetSubtypeCheckInfo h' x)"
  proof (cases "GetState (?I ?k) = kUninitialized \<or> GetState (?I ?k) = kInitialized \<and> a")
    case True
    obtain P' C where cc: "CreateChild (?I p) a = (P', C)" by fastforce
    with Class.prems(2) h1 par at True
    have h': "h' = SetSubtypeCheckInfo (SetSubtypeCheckInfo h1 ?k C) p P'" by (auto simp: Let_def)
    have "GetSubtypeCheckInfo h' = ?I(?k := C, p := P')"
      unfolding h' using fits_CreateChild [OF cc] CreateChild_child(1) [OF cc] CreateChild_parent(1) [OF cc]
      by (simp add: SetSubtypeCheckInfo_info)
    with label_kept_create [of ?I p n a P' C x] cc par True show ?thesis by (auto simp: ready_def)
  next
    case False
    with Class.prems(2) h1 par at have "h' = h1" by (auto simp: Let_def split: if_splits)
    then show ?thesis by simp
  qed
  with Class.IH [OF Class.prems(1) h1] show ?case by (rule label_kept_trans) simp
qed

section \<open>Reachable heaps\<close>

inductive sc_step :: "class_heap \<Rightarrow> class_heap \<Rightarrow> bool" where
  initialize: "EnsureInitialized h k = (h', st) \<Longrightarrow> sc_step h h'"
| assign: "EnsureAssigned h k = (h', st) \<Longrightarrow> sc_step h h'"
| status: "sc_step h (WriteStatus h k s)"

inductive sc_reachable :: "class_heap \<Rightarrow> bool" where
  start: "(\<And>k. get_subtype_check_info (h k) = 0) \<Longrightarrow> sc_reachable h"
| more: "sc_reachable h \<Longrightarrow> sc_step h h' \<Longrightarrow> sc_reachable h'"

inductive_cases sc_stepE: "sc_step h h'"

lemma Ensure_InitializeOrAssign:
  "EnsureInitialized h k = (h', st) \<Longrightarrow> \<exists>sci. InitializeOrAssign h k False = (h', sci) \<and> st = GetState sci"
  "EnsureAssigned h k = (h', st) \<Longrightarrow> \<exists>sci. InitializeOrAssign h k True = (h', sci) \<and> st = GetState sci"
  by (auto simp: EnsureInitialized_def EnsureAssigned_def split: prod.splits)

lemma zero_label:
  assumes "get_subtype_check_info (h k) = 0"
  shows "j < 3 \<Longrightarrow> path_char (GetSubtypeCheckInfo h k) j = 0" "\<not> overflowed (GetSubtypeCheckInfo h k)"
  using assms
  by (simp_all add: path_char_def GetBitString_def get_bitstring_def get_overflow_def
      BitFieldExtract_take_bit)

lemma hierarchy_inv_step [inv_intros]:
  "sc_step h h' \<Longrightarrow> hierarchy_inv (GetSubtypeCheckInfo h) \<Longrightarrow> hierarchy_inv (GetSubtypeCheckInfo h')"
  by (erule sc_stepE)
    (auto dest!: Ensure_InitializeOrAssign InitializeOrAssign_correct simp: InitializeOrAssign_ok_def)

lemma hierarchy_inv_reachable [inv_intros]:
  "sc_reachable h \<Longrightarrow> hierarchy_inv (GetSubtypeCheckInfo h)"
proof (induction rule: sc_reachable.induct)
  case (start h)
  then have "j < 3 \<Longrightarrow> path_char (GetSubtypeCheckInfo h k) j = 0" "\<not> overflowed (GetSubtypeCheckInfo h k)"
    for k j
    by (simp_all add: zero_label del: info_parts(2))
  then show ?case
    by (auto simp: hierarchy_inv_def label_inv_def state_iffs(2,3) simp del: info_parts(2))
qed (rule hierarchy_inv_step)

lemma sc_step_kept:
  "sc_step h h' \<Longrightarrow> hierarchy_inv (GetSubtypeCheckInfo h) \<Longrightarrow>
     label_kept (GetSubtypeCheckInfo h x) (GetSubtypeCheckInfo h' x)"
  by (erule sc_stepE) (auto dest!: Ensure_InitializeOrAssign InitializeOrAssign_kept)

section \<open>Paths of a reachable heap\<close>

lemma path_zero_tail:
  assumes inv: "hierarchy_inv I"
  shows "live (I x) \<Longrightarrow> i < j \<Longrightarrow> j < 3 \<Longrightarrow> j < Depth x \<Longrightarrow> path_char (I x) i = 0 \<Longrightarrow> path_char (I x) j = 0"
proof (induction x)
  case (Class n p)
  note anc = ancestors_path [OF inv Class.prems(1), of p]
  show ?case
  proof (cases "j < Depth p")
    case True
    with Class anc [of i] anc [of j] ancestors_live [OF inv Class.prems(1), of p]
    show ?thesis by simp
  next
    case False
    then have j: "j = Depth p" using Class.prems by simp
    show ?thesis
    proof (rule ccontr)
      assume "path_char (I (Class n p)) j \<noteq> 0"
      then have "GetState (I (Class n p)) = kAssigned"
        using nonzero_char_assigned [OF inv Class.prems(1)] j Class.prems by simp
      with assigned_path [OF inv] Class.prems show False by auto
    qed
  qed
qed simp

lemma DcheckInvariants_chars:
  "DcheckInvariants i \<longleftrightarrow>
     (\<forall>j < 3. sci_depth i < j \<longrightarrow> path_char i j = 0) \<and>
     (\<forall>j < 3. \<forall>l < j. j < sci_depth i \<longrightarrow> path_char i l = 0 \<longrightarrow> path_char i j = 0)"
proof -
  have upt3: "[0..<3] = [0, 1, 2 :: nat]" by (simp add: upt_rec)
  have all3: "(\<forall>j < 3. P j) \<longleftrightarrow> P 0 \<and> P 1 \<and> P (2 :: nat)" for P
    by (auto simp: numeral_3_eq_3 less_Suc_eq numeral_2_eq_2)
  have all2: "(\<forall>l < 2. P l) \<longleftrightarrow> P 0 \<and> P (1 :: nat)" for P
    by (auto simp: less_Suc_eq numeral_2_eq_2)
  consider "sci_depth i = 0" | "sci_depth i = 1" | "sci_depth i = 2" | "3 \<le> sci_depth i" by linarith
  then show ?thesis
    by cases (auto simp: DcheckInvariants_def BitString_Length_chars GetSafeDepth_def GetPathToRoot_def
        char_at_Truncate path_char_def upt3 all3 all2 kCapacity_3)
qed

lemma path_zero_reachable:
  assumes "hierarchy_inv I" "l < j" "j < 3" "j < Depth x" "path_char (I x) l = 0"
  shows "path_char (I x) j = 0"
  using assms path_zero_tail [OF assms(1), of x l j] by (cases "live (I x)") (auto simp: state_iffs(2))

lemma ancestors_ready:
  assumes inv: "hierarchy_inv I"
  shows "live (I x) \<Longrightarrow> IsSubClass x y \<Longrightarrow> x \<noteq> y \<Longrightarrow> ready (I y)"
proof (induction x)
  case (Class n p)
  have "ready (I p)" using hierarchy_invD(4) [OF inv Class.prems(1)] by (simp add: child_inv_def)
  with Class ancestors_live [OF inv Class.prems(1), of p] show ?case
    by (cases "p = y") (auto split: if_splits)
qed simp

section \<open>A small heap\<close>

text \<open>Two classes assigned one after the other on a fresh heap: the input of the witnesses.\<close>

lemma fresh_heap_reachable: "sc_reachable (\<lambda>_. 0)"
  by (rule start) (simp add: get_subtype_check_info_def BitFieldExtract_take_bit)

definition example_heap :: class_heap where
  "example_heap = fst (EnsureAssigned (\<lambda>_. 0) (Class 0 JavaLangObject))"

lemma example_heap_reachable: "sc_reachable example_heap"
  by (rule more [OF fresh_heap_reachable], rule assign [of _ "Class 0 JavaLangObject"])
    (simp add: example_heap_def prod_eq_iff)

lemma example_heap_states:
  "GetState (GetSubtypeCheckInfo example_heap JavaLangObject) = kAssigned"
  "GetState (GetSubtypeCheckInfo example_heap (Class 0 JavaLangObject)) = kAssigned"
  by code_simp+

lemma EnsureAssigned_example: "EnsureAssigned (\<lambda>_. 0) (Class 0 JavaLangObject) = (example_heap, kAssigned)"
proof -
  obtain h' sci where run: "InitializeOrAssign (\<lambda>_. 0) (Class 0 JavaLangObject) True = (h', sci)" by fastforce
  then have "h' = example_heap" by (simp add: example_heap_def EnsureAssigned_def)
  moreover from InitializeOrAssign_correct [OF hierarchy_inv_reachable [OF fresh_heap_reachable] run]
  have "sci = GetSubtypeCheckInfo h' (Class 0 JavaLangObject)" by (simp only: InitializeOrAssign_ok_def)
  ultimately show ?thesis using run example_heap_states(2) by (simp add: EnsureAssigned_def)
qed

section \<open>Properties\<close>

text \<open>
  C1.  In every heap that labelling and status updates can reach, the comparison of two bitstring
  labels (\<open>SubtypeCheck::IsSubtypeOf\<close>) answers exactly as the linear scan \<open>Class::IsSubClass\<close> when the
  target is assigned and the source is at least initialized, and says "unknown" otherwise.
\<close>

theorem IsSubtypeOf_is_IsSubClass:
  assumes "sc_reachable h"
  shows "IsSubtypeOf h s t =
    (if GetState (GetSubtypeCheckInfo h t) = kAssigned \<and> GetState (GetSubtypeCheckInfo h s) \<noteq> kUninitialized
     then (if IsSubClass s t then kSubtypeOf else kNotSubtypeOf) else kUnknownSubtypeOf)"
  using Info_IsSubtypeOf_correct [OF hierarchy_inv_reachable [OF assms]]
  by (simp add: IsSubtypeOf_def live_def)

theorem IsSubtypeOf_is_IsSubClass_witness:
  "IsSubtypeOf example_heap (Class 0 JavaLangObject) JavaLangObject = kSubtypeOf \<and>
   IsSubtypeOf example_heap JavaLangObject (Class 0 JavaLangObject) = kNotSubtypeOf"
  by (simp add: IsSubtypeOf_is_IsSubClass [OF example_heap_reachable] example_heap_states)

text \<open>
  C7.  The masked comparison that compiled code makes with the encoded operands decides the subclass
  relation: once \<open>EnsureAssigned\<close> has succeeded for the target and \<open>EnsureInitialized\<close> has run for the
  source, later labelling of other classes does not invalidate the target's constants.
\<close>

theorem encoded_compare_is_IsSubClass:
  assumes "sc_reachable h" and "EnsureAssigned h t = (h1, kAssigned)" and "EnsureInitialized h1 s = (h2, st)"
  shows "GetEncodedPathToRootForTarget h2 t = GetEncodedPathToRootForTarget h1 t \<and>
    (GetEncodedPathToRootForSource h2 s AND GetEncodedPathToRootMaskOf h1 t = GetEncodedPathToRootForTarget h1 t
       \<longleftrightarrow> IsSubClass s t)"
proof -
  note inv = hierarchy_inv_reachable [OF assms(1)]
  from assms(2,3) obtain i1 i2 where i1: "InitializeOrAssign h t True = (h1, i1)" "GetState i1 = kAssigned"
    and i2: "InitializeOrAssign h1 s False = (h2, i2)"
    by (auto dest!: Ensure_InitializeOrAssign)
  note ok1 = InitializeOrAssign_correct [OF inv i1(1), unfolded InitializeOrAssign_ok_def]
  then have inv1: "hierarchy_inv (GetSubtypeCheckInfo h1)" by simp
  note ok2 = InitializeOrAssign_correct [OF inv1 i2, unfolded InitializeOrAssign_ok_def]
  let ?T = "\<lambda>h. GetSubtypeCheckInfo h t" and ?S = "GetSubtypeCheckInfo h2 s"
  have kept: "label_kept (?T h1) (?T h2)" by (rule InitializeOrAssign_kept [OF inv1 i2])
  have same: "GetPathToRoot (?T h2) = GetPathToRoot (?T h1)"
    using kept_path [OF kept] ok1 i1(2) by (auto simp: ready_def)
  have "GetState (?T h2) = kAssigned" using kept ok1 i1(2) by (auto simp: label_kept_def ready_def)
  with ok2 have "Info_IsSubtypeOf ?S (?T h2) = (if IsSubClass s t then kSubtypeOf else kNotSubtypeOf)"
    by (metis Info_IsSubtypeOf_correct)
  then show ?thesis
    using \<open>GetState (?T h2) = kAssigned\<close> ok2 same
    by (auto simp: Info_IsSubtypeOf_def GetEncodedPathToRootForTarget_def GetEncodedPathToRootForSource_def
        GetEncodedPathToRootMaskOf_def GetEncodedPathToRoot_def GetEncodedPathToRootMask_def live_def
        split: if_splits)
qed

theorem encoded_compare_is_IsSubClass_witness:
  "GetEncodedPathToRootForSource (fst (EnsureInitialized example_heap (Class 1 (Class 0 JavaLangObject))))
     (Class 1 (Class 0 JavaLangObject)) AND GetEncodedPathToRootMaskOf example_heap (Class 0 JavaLangObject) =
   GetEncodedPathToRootForTarget example_heap (Class 0 JavaLangObject)"
  using encoded_compare_is_IsSubClass [OF fresh_heap_reachable EnsureAssigned_example prod.collapse [symmetric],
      of "Class 1 (Class 0 JavaLangObject)"] by simp

text \<open>
  C15.  \<open>EnsureInitialized\<close> and \<open>EnsureAssigned\<close> return the state they leave the class in: at least
  \<open>Initialized\<close>, respectively \<open>Assigned\<close> or \<open>Overflowed\<close>, with every proper superclass \<open>Assigned\<close> or
  \<open>Overflowed\<close>; no class status is touched.
\<close>

theorem Ensure_postconditions:
  assumes "sc_reachable h"
  shows "case (if assign then EnsureAssigned h k else EnsureInitialized h k) of (h', st) \<Rightarrow>
      st = GetState (GetSubtypeCheckInfo h' k) \<and> st \<noteq> kUninitialized \<and>
      (assign \<longrightarrow> st = kAssigned \<or> st = kOverflowed) \<and>
      (\<forall>x. IsSubClass k x \<and> x \<noteq> k \<longrightarrow>
         GetState (GetSubtypeCheckInfo h' x) = kAssigned \<or> GetState (GetSubtypeCheckInfo h' x) = kOverflowed) \<and>
      (\<forall>x. get_status (h' x) = get_status (h x))"
proof -
  obtain h' sci where run: "InitializeOrAssign h k assign = (h', sci)" by fastforce
  note ok = InitializeOrAssign_correct [OF hierarchy_inv_reachable [OF assms] run,
      unfolded InitializeOrAssign_ok_def]
  have anc: "\<forall>x. IsSubClass k x \<and> x \<noteq> k \<longrightarrow> ready (GetSubtypeCheckInfo h' x)"
    using ok ancestors_ready [of "GetSubtypeCheckInfo h'" k] by auto
  have "(if assign then EnsureAssigned h k else EnsureInitialized h k) = (h', GetState sci)"
    using run by (cases assign) (simp_all add: EnsureAssigned_def EnsureInitialized_def)
  moreover from ok have sci: "sci = GetSubtypeCheckInfo h' k" by simp
  ultimately show ?thesis using ok anc unfolding sci ready_def live_def by simp
qed

theorem Ensure_postconditions_witness: "snd (EnsureAssigned example_heap (Class 1 JavaLangObject)) \<noteq> kInitialized"
  using Ensure_postconditions [OF example_heap_reachable, where assign = True and k = "Class 1 JavaLangObject"]
  by (auto split: prod.splits)



text \<open>
  C17.  The label of a class that has been assigned or has overflowed is final: no later step of any
  kind changes its state or its encoded path.
\<close>

theorem ready_label_is_final:
  assumes "sc_reachable h" and "sc_step h h'"
    and "GetState (GetSubtypeCheckInfo h k) = kAssigned \<or> GetState (GetSubtypeCheckInfo h k) = kOverflowed"
  shows "GetState (GetSubtypeCheckInfo h' k) = GetState (GetSubtypeCheckInfo h k) \<and>
    GetEncodedPathToRootForTarget h' k = GetEncodedPathToRootForTarget h k"
proof -
  have kept: "label_kept (GetSubtypeCheckInfo h k) (GetSubtypeCheckInfo h' k)"
    by (rule sc_step_kept [OF assms(2) hierarchy_inv_reachable [OF assms(1)]])
  with assms(3) show ?thesis
    by (auto simp: GetEncodedPathToRootForTarget_def GetEncodedPathToRoot_def kept_path ready_def
        label_kept_def)
qed

theorem ready_label_is_final_witness: "GetState (GetSubtypeCheckInfo (WriteStatus example_heap JavaLangObject Loaded) JavaLangObject) = kAssigned"
  using ready_label_is_final [OF example_heap_reachable status [of _ JavaLangObject Loaded], of JavaLangObject]
  by (simp add: example_heap_states)

end
