(* ===== verification/SharedWord.thy ===== *)
theory SharedWord
  imports SubtypeCheck
begin

text \<open>
  A word whose two fields are written by different threads through compare-and-swap loops: the
  contract of the loop as a locale, and its two instances, \<open>SubtypeCheck::WriteSubtypeCheckBits\<close> and
  \<open>SubtypeCheck::WriteStatus\<close> on the status word of a class.
\<close>

section \<open>The loop\<close>

text \<open>
  \<open>get\<close>/\<open>put\<close> access the writer's own field and \<open>get_other\<close>/\<open>put_other\<close> the field that interfering
  threads write; \<open>loop\<close> runs over a schedule of attempts.
\<close>

locale cas_writer =
  fixes get :: "'w \<Rightarrow> 'v" and put :: "'w \<Rightarrow> 'v \<Rightarrow> 'w"
    and get_other :: "'w \<Rightarrow> 'o" and put_other :: "'w \<Rightarrow> 'o \<Rightarrow> 'w"
    and valid :: "'v \<Rightarrow> bool" and valid_other :: "'o \<Rightarrow> bool"
    and loop :: "('o option \<times> bool) list \<Rightarrow> 'w \<Rightarrow> 'v \<Rightarrow> 'w option"
  assumes get_put: "valid v \<Longrightarrow> get (put w v) = v"
    and get_put_other: "get (put_other w x) = get w"
    and get_other_put: "get_other (put w v) = get_other w"
    and get_other_put_other: "valid_other x \<Longrightarrow> get_other (put_other w x) = x"
    and loop_Nil: "loop [] w v = None"
    and loop_Cons: "loop ((i, spurious) # rest) w v =
          (if get w = v then Some w
           else let w' = (case i of None \<Rightarrow> w | Some x \<Rightarrow> put_other w x)
                in if w' = w \<and> \<not> spurious then Some (put w v) else loop rest w' v)"
begin

lemma loop_result:
  assumes "valid v" and "\<forall>(i, spurious) \<in> set sched. \<forall>x. i = Some x \<longrightarrow> valid_other x"
    and "loop sched w v = Some w'"
  shows "get w' = v \<and>
    (\<exists>n < length sched. get_other w' =
       last (get_other w # List.map_filter fst (take n sched)))"
  using assms(2,3)
proof (induction sched arbitrary: w)
  case (Cons a rest)
  obtain i spurious where a: "a = (i, spurious)" by fastforce
  let ?w = "case i of None \<Rightarrow> w | Some x \<Rightarrow> put_other w x"
  show ?case
  proof (cases "get w = v \<or> ?w = w \<and> \<not> spurious")
    case True
    then have "w' = w \<and> get w = v \<or> w' = put w v"
      using Cons.prems a by (auto simp: loop_Cons Let_def split: if_splits)
    then have "get w' = v" "get_other w' = get_other w"
      using assms(1) by (auto simp: get_put get_other_put)
    then show ?thesis by (auto intro!: exI [of _ 0])
  next
    case False
    then have "loop rest ?w v = Some w'"
      using Cons.prems a by (auto simp: loop_Cons Let_def split: if_splits)
    with Cons.IH [of ?w] Cons.prems obtain n where n: "get w' = v" "n < length rest"
      "get_other w' = last (get_other ?w # List.map_filter fst (take n rest))" by auto
    have "get_other ?w = (case i of None \<Rightarrow> get_other w | Some x \<Rightarrow> x)"
      using Cons.prems(1) a by (auto simp: get_other_put_other split: option.splits)
    with n a show ?thesis
      by (auto intro!: exI [of _ "Suc n"] simp: map_filter_simps split: option.splits)
  qed
qed (simp add: loop_Nil)

lemma loop_returns:
  assumes "(None, False) \<in> set sched"
  shows "\<exists>w'. loop sched w v = Some w'"
  using assms
proof (induction sched arbitrary: w)
  case (Cons a rest)
  obtain i spurious where a: "a = (i, spurious)" by fastforce
  then show ?case
    using Cons by (cases "a = (None, False)") (auto simp: loop_Cons Let_def)
qed simp

end

interpretation bits_writer: cas_writer get_subtype_check_info set_subtype_check_info
  get_status set_status "fits 28" "\<lambda>_. True" WriteSubtypeCheckBits_loop
  by unfold_locales (simp_all add: field_simps_bits get_set_status Let_def)

interpretation status_writer: cas_writer get_status set_status
  get_subtype_check_info set_subtype_check_info "\<lambda>_. True" "fits 28" WriteStatusImpl_loop
  by unfold_locales (simp_all add: field_simps_bits get_set_status Let_def)

section \<open>Properties\<close>



text \<open>
  Conversely the status writer \<open>SubtypeCheck::WriteStatus\<close> (called by
  \<open>Class::SetStatusInternal\<close>) returns with the new status and with the
  subtype-check bits last written by an interfering thread, and it returns once an attempt is
  undisturbed.
\<close>

theorem WriteStatusImpl_keeps_bits:
  assumes "\<forall>(i, spurious) \<in> set sched. \<forall>b. i = Some b \<longrightarrow> fits 28 b"
  shows "(\<forall>field'. WriteStatusImpl_loop sched field status = Some field' \<longrightarrow>
      get_status field' = status \<and>
      (\<exists>n < length sched. get_subtype_check_info field' =
         last (get_subtype_check_info field # List.map_filter fst (take n sched)))) \<and>
    ((None, False) \<in> set sched \<longrightarrow> (\<exists>field'. WriteStatusImpl_loop sched field status = Some field'))"
  using status_writer.loop_result [OF TrueI assms, of field status]
    status_writer.loop_returns [of sched field status]
  by auto

theorem WriteStatusImpl_keeps_bits_witness:
  "\<exists>field'. WriteStatusImpl_loop [(Some 5, False), (None, False)] 0 Verified = Some field' \<and>
     get_status field' = Verified"
proof -
  have "\<forall>(i, spurious) \<in> set [(Some (5 :: u32), False), (None, False)]. \<forall>b. i = Some b \<longrightarrow> fits 28 b"
    by (simp add: fits_unat)
  moreover have "(None, False) \<in> set [(Some (5 :: u32), False), (None, False)]" by simp
  ultimately show ?thesis
    using WriteStatusImpl_keeps_bits [of "[(Some 5, False), (None, False)]" 0 Verified] by blast
qed

end
