(* ===== verification/Leb128.thy ===== *)
theory Leb128
  imports BitUtils
begin

text \<open>
  The LEB128 codecs of \<^verbatim>\<open>libartbase/base/leb128.h\<close>.  Memory is a function from addresses to bytes and
  a pointer is an address; a function that moves a pointer returns the new address, one that writes
  returns the new memory.  The \<open>_vec\<close> functions are the overloads that append to a vector.
\<close>

section \<open>Decoders\<close>

definition DecodeUnsignedLeb128 :: "mem \<Rightarrow> nat \<Rightarrow> u32 \<times> nat" where
  "DecodeUnsignedLeb128 m ptr =
     (let result = load m ptr
      in if result > 0x7f
         then let cur = load m (ptr + 1);
                  result = (result AND 0x7f) OR push_bit 7 (cur AND 0x7f)
              in if cur > 0x7f
                 then let cur = load m (ptr + 2);
                          result = result OR push_bit 14 (cur AND 0x7f)
                      in if cur > 0x7f
                         then let cur = load m (ptr + 3);
                                  result = result OR push_bit 21 (cur AND 0x7f)
                              in if cur > 0x7f
                                 then let cur = load m (ptr + 4);
                                          result = result OR push_bit 28 cur
                                      in (result, ptr + 5)
                                 else (result, ptr + 4)
                         else (result, ptr + 3)
                 else (result, ptr + 2)
         else (result, ptr + 1))"

definition DecodeUnsignedLeb128WithoutMovingCursor :: "mem \<Rightarrow> nat \<Rightarrow> u32" where
  "DecodeUnsignedLeb128WithoutMovingCursor m ptr = fst (DecodeUnsignedLeb128 m ptr)"

text \<open>The checked decoders return \<open>None\<close> where the code returns false.\<close>

definition DecodeUnsignedLeb128Checked :: "mem \<Rightarrow> nat \<Rightarrow> nat \<Rightarrow> (u32 \<times> nat) option" where
  "DecodeUnsignedLeb128Checked m ptr end_ptr =
     (if ptr \<ge> end_ptr then None
      else let result = load m ptr
      in if result > 0x7f
         then if ptr + 1 \<ge> end_ptr then None
              else let cur = load m (ptr + 1);
                  result = (result AND 0x7f) OR push_bit 7 (cur AND 0x7f)
              in if cur > 0x7f
                 then if ptr + 2 \<ge> end_ptr then None
                      else let cur = load m (ptr + 2);
                          result = result OR push_bit 14 (cur AND 0x7f)
                      in if cur > 0x7f
                         then if ptr + 3 \<ge> end_ptr then None
                              else let cur = load m (ptr + 3);
                                  result = result OR push_bit 21 (cur AND 0x7f)
                              in if cur > 0x7f
                                 then if ptr + 4 \<ge> end_ptr then None
                                      else let cur = load m (ptr + 4);
                                          result = result OR push_bit 28 cur
                                      in Some (result, ptr + 5)
                                 else Some (result, ptr + 4)
                         else Some (result, ptr + 3)
                 else Some (result, ptr + 2)
         else Some (result, ptr + 1))"

definition DecodeUnsignedLeb128P1 :: "mem \<Rightarrow> nat \<Rightarrow> u32 \<times> nat" where
  "DecodeUnsignedLeb128P1 m ptr = (let (v, ptr') = DecodeUnsignedLeb128 m ptr in (v - 1, ptr'))"

text \<open>\<open>(x << n) >> n\<close> on a signed 32-bit integer.\<close>

definition shl_sar :: "nat \<Rightarrow> u32 \<Rightarrow> u32" where
  "shl_sar n x = signed_drop_bit n (push_bit n x)"

definition DecodeSignedLeb128 :: "mem \<Rightarrow> nat \<Rightarrow> u32 \<times> nat" where
  "DecodeSignedLeb128 m ptr =
     (let result = load m ptr
      in if result \<le> 0x7f then (shl_sar 25 result, ptr + 1)
         else let cur = load m (ptr + 1);
                  result = (result AND 0x7f) OR push_bit 7 (cur AND 0x7f)
              in if cur \<le> 0x7f then (shl_sar 18 result, ptr + 2)
                 else let cur = load m (ptr + 2);
                          result = result OR push_bit 14 (cur AND 0x7f)
                      in if cur \<le> 0x7f then (shl_sar 11 result, ptr + 3)
                         else let cur = load m (ptr + 3);
                                  result = result OR push_bit 21 (cur AND 0x7f)
                              in if cur \<le> 0x7f then (shl_sar 4 result, ptr + 4)
                                 else let cur = load m (ptr + 4);
                                          result = result OR push_bit 28 cur
                                      in (result, ptr + 5))"

definition DecodeSignedLeb128Checked :: "mem \<Rightarrow> nat \<Rightarrow> nat \<Rightarrow> (u32 \<times> nat) option" where
  "DecodeSignedLeb128Checked m ptr end_ptr =
     (if ptr \<ge> end_ptr then None
      else let result = load m ptr
      in if result \<le> 0x7f then Some (shl_sar 25 result, ptr + 1)
         else if ptr + 1 \<ge> end_ptr then None
              else let cur = load m (ptr + 1);
                  result = (result AND 0x7f) OR push_bit 7 (cur AND 0x7f)
              in if cur \<le> 0x7f then Some (shl_sar 18 result, ptr + 2)
                 else if ptr + 2 \<ge> end_ptr then None
                      else let cur = load m (ptr + 2);
                          result = result OR push_bit 14 (cur AND 0x7f)
                      in if cur \<le> 0x7f then Some (shl_sar 11 result, ptr + 3)
                         else if ptr + 3 \<ge> end_ptr then None
                              else let cur = load m (ptr + 3);
                                  result = result OR push_bit 21 (cur AND 0x7f)
                              in if cur \<le> 0x7f then Some (shl_sar 4 result, ptr + 4)
                                 else if ptr + 4 \<ge> end_ptr then None
                                      else let cur = load m (ptr + 4);
                                          result = result OR push_bit 28 cur
                                      in Some (result, ptr + 5))"

section \<open>Sizes and search\<close>

definition UnsignedLeb128Size :: "u32 \<Rightarrow> u32" where
  "UnsignedLeb128Size data =
     (let x = 6 + 32 - word_of_nat (CLZ (data OR 1)) in drop_bit 8 (x * 37))"

definition IsLeb128Terminator :: "mem \<Rightarrow> nat \<Rightarrow> bool" where
  "IsLeb128Terminator m ptr \<longleftrightarrow> m ptr \<le> 0x7f"

text \<open>\<open>None\<close>: the search ran off the start of memory.\<close>

fun ReverseSearch_loop :: "mem \<Rightarrow> nat \<Rightarrow> nat option" where
  "ReverseSearch_loop m 0 = None"
| "ReverseSearch_loop m (Suc ptr) =
     (if \<not> IsLeb128Terminator m ptr then ReverseSearch_loop m ptr else Some (Suc ptr))"

definition ReverseSearchUnsignedLeb128 :: "mem \<Rightarrow> nat \<Rightarrow> nat option" where
  "ReverseSearchUnsignedLeb128 m end_ptr = ReverseSearch_loop m (end_ptr - 1)"

definition SignedLeb128Size :: "u32 \<Rightarrow> u32" where
  "SignedLeb128Size data0 =
     (let data = data0 XOR signed_drop_bit 31 data0;
          x = 1 + 6 + 32 - word_of_nat (CLZ (data OR 1))
      in drop_bit 8 (x * 37))"

section \<open>Encoders\<close>

lemma drop_bit_7_less: "v \<noteq> 0 \<Longrightarrow> unat (drop_bit 7 v) < unat (v :: u32)"
  by (simp add: drop_bit_eq_div unat_div unat_gt_0)

function EncodeUnsigned_loop :: "mem \<Rightarrow> nat \<Rightarrow> u8 \<Rightarrow> u32 \<Rightarrow> mem \<times> nat" where
  "EncodeUnsigned_loop m dest out value =
     (if value \<noteq> 0
      then EncodeUnsigned_loop (m(dest := out OR 0x80)) (dest + 1) (ucast (value AND 0x7f)) (drop_bit 7 value)
      else (m(dest := out), dest + 1))"
  by auto
termination by (relation "measure (\<lambda>(m, dest, out, value). unat value)") (auto simp: drop_bit_7_less)

definition EncodeUnsignedLeb128 :: "mem \<Rightarrow> nat \<Rightarrow> u32 \<Rightarrow> mem \<times> nat" where
  "EncodeUnsignedLeb128 m dest value =
     EncodeUnsigned_loop m dest (ucast (value AND 0x7f)) (drop_bit 7 value)"

function EncodeUnsigned_loop_vec :: "u8 list \<Rightarrow> u8 \<Rightarrow> u32 \<Rightarrow> u8 list" where
  "EncodeUnsigned_loop_vec dest out value =
     (if value \<noteq> 0
      then EncodeUnsigned_loop_vec (dest @ [out OR 0x80]) (ucast (value AND 0x7f)) (drop_bit 7 value)
      else dest @ [out])"
  by auto
termination by (relation "measure (\<lambda>(dest, out, value). unat value)") (auto simp: drop_bit_7_less)

definition EncodeUnsignedLeb128_vec :: "u8 list \<Rightarrow> u32 \<Rightarrow> u8 list" where
  "EncodeUnsignedLeb128_vec dest value =
     EncodeUnsigned_loop_vec dest (ucast (value AND 0x7f)) (drop_bit 7 value)"

function UpdateUnsigned_loop :: "mem \<Rightarrow> nat \<Rightarrow> nat \<Rightarrow> mem" where
  "UpdateUnsigned_loop m end_ptr old_end =
     (if end_ptr < old_end
      then UpdateUnsigned_loop (m(end_ptr - 1 := m (end_ptr - 1) OR 0x80, end_ptr := 0)) (end_ptr + 1) old_end
      else m)"
  by auto
termination by (relation "measure (\<lambda>(m, end_ptr, old_end). old_end - end_ptr)") auto

definition UpdateUnsignedLeb128 :: "mem \<Rightarrow> nat \<Rightarrow> u32 \<Rightarrow> mem" where
  "UpdateUnsignedLeb128 m dest value =
     (let (old_value, old_end) = DecodeUnsignedLeb128 m dest;
          (m', end_ptr) = EncodeUnsignedLeb128 m dest value
      in UpdateUnsigned_loop m' end_ptr old_end)"

function EncodeSigned_loop :: "mem \<Rightarrow> nat \<Rightarrow> u8 \<Rightarrow> u32 \<Rightarrow> u32 \<Rightarrow> mem \<times> nat" where
  "EncodeSigned_loop m dest out value extra_bits =
     (if extra_bits \<noteq> 0
      then let value' = signed_drop_bit 7 value
           in EncodeSigned_loop (m(dest := out OR 0x80)) (dest + 1) (ucast (value' AND 0x7f)) value'
                (drop_bit 7 extra_bits)
      else (m(dest := out), dest + 1))"
  by auto
termination
  by (relation "measure (\<lambda>(m, dest, out, value, extra). unat extra)") (auto simp: drop_bit_7_less)

definition EncodeSignedLeb128 :: "mem \<Rightarrow> nat \<Rightarrow> u32 \<Rightarrow> mem \<times> nat" where
  "EncodeSignedLeb128 m dest value =
     EncodeSigned_loop m dest (ucast (value AND 0x7f)) value
       (drop_bit 6 (value XOR signed_drop_bit 31 value))"

function EncodeSigned_loop_vec :: "u8 list \<Rightarrow> u8 \<Rightarrow> u32 \<Rightarrow> u32 \<Rightarrow> u8 list" where
  "EncodeSigned_loop_vec dest out value extra_bits =
     (if extra_bits \<noteq> 0
      then let value' = signed_drop_bit 7 value
           in EncodeSigned_loop_vec (dest @ [out OR 0x80]) (ucast (value' AND 0x7f)) value'
                (drop_bit 7 extra_bits)
      else dest @ [out])"
  by auto
termination
  by (relation "measure (\<lambda>(dest, out, value, extra). unat extra)") (auto simp: drop_bit_7_less)

definition EncodeSignedLeb128_vec :: "u8 list \<Rightarrow> u32 \<Rightarrow> u8 list" where
  "EncodeSignedLeb128_vec dest value =
     EncodeSigned_loop_vec dest (ucast (value AND 0x7f)) value
       (drop_bit 6 (value XOR signed_drop_bit 31 value))"

text \<open>\<open>Leb128Encoder\<close>: the vector is the state.\<close>

definition PushBackUnsigned :: "u8 list \<Rightarrow> u32 \<Rightarrow> u8 list" where
  "PushBackUnsigned data value = EncodeUnsignedLeb128_vec data value"

fun InsertBackUnsigned :: "u8 list \<Rightarrow> u32 list \<Rightarrow> u8 list" where
  "InsertBackUnsigned data [] = data"
| "InsertBackUnsigned data (value # rest) = InsertBackUnsigned (PushBackUnsigned data value) rest"

definition PushBackSigned :: "u8 list \<Rightarrow> u32 \<Rightarrow> u8 list" where
  "PushBackSigned data value = EncodeSignedLeb128_vec data value"

fun InsertBackSigned :: "u8 list \<Rightarrow> u32 list \<Rightarrow> u8 list" where
  "InsertBackSigned data [] = data"
| "InsertBackSigned data (value # rest) = InsertBackSigned (PushBackSigned data value) rest"

section \<open>The meaning of a byte sequence\<close>

text \<open>The value of a sequence of LEB128 bytes, and the bytes a decoder consumes: up to the first
  terminator, at most five.\<close>

fun leb_value :: "u8 list \<Rightarrow> nat" where
  "leb_value [] = 0"
| "leb_value (b # bs) = unat b mod 128 + 128 * leb_value bs"

fun leb_bytes :: "nat \<Rightarrow> mem \<Rightarrow> nat \<Rightarrow> u8 list" where
  "leb_bytes 0 m p = []"
| "leb_bytes (Suc n) m p = m p # (if m p > 0x7f then leb_bytes n m (p + 1) else [])"

lemma and_0x7f: "x AND 0x7f = take_bit 7 (x :: u32)"
  by (simp add: take_bit_eq_mask mask_eq_exp_minus_1)

lemma load_less [simp]: "(0x7f < load m p) = (0x7f < m p)" "(load m p \<le> 0x7f) = (m p \<le> 0x7f)"
  by (simp_all add: word_less_nat_alt word_le_nat_alt)

lemma word_leb_Cons:
  "(word_of_nat (leb_value (b # bs)) :: u32) = (ucast b AND 0x7f) OR push_bit 7 (word_of_nat (leb_value bs))"
proof -
  have b: "word_of_nat (unat b mod 128) = (ucast b :: u32) AND 0x7f"
    unfolding and_0x7f
    by (rule bit_word_eqI) (auto simp: bit_simps simp flip: take_bit_eq_mod [of 7, simplified])
  have "(word_of_nat (leb_value (b # bs)) :: u32) = (ucast b AND 0x7f) + push_bit 7 (word_of_nat (leb_value bs))"
    by (simp add: b push_bit_eq_mult mult.commute)
  also have "\<dots> = (ucast b AND 0x7f) OR push_bit 7 (word_of_nat (leb_value bs))"
    unfolding and_0x7f by (rule disjunctive_add) (auto simp: bit_simps)
  finally show ?thesis .
qed

lemma push_28: "push_bit 28 (take_bit 7 x) = push_bit 28 (x :: u32)"
  by (auto intro!: bit_word_eqI simp: bit_simps)

lemma small_byte: "\<not> 0x7f < b \<Longrightarrow> take_bit 7 (ucast b :: u32) = ucast (b :: u8)"
  by (rule fits_take_bit) (simp add: fits_unat word_less_nat_alt)

lemma Decode_spec:
  "DecodeUnsignedLeb128 m p = (word_of_nat (leb_value (leb_bytes 5 m p)), p + length (leb_bytes 5 m p))"
proof -
  have five: "leb_bytes 5 m p = leb_bytes (Suc (Suc (Suc (Suc (Suc 0))))) m p" by (simp add: eval_nat_numeral)
  have addr: "p + 2 = Suc (Suc p)" "p + 3 = Suc (Suc (Suc p))" "p + 4 = Suc (Suc (Suc (Suc p)))" by simp_all
  show ?thesis
    unfolding five DecodeUnsignedLeb128_def Let_def leb_bytes.simps
    by (simp add: word_leb_Cons push_bit_or push_28 small_byte and_0x7f addr or.assoc del: leb_value.simps(2))
qed

text \<open>The sign extension of a decoded value: from bit \<open>7 n - 1\<close> of \<open>n < 5\<close> bytes.\<close>

definition sleb_value :: "u8 list \<Rightarrow> u32" where
  "sleb_value bs = (if length bs < 5 then signed_take_bit (7 * length bs - 1) (word_of_nat (leb_value bs))
     else word_of_nat (leb_value bs))"

lemma shl_sar_signed_take_bit: "n < 32 \<Longrightarrow> shl_sar n x = signed_take_bit (31 - n) x"
proof (rule bit_word_eqI)
  fix k
  assume "n < 32" "k < LENGTH(32)"
  then have "k < 32 - n \<Longrightarrow> 31 - n \<le> k \<Longrightarrow> k = 31 - n" by linarith
  with \<open>n < 32\<close> \<open>k < LENGTH(32)\<close> show "bit (shl_sar n x) k = bit (signed_take_bit (31 - n) x) k"
    by (auto simp: shl_sar_def bit_simps min_def not_less not_le)
qed

lemma DecodeSigned_spec:
  "DecodeSignedLeb128 m p = (sleb_value (leb_bytes 5 m p), p + length (leb_bytes 5 m p))"
proof -
  have five: "leb_bytes 5 m p = leb_bytes (Suc (Suc (Suc (Suc (Suc 0))))) m p" by (simp add: eval_nat_numeral)
  have addr: "p + 2 = Suc (Suc p)" "p + 3 = Suc (Suc (Suc p))" "p + 4 = Suc (Suc (Suc (Suc p)))" by simp_all
  show ?thesis
    unfolding five DecodeSignedLeb128_def Let_def leb_bytes.simps sleb_value_def
    by (simp add: word_leb_Cons push_bit_or push_28 small_byte and_0x7f addr or.assoc shl_sar_signed_take_bit
        not_le [symmetric] del: leb_value.simps(2))
qed

lemma Checked_spec:
  "DecodeUnsignedLeb128Checked m p e =
     (if snd (DecodeUnsignedLeb128 m p) \<le> e then Some (DecodeUnsignedLeb128 m p) else None)"
  by (simp add: DecodeUnsignedLeb128Checked_def DecodeUnsignedLeb128_def Let_def)

lemma CheckedSigned_spec:
  "DecodeSignedLeb128Checked m p e =
     (if snd (DecodeSignedLeb128 m p) \<le> e then Some (DecodeSignedLeb128 m p) else None)"
  by (simp add: DecodeSignedLeb128Checked_def DecodeSignedLeb128_def Let_def)

section \<open>The bytes an encoder produces\<close>

lemma drop_bit_7_smaller: "drop_bit 7 v \<noteq> 0 \<Longrightarrow> unat (drop_bit 7 v) < unat (v :: u32)"
  by (rule drop_bit_7_less) auto

function uleb :: "u32 \<Rightarrow> u8 list" where
  "uleb v = (if drop_bit 7 v = 0 then [ucast (v AND 0x7f)]
             else (ucast (v AND 0x7f) OR 0x80) # uleb (drop_bit 7 v))"
  by auto
termination by (relation "measure unat") (auto simp: drop_bit_7_smaller)

function sleb :: "u32 \<Rightarrow> u32 \<Rightarrow> u8 list" where
  "sleb v extra = (if extra = 0 then [ucast (v AND 0x7f)]
                   else (ucast (v AND 0x7f) OR 0x80) # sleb (signed_drop_bit 7 v) (drop_bit 7 extra))"
  by auto
termination by (relation "measure (\<lambda>(v, extra). unat extra)") (auto simp: drop_bit_7_less)

declare uleb.simps [simp del] sleb.simps [simp del] EncodeUnsigned_loop.simps [simp del]
  EncodeUnsigned_loop_vec.simps [simp del] UpdateUnsigned_loop.simps [simp del]
  EncodeSigned_loop.simps [simp del] EncodeSigned_loop_vec.simps [simp del]

definition sleb128 :: "u32 \<Rightarrow> u8 list" where
  "sleb128 v = sleb v (drop_bit 6 (v XOR signed_drop_bit 31 v))"

fun terminated :: "u8 list \<Rightarrow> bool" where
  "terminated [] \<longleftrightarrow> False"
| "terminated [b] \<longleftrightarrow> b \<le> 0x7f"
| "terminated (b # c # bs) \<longleftrightarrow> 0x7f < b \<and> terminated (c # bs)"

lemma terminated_Cons: "bs \<noteq> [] \<Longrightarrow> terminated (b # bs) \<longleftrightarrow> 0x7f < b \<and> terminated bs"
  by (cases bs) auto

lemma and_0x7f_byte: "unat (ucast (v AND 0x7f :: u32) :: u8) = unat v mod 128"
  unfolding and_0x7f by (simp add: unsigned_ucast_eq take_bit_eq_mod unat_mod mod_mod_cancel)

lemma or_0x80: "unat ((b :: u8) OR 0x80) mod 128 = unat b mod 128" "0x7f < b OR 0x80"
proof -
  have eighty: "(0x80 :: u8) = push_bit 7 1" by simp
  have "take_bit 7 (b OR 0x80) = take_bit 7 b"
    unfolding eighty by (rule bit_word_eqI) (auto simp: bit_simps)
  then have "unat (take_bit 7 (b OR 0x80)) = unat (take_bit 7 b)" by simp
  then show "unat (b OR 0x80) mod 128 = unat b mod 128" by (simp add: take_bit_eq_mod unat_mod)
  have "bit (b OR 0x80) 7" unfolding eighty by (simp add: bit_simps)
  then have "\<not> fits 7 (b OR 0x80)" by (auto simp: fits_def)
  then show "0x7f < b OR 0x80" by (simp add: fits_unat word_less_nat_alt)
qed

lemma and_0x7f_terminator: "(ucast (v AND 0x7f :: u32) :: u8) \<le> 0x7f"
  by (simp add: word_le_nat_alt and_0x7f_byte)

lemma uleb_nonempty [simp]: "uleb v \<noteq> []" and sleb_nonempty [simp]: "sleb v e \<noteq> []"
  by (subst uleb.simps, simp, subst sleb.simps, simp)

lemma uleb_terminated [simp]: "terminated (uleb v)"
  by (induction v rule: uleb.induct)
    (subst uleb.simps, simp add: terminated_Cons or_0x80 and_0x7f_terminator)

lemma sleb_terminated [simp]: "terminated (sleb v e)"
  by (induction v e rule: sleb.induct)
    (subst sleb.simps, simp add: terminated_Cons or_0x80 and_0x7f_terminator)

lemma leb_value_uleb [simp]: "leb_value (uleb v) = unat v"
proof (induction v rule: uleb.induct)
  case (1 v)
  have "unat v = unat v mod 128 + 128 * unat (drop_bit 7 v)"
    by (simp add: drop_bit_eq_div unat_div)
  with 1 show ?case
    by (subst uleb.simps) (cases "drop_bit 7 v = 0"; simp add: or_0x80 and_0x7f_byte)
qed

lemma length_uleb: "0 < n \<Longrightarrow> length (uleb v) \<le> n \<longleftrightarrow> unat v < 2 ^ (7 * n)"
proof (induction v arbitrary: n rule: uleb.induct)
  case (1 v)
  have d: "unat (drop_bit 7 v) = unat v div 128" by (simp add: drop_bit_eq_div unat_div)
  then have z: "drop_bit 7 v = 0 \<longleftrightarrow> unat v < 128" by (auto simp: unat_eq_0 [symmetric])
  obtain k where n: "n = Suc k" using 1(2) by (cases n) auto
  have p: "(2 :: nat) ^ (7 * Suc k) = 128 * 2 ^ (7 * k)" by (simp add: power_add)
  show ?case
  proof (cases "drop_bit 7 v = 0")
    case True
    moreover have "(128 :: nat) \<le> 2 ^ (7 * n)" unfolding n p by simp
    ultimately show ?thesis using 1(2) z by (subst uleb.simps) simp
  next
    case False
    then have "k = 0 \<Longrightarrow> \<not> unat v < 2 ^ (7 * n)" using z n by simp
    moreover have "0 < k \<Longrightarrow> length (uleb (drop_bit 7 v)) \<le> k \<longleftrightarrow> unat v div 128 < 2 ^ (7 * k)"
      using 1(1) [OF False] d by simp
    moreover have "unat v div 128 < 2 ^ (7 * k) \<longleftrightarrow> unat v < 2 ^ (7 * n)"
      unfolding n p by (simp add: div_less_iff_less_mult mult.commute)
    ultimately show ?thesis using False n by (subst uleb.simps) (cases "k = 0"; simp)
  qed
qed

lemma length_uleb_5 [simp]: "length (uleb v) \<le> 5"
proof -
  have "unat v < 2 ^ 32" using unsigned_less [of v] by simp
  then show ?thesis using length_uleb [of 5 v] by simp
qed


lemma length_sleb: "unat e < 2 ^ (7 * n) \<Longrightarrow> length (sleb v e) \<le> Suc n"
proof (induction v e arbitrary: n rule: sleb.induct)
  case (1 v e)
  have d: "unat (drop_bit 7 e) = unat e div 128" by (simp add: drop_bit_eq_div unat_div)
  show ?case
  proof (cases "e = 0")
    case True
    then show ?thesis by (simp add: sleb.simps)
  next
    case False
    then obtain k where n: "n = Suc k" using 1(2) by (cases n) (auto simp: unat_gt_0 [symmetric])
    then have "unat (drop_bit 7 e) < 2 ^ (7 * k)"
      using 1(2) by (simp add: d div_less_iff_less_mult power_add mult.commute)
    with 1(1) [OF False] False n show ?thesis by (subst sleb.simps) simp
  qed
qed

lemma sleb_last: "drop_bit (7 * (length (sleb v e) - 1)) e = 0"
proof (induction v e rule: sleb.induct)
  case (1 v e)
  show ?case
  proof (cases "e = 0")
    case False
    obtain n where n: "length (sleb (signed_drop_bit 7 v) (drop_bit 7 e)) = Suc n"
      by (cases "sleb (signed_drop_bit 7 v) (drop_bit 7 e)") simp_all
    with 1 [OF False] have "drop_bit (7 * n + 7) e = 0" by (simp only: drop_bit_drop_bit) simp
    with False n show ?thesis by (subst sleb.simps) (simp add: add.commute)
  qed simp
qed

lemma leb_value_sleb: "word_of_nat (leb_value (sleb v e)) = take_bit (7 * length (sleb v e)) v"
proof (induction v e rule: sleb.induct)
  case (1 v e)
  have byte: "take_bit 7 (ucast (ucast (take_bit 7 v) OR 0x80 :: u8) :: u32) = take_bit 7 v"
  proof (rule bit_word_eqI)
    fix n
    have "n < 7 \<Longrightarrow> \<not> bit (push_bit 7 1 :: u8) n" by (simp only: bit_push_bit_iff) simp
    then show "bit (take_bit 7 (ucast (ucast (take_bit 7 v) OR 0x80 :: u8) :: u32)) n = bit (take_bit 7 v) n"
      by (simp only: bit_take_bit_iff bit_ucast_iff bit_or_iff) auto
  qed
  show ?case
  proof (cases "e = 0")
    case True
    then have "sleb v e = [ucast (v AND 0x7f)]" by (simp add: sleb.simps)
    then show ?thesis
      using word_leb_Cons [of "ucast (v AND 0x7f)" "[]"]
      by (auto intro!: bit_word_eqI simp: and_0x7f bit_simps simp del: leb_value.simps(2))
  next
    case False
    let ?r = "sleb (signed_drop_bit 7 v) (drop_bit 7 e)"
    have s: "sleb v e = (ucast (v AND 0x7f) OR 0x80) # ?r" using False by (simp add: sleb.simps)
    have "word_of_nat (leb_value (sleb v e)) = take_bit 7 v OR push_bit 7 (take_bit (7 * length ?r) (signed_drop_bit 7 v))"
      unfolding s word_leb_Cons using 1 [OF False] by (simp add: and_0x7f byte)
    also have "\<dots> = take_bit (7 * length (sleb v e)) v"
      unfolding s by (rule bit_word_eqI) (auto simp: bit_simps)
    finally show ?thesis .
  qed
qed

lemma sleb_value_sleb128 [simp]: "sleb_value (sleb128 v) = v"
proof -
  let ?x = "v XOR signed_drop_bit 31 v"
  let ?n = "length (sleb128 v)"
  obtain n where n: "?n = Suc n" by (cases "sleb128 v") (simp_all add: sleb128_def)
  have "drop_bit (7 * n) (drop_bit 6 ?x) = 0"
    using sleb_last [of v "drop_bit 6 ?x"] n by (simp add: sleb128_def)
  then have "\<not> bit (drop_bit (7 * n + 6) ?x) k" for k by (simp add: drop_bit_drop_bit)
  then have "\<not> bit ?x (7 * n + 6 + k)" for k by (simp only: bit_drop_bit_eq comp_def) (simp add: add.commute)
  then have x: "\<not> bit ?x k" if "7 * n + 6 \<le> k" for k using that le_Suc_ex by blast
  have sar: "bit (signed_drop_bit 31 v) k = bit v 31" if "k < 32" for k
    using that by (cases "k = 0") (auto simp: bit_simps)
  have sign: "bit v k = bit v 31" if "7 * n + 6 \<le> k" "k < 32" for k
    using x [OF that(1)] sar [OF that(2)] by (simp only: bit_xor_iff) blast
  note v = leb_value_sleb [of v "drop_bit 6 ?x", folded sleb128_def, unfolded n]
  show ?thesis
  proof (cases "?n < 5")
    case True
    have "signed_take_bit (7 * n + 6) (take_bit (7 * Suc n) v) = v"
    proof (rule bit_word_eqI)
      fix k
      assume k: "k < LENGTH(32)"
      have "bit v k = bit v (7 * n + 6)" if "7 * n + 6 \<le> k"
        using sign [OF that] sign [of "7 * n + 6"] k that by simp
      with k show "bit (signed_take_bit (7 * n + 6) (take_bit (7 * Suc n) v)) k = bit v k"
        by (cases "7 * n + 6 \<le> k") (auto simp: bit_signed_take_bit_iff bit_take_bit_iff min_def)
    qed
    then show ?thesis using True n v by (simp add: sleb_value_def add.commute)
  next
    case False
    then have "take_bit (7 * Suc n) v = v" using n by (intro take_bit_word_eq_self) simp
    then show ?thesis using False n v by (simp add: sleb_value_def)
  qed
qed


lemma length_sleb128_5 [simp]: "length (sleb128 v) \<le> 5"
proof -
  let ?x = "v XOR signed_drop_bit 31 v"
  have "fits 25 (drop_bit 6 ?x)"
    unfolding fits_def
  proof (intro allI impI)
    fix i :: nat
    assume "25 \<le> i"
    then show "\<not> bit (drop_bit 6 ?x) i"
      by (cases "i = 25")
        (auto simp: bit_drop_bit_eq bit_xor_iff bit_signed_drop_bit_iff dest: bit_imp_le_length)
  qed
  then have "unat (drop_bit 6 ?x) < 2 ^ (7 * 4)" by (simp add: fits_unat)
  from length_sleb [OF this] show ?thesis by (simp add: sleb128_def)
qed

section \<open>Encoders write the bytes\<close>

lemma leb_bytes_terminated:
  "holds m p bs \<Longrightarrow> terminated bs \<Longrightarrow> length bs \<le> n \<Longrightarrow> leb_bytes n m p = bs"
proof (induction bs arbitrary: p n rule: terminated.induct)
  case (2 b)
  then show ?case by (cases n) (auto simp: holds_Cons)
next
  case (3 b c bs)
  then show ?case by (cases n) (auto simp: holds_Cons)
qed simp

lemma Encode_loop_bytes:
  "EncodeUnsigned_loop m dest out v =
     (store m dest (if v = 0 then [out] else (out OR 0x80) # uleb v),
      dest + length (if v = 0 then [out] else (out OR 0x80) # uleb v))"
proof (induction m dest out v rule: EncodeUnsigned_loop.induct)
  case (1 m dest out v)
  show ?case
  proof (cases "v = 0")
    case True
    then show ?thesis by (simp add: EncodeUnsigned_loop.simps fun_upd_def)
  next
    case False
    have "EncodeUnsigned_loop m dest out v =
        EncodeUnsigned_loop (m(dest := out OR 0x80)) (dest + 1) (ucast (v AND 0x7f)) (drop_bit 7 v)"
      using False by (subst EncodeUnsigned_loop.simps) simp
    with 1 [OF False] False show ?thesis
      by (cases "drop_bit 7 v = 0") (simp_all add: uleb.simps [of v] fun_upd_def)
  qed
qed

lemma EncodeUnsigned_bytes:
  "EncodeUnsignedLeb128 m dest v = (store m dest (uleb v), dest + length (uleb v))"
  by (simp add: EncodeUnsignedLeb128_def Encode_loop_bytes uleb.simps [of v])

lemma Encode_loop_vec_bytes:
  "EncodeUnsigned_loop_vec dest out v =
     dest @ (if v = 0 then [out] else (out OR 0x80) # uleb v)"
proof (induction dest out v rule: EncodeUnsigned_loop_vec.induct)
  case (1 dest out v)
  then show ?case
    by (subst EncodeUnsigned_loop_vec.simps) (simp add: uleb.simps [of v])
qed

lemma EncodeUnsigned_vec_bytes: "EncodeUnsignedLeb128_vec dest v = dest @ uleb v"
  by (simp add: EncodeUnsignedLeb128_vec_def Encode_loop_vec_bytes uleb.simps [of v])

lemma EncodeSigned_loop_bytes:
  "EncodeSigned_loop m dest (ucast (v AND 0x7f)) v extra =
     (store m dest (sleb v extra), dest + length (sleb v extra))"
proof (induction v extra arbitrary: m dest rule: sleb.induct)
  case (1 v e)
  then show ?case by (subst EncodeSigned_loop.simps, subst (1 2) sleb.simps) (simp add: Let_def)
qed

lemma EncodeSigned_loop_vec_bytes:
  "EncodeSigned_loop_vec dest (ucast (v AND 0x7f)) v extra = dest @ sleb v extra"
proof (induction v extra arbitrary: dest rule: sleb.induct)
  case (1 v e)
  then show ?case by (subst EncodeSigned_loop_vec.simps, subst sleb.simps) (simp add: Let_def)
qed

lemma EncodeSigned_bytes:
  "EncodeSignedLeb128 m dest v = (store m dest (sleb128 v), dest + length (sleb128 v))"
  "EncodeSignedLeb128_vec data v = data @ sleb128 v"
  by (simp_all add: EncodeSignedLeb128_def EncodeSignedLeb128_vec_def sleb128_def EncodeSigned_loop_bytes
      EncodeSigned_loop_vec_bytes)

section \<open>Sizes\<close>

lemma bits_of_or_1: "0 < n \<Longrightarrow> 32 - CLZ (v OR 1 :: u32) \<le> n \<longleftrightarrow> unat v < 2 ^ n"
proof -
  assume n: "0 < n"
  have "v OR 1 \<noteq> 0" by (simp add: or_eq_0_iff)
  then have "32 - CLZ (v OR 1) = MinimumBitsToStore (v OR 1)"
    using CLZ_facts(1) [of "v OR 1"] by (simp add: MinimumBitsToStore_def MostSignificantBit_def)
  moreover have "unat (v OR 1) < 2 ^ n \<longleftrightarrow> unat v < 2 ^ n"
    using n by (auto simp: unat_less_exp_iff_bits bit_or_iff bit_1_iff)
  ultimately show ?thesis by (simp add: MinimumBitsToStore_le_iff)
qed

lemma size_div_7: "k \<le> 33 \<Longrightarrow> drop_bit 8 ((6 + word_of_nat k) * 37 :: u32) = word_of_nat ((k + 6) div 7)"
proof -
  have "\<forall>k \<in> set [0..<34]. drop_bit 8 ((6 + word_of_nat k) * 37 :: u32) = word_of_nat ((k + 6) div 7)"
    by code_simp
  then show "k \<le> 33 \<Longrightarrow> drop_bit 8 ((6 + word_of_nat k) * 37 :: u32) = word_of_nat ((k + 6) div 7)" by simp
qed

lemma length_by_bits:
  assumes "\<And>n. 0 < n \<Longrightarrow> l \<le> n \<longleftrightarrow> k \<le> 7 * n" and "0 < (l :: nat)" "0 < k"
  shows "l = (k + 6) div 7"
proof -
  have "l \<le> (k + 6) div 7" using assms(1) [of "(k + 6) div 7"] assms(3) by (simp add: div_greater_zero_iff)
  moreover have "(k + 6) div 7 \<le> l" using assms(1) [of l] assms(2) by simp
  ultimately show ?thesis by simp
qed

lemma UnsignedLeb128Size_length: "UnsignedLeb128Size v = word_of_nat (length (uleb v))"
proof -
  let ?k = "32 - CLZ (v OR 1)"
  have nz: "v OR 1 \<noteq> 0" by (simp add: or_eq_0_iff)
  then have k: "0 < ?k" "?k \<le> 33" and c: "CLZ (v OR 1) \<le> 32" using CLZ_facts(1) [OF nz] by simp_all
  have "length (uleb v) = (?k + 6) div 7"
    using k(1) by (intro length_by_bits) (simp_all add: length_uleb bits_of_or_1)
  moreover have "6 + 32 - word_of_nat (CLZ (v OR 1)) = (6 + word_of_nat ?k :: u32)"
    using c by (simp add: of_nat_diff)
  ultimately show ?thesis
    using size_div_7 [OF k(2)] by (simp only: UnsignedLeb128Size_def Let_def)
qed

lemma drop_bit_0_iff: "drop_bit n (x :: u32) = 0 \<longleftrightarrow> unat x < 2 ^ n"
proof -
  have "drop_bit n x = 0 \<longleftrightarrow> (\<forall>k. \<not> bit x (n + k))"
    using bit_imp_le_length [of x]
    by (simp only: bit_eq_iff bit_drop_bit_eq comp_def bit_0_eq bot_apply) (force dest: add_lessD1)
  also have "\<dots> \<longleftrightarrow> (\<forall>k \<ge> n. \<not> bit x k)" by (auto simp: le_iff_add)
  finally show ?thesis by (simp only: unat_less_exp_iff_bits)
qed

lemma length_sleb_iff: "0 < n \<Longrightarrow> length (sleb v e) \<le> n \<longleftrightarrow> unat e < 2 ^ (7 * (n - 1))"
proof
  assume "length (sleb v e) \<le> n"
  then have "drop_bit (7 * (n - 1)) e = drop_bit (7 * (n - length (sleb v e))) (drop_bit (7 * (length (sleb v e) - 1)) e)"
    by (cases "sleb v e") (simp_all add: drop_bit_drop_bit algebra_simps)
  also have "\<dots> = 0" by (simp only: sleb_last drop_bit_of_0)
  finally show "unat e < 2 ^ (7 * (n - 1))" by (simp only: drop_bit_0_iff)
next
  assume "0 < n" "unat e < 2 ^ (7 * (n - 1))"
  then show "length (sleb v e) \<le> n" using length_sleb [of e "n - 1" v] by simp
qed

lemma SignedLeb128Size_length: "SignedLeb128Size v = word_of_nat (length (sleb128 v))"
proof -
  let ?x = "v XOR signed_drop_bit 31 v"
  let ?k = "32 - CLZ (?x OR 1)"
  have nz: "?x OR 1 \<noteq> 0" by (simp add: or_eq_0_iff)
  then have k: "0 < ?k + 1" "?k + 1 \<le> 33" and c: "CLZ (?x OR 1) \<le> 32" using CLZ_facts(1) [OF nz] by simp_all
  have "length (sleb128 v) \<le> n \<longleftrightarrow> ?k + 1 \<le> 7 * n" if "0 < n" for n
  proof -
    have "length (sleb128 v) \<le> n \<longleftrightarrow> drop_bit (7 * (n - 1) + 6) ?x = 0"
      using that by (simp add: sleb128_def length_sleb_iff drop_bit_drop_bit flip: drop_bit_0_iff)
    also have "\<dots> \<longleftrightarrow> ?k \<le> 7 * (n - 1) + 6"
      by (simp only: drop_bit_0_iff) (simp add: bits_of_or_1)
    also have "\<dots> \<longleftrightarrow> ?k + 1 \<le> 7 * n" using that by linarith
    finally show ?thesis .
  qed
  then have "length (sleb128 v) = (?k + 1 + 6) div 7"
    using k(1) by (intro length_by_bits) (simp_all add: sleb128_def)
  moreover have "1 + 6 + 32 - word_of_nat (CLZ (?x OR 1)) = (6 + word_of_nat (?k + 1) :: u32)"
    using c by (simp add: of_nat_diff)
  ultimately show ?thesis
    using size_div_7 [OF k(2)] by (simp only: SignedLeb128Size_def Let_def)
qed

section \<open>Padding and search\<close>

lemma terminated_snoc: "terminated (xs @ [b]) \<longleftrightarrow> (\<forall>x \<in> set xs. 0x7f < x) \<and> b \<le> 0x7f"
  by (induction xs) (auto simp: terminated_Cons)

lemma leb_value_append: "leb_value (xs @ ys) = leb_value xs + 128 ^ length xs * leb_value ys"
  by (induction xs) (simp_all add: algebra_simps)

lemma UpdateUnsigned_loop_ok:
  assumes "holds m p bs" "terminated bs" "e = p + length bs" "e \<le> old_end"
  shows "\<exists>bs'. holds (UpdateUnsigned_loop m e old_end) p bs' \<and> terminated bs' \<and>
    leb_value bs' = leb_value bs \<and> length bs' = old_end - p \<and>
    (\<forall>a. a < p \<or> old_end \<le> a \<longrightarrow> UpdateUnsigned_loop m e old_end a = m a)"
  using assms
proof (induction m e old_end arbitrary: bs rule: UpdateUnsigned_loop.induct)
  case (1 m e old_end)
  show ?case
  proof (cases "e < old_end")
    case False
    with 1 show ?thesis
      by (subst (1 2) UpdateUnsigned_loop.simps) (auto intro!: exI [of _ bs])
  next
    case True
    obtain xs b where bs: "bs = xs @ [b]" using 1(3) by (cases bs rule: rev_cases) auto
    let ?m = "m(e - 1 := m (e - 1) OR 0x80, e := 0)" and ?bs = "xs @ [b OR 0x80, 0]"
    have b: "m (e - 1) = b" using 1(2,4) bs by (simp add: holds_append holds_Cons)
    have "holds ?m p xs" by (rule holds_other [of m]) (use 1(2,4) bs in \<open>auto simp: holds_append\<close>)
    then have h: "holds ?m p ?bs"
      using 1(4) bs b by (simp add: holds_append holds_Cons)
    have t: "terminated ?bs"
      using 1(3) bs terminated_snoc [of "xs @ [b OR 0x80]" 0] by (auto simp: terminated_snoc or_0x80)
    have v: "leb_value ?bs = leb_value bs" by (simp add: bs leb_value_append or_0x80)
    have e: "p \<le> e - 1" "e + 1 = p + length ?bs" "e + 1 \<le> old_end" using 1(4) bs True by simp_all
    from 1(1) [OF True h t e(2,3)] obtain bs' where
      "holds (UpdateUnsigned_loop ?m (e + 1) old_end) p bs'" "terminated bs'" "leb_value bs' = leb_value ?bs"
      "length bs' = old_end - p" "\<forall>a. a < p \<or> old_end \<le> a \<longrightarrow> UpdateUnsigned_loop ?m (e + 1) old_end a = ?m a"
      by blast
    moreover have "UpdateUnsigned_loop m e old_end = UpdateUnsigned_loop ?m (e + 1) old_end"
      using True by (subst UpdateUnsigned_loop.simps) simp
    ultimately show ?thesis using v True e(1) by (intro exI [of _ bs']) auto
  qed
qed

lemma ReverseSearch_loop_ok:
  assumes "\<forall>x \<in> set xs. 0x7f < x" "holds m (Suc p) xs" "m p \<le> 0x7f"
  shows "ReverseSearch_loop m (Suc p + length xs) = Some (Suc p)"
  using assms
proof (induction xs rule: rev_induct)
  case (snoc x xs)
  then have "m (Suc p + length xs) = x" by (simp add: holds_append holds_Cons)
  with snoc show ?case by (auto simp: holds_append IsLeb128Terminator_def)
qed (simp add: IsLeb128Terminator_def)

lemma leb_bytes_length: "length (leb_bytes n m p) \<le> n"
  by (induction n arbitrary: p) auto

lemma leb_value_less: "leb_value bs < 128 ^ length bs"
proof (induction bs)
  case (Cons b bs)
  have "unat b mod 128 < 128" by simp
  with Cons show ?case by simp
qed simp

lemma length_uleb_bytes: "bs \<noteq> [] \<Longrightarrow> length (uleb (word_of_nat (leb_value bs))) \<le> length bs"
proof -
  assume "bs \<noteq> []"
  have "unat (word_of_nat (leb_value bs) :: u32) \<le> leb_value bs" by (simp add: unsigned_of_nat take_bit_eq_mod)
  also have "\<dots> < 2 ^ (7 * length bs)" using leb_value_less [of bs] by (simp add: power_mult)
  finally show ?thesis using \<open>bs \<noteq> []\<close> by (simp add: length_uleb)
qed

end
