(* ===== verification/Leb128Codec.thy ===== *)
theory Leb128Codec
  imports Leb128
begin

text \<open>
  The contract of a LEB128 codec: an encoder that appends to a vector, a decoder, and its bounds
  checked variant.  Sequences of values written by \<open>Leb128Encoder\<close> are read back by either decoder;
  the signed and the unsigned codec of \<^verbatim>\<open>libartbase/base/leb128.h\<close> are the two instances.
\<close>

section \<open>The interface\<close>

text \<open>Reading a number of values in a row.\<close>

fun decode_seq :: "(mem \<Rightarrow> nat \<Rightarrow> 'v \<times> nat) \<Rightarrow> nat \<Rightarrow> mem \<Rightarrow> nat \<Rightarrow> 'v list \<times> nat" where
  "decode_seq dec 0 m p = ([], p)"
| "decode_seq dec (Suc n) m p = (let (v, p') = dec m p; (vs, p'') = decode_seq dec n m p' in (v # vs, p''))"

fun decode_seq_checked ::
  "(mem \<Rightarrow> nat \<Rightarrow> nat \<Rightarrow> ('v \<times> nat) option) \<Rightarrow> nat \<Rightarrow> mem \<Rightarrow> nat \<Rightarrow> nat \<Rightarrow> ('v list \<times> nat) option" where
  "decode_seq_checked dec 0 m p e = Some ([], p)"
| "decode_seq_checked dec (Suc n) m p e =
     (case dec m p e of None \<Rightarrow> None
      | Some (v, p') \<Rightarrow> map_option (\<lambda>(vs, p''). (v # vs, p'')) (decode_seq_checked dec n m p' e))"

locale leb128_codec =
  fixes bytes :: "'v \<Rightarrow> u8 list"
    and push :: "u8 list \<Rightarrow> 'v \<Rightarrow> u8 list"
    and insert_back :: "u8 list \<Rightarrow> 'v list \<Rightarrow> u8 list"
    and decode :: "mem \<Rightarrow> nat \<Rightarrow> 'v \<times> nat"
    and checked :: "mem \<Rightarrow> nat \<Rightarrow> nat \<Rightarrow> ('v \<times> nat) option"
  assumes push_bytes: "push data v = data @ bytes v"
    and insert_Nil: "insert_back data [] = data"
    and insert_Cons: "insert_back data (v # vs) = insert_back (push data v) vs"
    and decode_bytes: "holds m p (bytes v) \<Longrightarrow> decode m p = (v, p + length (bytes v))"
    and checked_decode: "checked m p e = (if snd (decode m p) \<le> e then Some (decode m p) else None)"
begin

lemma insert_back_bytes: "insert_back data vs = data @ concat (map bytes vs)"
  by (induction vs arbitrary: data) (simp_all add: insert_Nil insert_Cons push_bytes)

lemma decode_seq_bytes:
  "holds m p (concat (map bytes vs)) \<Longrightarrow>
     decode_seq decode (length vs) m p = (vs, p + length (concat (map bytes vs)))"
  by (induction vs arbitrary: p) (auto simp: holds_append decode_bytes)

lemma decode_seq_checked_bytes:
  assumes "holds m p (concat (map bytes vs))"
  shows "decode_seq_checked checked (length vs) m p e =
    (if vs = [] \<or> p + length (concat (map bytes vs)) \<le> e
     then Some (vs, p + length (concat (map bytes vs))) else None)"
  using assms
proof (induction vs arbitrary: p)
  case (Cons v vs)
  then have d: "decode m p = (v, p + length (bytes v))"
    and h: "holds m (p + length (bytes v)) (concat (map bytes vs))"
    by (simp_all add: holds_append decode_bytes)
  show ?case
    using Cons.IH [OF h] by (cases "p + length (bytes v) \<le> e") (auto simp: checked_decode d)
qed simp

lemma insert_back_roundtrip:
  assumes "holds m p (insert_back [] vs)"
  shows "decode_seq decode (length vs) m p = (vs, p + length (insert_back [] vs))"
    and "decode_seq_checked checked (length vs) m p (p + length (insert_back [] vs)) =
      Some (vs, p + length (insert_back [] vs))"
    and "vs \<noteq> [] \<Longrightarrow> e < p + length (insert_back [] vs) \<Longrightarrow> decode_seq_checked checked (length vs) m p e = None"
  using assms decode_seq_bytes [of m p vs] decode_seq_checked_bytes [of m p vs]
  by (simp_all add: insert_back_bytes)

end

lemma InsertBack_bytes:
  "PushBackUnsigned data v = data @ uleb v" "PushBackSigned data v = data @ sleb128 v"
  by (simp_all add: PushBackUnsigned_def PushBackSigned_def EncodeUnsigned_vec_bytes EncodeSigned_bytes)

lemma decode_bytes_uleb: "holds m p (uleb v) \<Longrightarrow> DecodeUnsignedLeb128 m p = (v, p + length (uleb v))"
  by (simp add: Decode_spec leb_bytes_terminated)

lemma decode_bytes_sleb: "holds m p (sleb128 v) \<Longrightarrow> DecodeSignedLeb128 m p = (v, p + length (sleb128 v))"
proof -
  assume "holds m p (sleb128 v)"
  moreover have "terminated (sleb128 v)" unfolding sleb128_def by (rule sleb_terminated)
  ultimately have "leb_bytes 5 m p = sleb128 v" by (simp add: leb_bytes_terminated)
  then show ?thesis by (simp add: DecodeSigned_spec)
qed

lemma unat_Leb128Size:
  "unat (UnsignedLeb128Size v) = length (uleb v)" "unat (SignedLeb128Size v) = length (sleb128 v)"
proof -
  have "unat (word_of_nat n :: u32) = n" if "n \<le> 5" for n
    using that by (simp add: unsigned_of_nat take_bit_eq_mod)
  then show "unat (UnsignedLeb128Size v) = length (uleb v)" "unat (SignedLeb128Size v) = length (sleb128 v)"
    by (simp_all add: UnsignedLeb128Size_length SignedLeb128Size_length)
qed

interpretation uleb128: leb128_codec uleb PushBackUnsigned InsertBackUnsigned
  DecodeUnsignedLeb128 DecodeUnsignedLeb128Checked
  by unfold_locales (simp_all add: InsertBack_bytes decode_bytes_uleb Checked_spec)

interpretation sleb128: leb128_codec sleb128 PushBackSigned InsertBackSigned
  DecodeSignedLeb128 DecodeSignedLeb128Checked
  by unfold_locales (simp_all add: InsertBack_bytes decode_bytes_sleb CheckedSigned_spec)

section \<open>Properties\<close>

text \<open>
  C20.  The unrolled decoder reads what LEB128 defines: the little-endian base-128 value, modulo
  \<open>2 ^ 32\<close>, of the bytes up to and including the first one without the continuation bit, at most
  five, and it stops right behind them.
\<close>

theorem DecodeUnsignedLeb128_meaning:
  "DecodeUnsignedLeb128 m p =
     (word_of_nat (leb_value (leb_bytes 5 m p)), p + length (leb_bytes 5 m p))"
  by (rule Decode_spec)

text \<open>
  C8.  Whatever sequence of unsigned values \<open>Leb128Encoder\<close> appends, reading the same number of values
  gives the sequence back and ends at the end of the data; the bounds checked decoder agrees, and
  fails when the buffer ends earlier.
\<close>

theorem unsigned_sequence_roundtrip:
  assumes "holds m p (InsertBackUnsigned [] vs)"
  shows "decode_seq DecodeUnsignedLeb128 (length vs) m p = (vs, p + length (InsertBackUnsigned [] vs)) \<and>
    decode_seq_checked DecodeUnsignedLeb128Checked (length vs) m p (p + length (InsertBackUnsigned [] vs)) =
      Some (vs, p + length (InsertBackUnsigned [] vs)) \<and>
    (\<forall>e. vs \<noteq> [] \<and> e < p + length (InsertBackUnsigned [] vs) \<longrightarrow>
       decode_seq_checked DecodeUnsignedLeb128Checked (length vs) m p e = None)"
  using uleb128.insert_back_roundtrip [OF assms] by blast

theorem unsigned_sequence_roundtrip_witness:
  "decode_seq DecodeUnsignedLeb128 2 (store (\<lambda>_. 0) 8 (InsertBackUnsigned [] [300, 5])) 8 =
     ([300, 5], 8 + length (InsertBackUnsigned [] [300, 5]))"
  using unsigned_sequence_roundtrip [OF holds_store, of "[300, 5]" "\<lambda>_. 0" 8] by (simp add: numeral_2_eq_2)

text \<open>C12.  The same for signed values.\<close>

theorem signed_sequence_roundtrip:
  assumes "holds m p (InsertBackSigned [] vs)"
  shows "decode_seq DecodeSignedLeb128 (length vs) m p = (vs, p + length (InsertBackSigned [] vs)) \<and>
    decode_seq_checked DecodeSignedLeb128Checked (length vs) m p (p + length (InsertBackSigned [] vs)) =
      Some (vs, p + length (InsertBackSigned [] vs)) \<and>
    (\<forall>e. vs \<noteq> [] \<and> e < p + length (InsertBackSigned [] vs) \<longrightarrow>
       decode_seq_checked DecodeSignedLeb128Checked (length vs) m p e = None)"
  using sleb128.insert_back_roundtrip [OF assms] by blast

theorem signed_sequence_roundtrip_witness:
  "decode_seq DecodeSignedLeb128 2 (store (\<lambda>_. 0) 8 (InsertBackSigned [] [- 300, 64])) 8 =
     ([- 300, 64], 8 + length (InsertBackSigned [] [- 300, 64]))"
  using signed_sequence_roundtrip [OF holds_store, of "[- 300, 64]" "\<lambda>_. 0" 8] by (simp add: numeral_2_eq_2)

text \<open>
  C21.  The size functions, with their division by multiplication, give the number of bytes the
  encoders write, and the encoders write nowhere else.
\<close>

theorem Leb128Size_is_encoded_length:
  "snd (EncodeUnsignedLeb128 m dest v) = dest + unat (UnsignedLeb128Size v) \<and>
   snd (EncodeSignedLeb128 m dest v) = dest + unat (SignedLeb128Size v) \<and>
   (\<forall>a. a < dest \<or> dest + unat (UnsignedLeb128Size v) \<le> a \<longrightarrow> fst (EncodeUnsignedLeb128 m dest v) a = m a) \<and>
   (\<forall>a. a < dest \<or> dest + unat (SignedLeb128Size v) \<le> a \<longrightarrow> fst (EncodeSignedLeb128 m dest v) a = m a)"
  by (simp add: unat_Leb128Size EncodeUnsigned_bytes EncodeSigned_bytes store_other)

theorem Leb128Size_is_encoded_length_witness:
  "fst (EncodeUnsignedLeb128 (\<lambda>_. 7) 10 300) 9 = 7"
  using Leb128Size_is_encoded_length [of "\<lambda>_. 7" 10 300] by simp

text \<open>
  C13.  Overwriting an encoded value in place with one that needs no more bytes keeps the extent of
  the encoding: the new value decodes at the same address, the decoder ends where it ended before,
  and no other byte changes.
\<close>

theorem UpdateUnsignedLeb128_in_place:
  assumes "DecodeUnsignedLeb128 m dest = (old_value, old_end)"
    and "UnsignedLeb128Size v \<le> UnsignedLeb128Size old_value"
  shows "DecodeUnsignedLeb128 (UpdateUnsignedLeb128 m dest v) dest = (v, old_end) \<and>
    (\<forall>a. a < dest \<or> old_end \<le> a \<longrightarrow> UpdateUnsignedLeb128 m dest v a = m a)"
proof -
  let ?m = "store m dest (uleb v)" and ?e = "dest + length (uleb v)"
  have old: "old_value = word_of_nat (leb_value (leb_bytes 5 m dest))" "old_end = dest + length (leb_bytes 5 m dest)"
    using assms(1) by (simp_all add: Decode_spec)
  have "length (uleb old_value) \<le> length (leb_bytes 5 m dest)"
    unfolding old(1) by (rule length_uleb_bytes) (simp add: eval_nat_numeral)
  with assms(2) old(2) have le: "?e \<le> old_end" by (simp add: word_le_nat_alt unat_Leb128Size)
  from UpdateUnsigned_loop_ok [OF holds_store uleb_terminated refl le, of m] obtain bs where bs:
    "holds (UpdateUnsigned_loop ?m ?e old_end) dest bs" "terminated bs" "leb_value bs = unat v"
    "length bs = old_end - dest"
    "\<forall>a. a < dest \<or> old_end \<le> a \<longrightarrow> UpdateUnsigned_loop ?m ?e old_end a = ?m a" by auto
  have "UpdateUnsignedLeb128 m dest v = UpdateUnsigned_loop ?m ?e old_end"
    by (simp add: UpdateUnsignedLeb128_def assms(1) EncodeUnsigned_bytes)
  moreover have "leb_bytes 5 (UpdateUnsigned_loop ?m ?e old_end) dest = bs"
    using bs old(2) leb_bytes_length [of 5 m dest] by (intro leb_bytes_terminated) auto
  ultimately show ?thesis
    using bs le by (auto simp: Decode_spec store_other)
qed

theorem UpdateUnsignedLeb128_in_place_witness:
  "DecodeUnsignedLeb128 (UpdateUnsignedLeb128 (store (\<lambda>_. 0) 8 [0xac, 0x02]) 8 5) 8 = (5, 10)"
proof -
  have "DecodeUnsignedLeb128 (store (\<lambda>_. 0) 8 [0xac, 0x02]) 8 = (300, 10)" by code_simp
  moreover have "UnsignedLeb128Size 5 \<le> UnsignedLeb128Size 300" by code_simp
  ultimately show ?thesis using UpdateUnsignedLeb128_in_place by blast
qed

text \<open>
  C22.  Searching backwards from the end of an encoded value finds its first byte, provided another
  encoded value stands before it.
\<close>

theorem ReverseSearchUnsignedLeb128_finds_start:
  assumes "holds m p (EncodeUnsignedLeb128_vec (EncodeUnsignedLeb128_vec [] v) w)"
  shows "ReverseSearchUnsignedLeb128 m (p + length (uleb v) + unat (UnsignedLeb128Size w)) =
    Some (p + unat (UnsignedLeb128Size v))"
proof -
  obtain xs x ys y where xy: "uleb v = xs @ [x]" "uleb w = ys @ [y]"
    by (metis rev_exhaust uleb_nonempty)
  have t: "x \<le> 0x7f" "\<forall>b \<in> set ys. 0x7f < b"
    using uleb_terminated [of v] uleb_terminated [of w] unfolding xy terminated_snoc by auto
  from assms have "m (p + length xs) = x" "holds m (Suc (p + length xs)) ys"
    by (auto simp: EncodeUnsigned_vec_bytes xy holds_append holds_Cons)
  with ReverseSearch_loop_ok [OF t(2), of m "p + length xs"] t(1) show ?thesis
    by (simp add: ReverseSearchUnsignedLeb128_def unat_Leb128Size xy)
qed

theorem ReverseSearchUnsignedLeb128_finds_start_witness:
  "ReverseSearchUnsignedLeb128 (store (\<lambda>_. 0) 8 (EncodeUnsignedLeb128_vec (EncodeUnsignedLeb128_vec [] 300) 5))
     (8 + length (uleb 300) + unat (UnsignedLeb128Size 5)) = Some (8 + unat (UnsignedLeb128Size 300))"
  by (rule ReverseSearchUnsignedLeb128_finds_start [OF holds_store])

end
