(* ===== verification/Utf.thy ===== *)
theory Utf
  imports Prelude
begin

text \<open>
  Modified UTF-8 (\<^verbatim>\<open>libdexfile/dex/utf.h\<close>, \<^verbatim>\<open>utf-inl.h\<close>, \<^verbatim>\<open>utf.cc\<close>).  UTF-8 data is read from memory at
  a pointer; UTF-16 data is a list of 16-bit characters; what a conversion writes is the list of the
  characters or bytes written, in order.
\<close>

section \<open>Decoding one character\<close>

definition GetTrailingUtf16Char :: "u32 \<Rightarrow> u16" where
  "GetTrailingUtf16Char maybe_pair = ucast (drop_bit 16 maybe_pair)"

definition GetLeadingUtf16Char :: "u32 \<Rightarrow> u16" where
  "GetLeadingUtf16Char maybe_pair = ucast (maybe_pair AND 0x0000FFFF)"

definition surrogate_pair_of :: "u32 \<Rightarrow> u32" where
  "surrogate_pair_of code_point =
     (((drop_bit 10 code_point + 0xd7c0) AND 0xffff) OR push_bit 16 ((code_point AND 0x03ff) + 0xdc00))"

definition GetUtf16FromUtf8 :: "mem \<Rightarrow> nat \<Rightarrow> u32 \<times> nat" where
  "GetUtf16FromUtf8 m p =
     (let one = load m p
      in if one AND 0x80 = 0 then (one, p + 1)
      else let two = load m (p + 1)
      in if one AND 0x20 = 0 then (push_bit 6 (one AND 0x1f) OR (two AND 0x3f), p + 2)
      else let three = load m (p + 2)
      in if one AND 0x10 = 0
         then (push_bit 12 (one AND 0x0f) OR push_bit 6 (two AND 0x3f) OR (three AND 0x3f), p + 3)
      else let four = load m (p + 3);
               code_point = push_bit 18 (one AND 0x0f) OR push_bit 12 (two AND 0x3f)
                 OR push_bit 6 (three AND 0x3f) OR (four AND 0x3f)
      in (surrogate_pair_of code_point, p + 4))"

lemma GetUtf16FromUtf8_advances: "p < snd (GetUtf16FromUtf8 m p)"
  by (simp add: GetUtf16FromUtf8_def Let_def)

section \<open>Counting and converting to UTF-16\<close>

function CountModifiedUtf8Chars_loop :: "mem \<Rightarrow> nat \<Rightarrow> nat \<Rightarrow> nat \<Rightarrow> nat" where
  "CountModifiedUtf8Chars_loop m utf8 end_ptr len =
     (if utf8 < end_ptr
      then let ic = load m utf8; len = len + 1
      in if ic AND 0x80 = 0 then CountModifiedUtf8Chars_loop m (utf8 + 1) end_ptr len
      else if ic AND 0x20 = 0 then CountModifiedUtf8Chars_loop m (utf8 + 2) end_ptr len
      else if ic AND 0x10 = 0 then CountModifiedUtf8Chars_loop m (utf8 + 3) end_ptr len
      else CountModifiedUtf8Chars_loop m (utf8 + 4) end_ptr (len + 1)
      else len)"
  by auto
termination by (relation "measure (\<lambda>(m, p, e, len). e - p)") auto

definition CountModifiedUtf8Chars :: "mem \<Rightarrow> nat \<Rightarrow> nat \<Rightarrow> nat" where
  "CountModifiedUtf8Chars m utf8 byte_count = CountModifiedUtf8Chars_loop m utf8 (utf8 + byte_count) 0"

function ConvertToUtf16_loop :: "mem \<Rightarrow> nat \<Rightarrow> nat \<Rightarrow> u16 list" where
  "ConvertToUtf16_loop m p in_end =
     (if p < in_end
      then let (ch, p') = GetUtf16FromUtf8 m p;
               leading = GetLeadingUtf16Char ch;
               trailing = GetTrailingUtf16Char ch
           in (if trailing \<noteq> 0 then [leading, trailing] else [leading]) @ ConvertToUtf16_loop m p' in_end
      else [])"
  by auto
termination
proof (relation "measure (\<lambda>(m, p, e). e - p)")
  fix m p in_end x ch p' xa xb
  assume "p < in_end" "x = GetUtf16FromUtf8 m p" "(ch, p') = x"
  then have "p < p'" using GetUtf16FromUtf8_advances [of p m] by (metis snd_conv)
  with \<open>p < in_end\<close> show "((m, p', in_end), m, p, in_end) \<in> measure (\<lambda>(m, p, e). e - p)" by auto
qed simp

text \<open>The sized conversion, with its shortcut when every byte is a character.\<close>

definition ConvertModifiedUtf8ToUtf16 :: "mem \<Rightarrow> nat \<Rightarrow> nat \<Rightarrow> nat \<Rightarrow> u16 list" where
  "ConvertModifiedUtf8ToUtf16 m out_chars utf8_data_in in_bytes =
     (if out_chars = in_bytes then map (\<lambda>p. ucast (m p)) [utf8_data_in..<utf8_data_in + in_bytes]
      else ConvertToUtf16_loop m utf8_data_in (utf8_data_in + in_bytes))"

text \<open>The conversion of a NUL-terminated string; \<open>None\<close>: no terminator is ever reached.\<close>

partial_function (option) ConvertModifiedUtf8ToUtf16_nul :: "mem \<Rightarrow> nat \<Rightarrow> u16 list \<Rightarrow> u16 list option" where
  "ConvertModifiedUtf8ToUtf16_nul m p out =
     (if m p \<noteq> 0
      then let ch = fst (GetUtf16FromUtf8 m p);
               leading = GetLeadingUtf16Char ch;
               trailing = GetTrailingUtf16Char ch
           in ConvertModifiedUtf8ToUtf16_nul m (snd (GetUtf16FromUtf8 m p))
                (out @ (if trailing \<noteq> 0 then [leading, trailing] else [leading]))
      else Some out)"

section \<open>Converting from UTF-16\<close>

definition is_lead :: "u16 \<Rightarrow> bool" where
  "is_lead ch \<longleftrightarrow> ch AND 0xfc00 = 0xd800"

definition is_trail :: "u16 \<Rightarrow> bool" where
  "is_trail ch \<longleftrightarrow> ch AND 0xfc00 = 0xdc00"

definition is_surrogate :: "u16 \<Rightarrow> bool" where
  "is_surrogate ch \<longleftrightarrow> ch AND 0xf800 = 0xd800"

definition is_surrogate_lead :: "u16 \<Rightarrow> bool" where
  "is_surrogate_lead ch \<longleftrightarrow> ch AND 0x0400 = 0"

definition get_supplementary :: "u16 \<Rightarrow> u16 \<Rightarrow> u32" where
  "get_supplementary lead trail =
     push_bit 10 (ucast lead) + ucast trail - (push_bit 10 0xd800 + 0xdc00 - 0x10000)"

definition has_trail :: "u16 list \<Rightarrow> bool" where
  "has_trail rest \<longleftrightarrow> rest \<noteq> [] \<and> is_trail (hd rest)"

function ConvertUtf16ToUtf8 :: "bool \<Rightarrow> bool \<Rightarrow> bool \<Rightarrow> u16 list \<Rightarrow> u8 list" where
  "ConvertUtf16ToUtf8 kUseShortZero kUse4ByteSequence kReplaceBadSurrogates [] = []"
| "ConvertUtf16ToUtf8 kUseShortZero kUse4ByteSequence kReplaceBadSurrogates (ch # rest) =
     (if ch < 0x80 \<and> (kUseShortZero \<or> ch \<noteq> 0)
      then ucast ch # ConvertUtf16ToUtf8 kUseShortZero kUse4ByteSequence kReplaceBadSurrogates rest
      else if ch < 0x800
      then [ucast (drop_bit 6 ch OR 0xc0), ucast ((ch AND 0x3f) OR 0x80)] @
           ConvertUtf16ToUtf8 kUseShortZero kUse4ByteSequence kReplaceBadSurrogates rest
      else if (if kReplaceBadSurrogates then is_surrogate ch
               else kUse4ByteSequence \<and> is_lead ch \<and> has_trail rest)
      then if kReplaceBadSurrogates \<and> (\<not> is_surrogate_lead ch \<or> \<not> has_trail rest)
           then 0x3f # ConvertUtf16ToUtf8 kUseShortZero kUse4ByteSequence kReplaceBadSurrogates rest
           else let code_point = get_supplementary ch (hd rest)
                in [ucast (drop_bit 18 code_point OR 0xf0),
                    ucast ((drop_bit 12 code_point AND 0x3f) OR 0x80),
                    ucast ((drop_bit 6 code_point AND 0x3f) OR 0x80),
                    ucast ((code_point AND 0x3f) OR 0x80)] @
                   ConvertUtf16ToUtf8 kUseShortZero kUse4ByteSequence kReplaceBadSurrogates (tl rest)
      else [ucast (drop_bit 12 ch OR 0xe0), ucast ((drop_bit 6 ch AND 0x3f) OR 0x80),
            ucast ((ch AND 0x3f) OR 0x80)] @
           ConvertUtf16ToUtf8 kUseShortZero kUse4ByteSequence kReplaceBadSurrogates rest)"
  by pat_completeness auto
termination by (relation "measure (\<lambda>(z, f, r, cs). length cs)") auto

definition ConvertUtf16ToModifiedUtf8 :: "nat \<Rightarrow> u16 list \<Rightarrow> u8 list" where
  "ConvertUtf16ToModifiedUtf8 byte_count utf16_in =
     (if byte_count = length utf16_in then map ucast utf16_in
      else ConvertUtf16ToUtf8 False True False utf16_in)"

definition CountModifiedUtf8BytesInUtf16 :: "u16 list \<Rightarrow> nat" where
  "CountModifiedUtf8BytesInUtf16 chars = length (ConvertUtf16ToUtf8 False True False chars)"

section \<open>Hashes\<close>

definition ComputeUtf16Hash :: "u16 list \<Rightarrow> u32" where
  "ComputeUtf16Hash chars = fold (\<lambda>ch hash. hash * 31 + ucast ch) chars 0"

text \<open>A trailing surrogate also counts; the length is bounded below by zero (a DCHECK in the code).\<close>

function Utf16HashFromUtf8_loop :: "mem \<Rightarrow> nat \<Rightarrow> nat \<Rightarrow> u32 \<Rightarrow> u32" where
  "Utf16HashFromUtf8_loop m utf8 utf16_length hash =
     (if utf16_length \<noteq> 0
      then let (pair, utf8') = GetUtf16FromUtf8 m utf8;
               hash = hash * 31 + ucast (GetLeadingUtf16Char pair);
               second = GetTrailingUtf16Char pair
           in if second \<noteq> 0
              then Utf16HashFromUtf8_loop m utf8' (utf16_length - 2) (hash * 31 + ucast second)
              else Utf16HashFromUtf8_loop m utf8' (utf16_length - 1) hash
      else hash)"
  by auto
termination by (relation "measure (\<lambda>(m, p, n, h). n)") auto

definition ComputeUtf16HashFromModifiedUtf8 :: "mem \<Rightarrow> nat \<Rightarrow> nat \<Rightarrow> u32" where
  "ComputeUtf16HashFromModifiedUtf8 m utf8 utf16_length = Utf16HashFromUtf8_loop m utf8 utf16_length 0"

definition StartModifiedUtf8Hash :: u32 where
  "StartModifiedUtf8Hash = 0"

definition UpdateModifiedUtf8Hash :: "u32 \<Rightarrow> u8 \<Rightarrow> u32" where
  "UpdateModifiedUtf8Hash hash c = hash * 31 + ucast c"

fun UpdateModifiedUtf8Hash_view :: "u32 \<Rightarrow> u8 list \<Rightarrow> u32" where
  "UpdateModifiedUtf8Hash_view hash [] = hash"
| "UpdateModifiedUtf8Hash_view hash (c # chars) = UpdateModifiedUtf8Hash_view (UpdateModifiedUtf8Hash hash c) chars"

definition ComputeModifiedUtf8Hash_view :: "u8 list \<Rightarrow> u32" where
  "ComputeModifiedUtf8Hash_view chars = UpdateModifiedUtf8Hash_view StartModifiedUtf8Hash chars"

partial_function (option) ModifiedUtf8Hash_loop :: "mem \<Rightarrow> nat \<Rightarrow> u32 \<Rightarrow> u32 option" where
  "ModifiedUtf8Hash_loop m chars hash =
     (if m chars \<noteq> 0 then ModifiedUtf8Hash_loop m (chars + 1) (UpdateModifiedUtf8Hash hash (m chars))
      else Some hash)"

definition ComputeModifiedUtf8Hash :: "mem \<Rightarrow> nat \<Rightarrow> u32 option" where
  "ComputeModifiedUtf8Hash m chars = ModifiedUtf8Hash_loop m chars StartModifiedUtf8Hash"

section \<open>Comparisons\<close>

partial_function (option) CompareModifiedUtf8 :: "mem \<Rightarrow> nat \<Rightarrow> nat \<Rightarrow> int option" where
  "CompareModifiedUtf8 m utf8_1 utf8_2 =
     (if m utf8_1 = 0 then Some (if m utf8_2 = 0 then 0 else - 1)
      else if m utf8_2 = 0 then Some 1
      else let c1 = fst (GetUtf16FromUtf8 m utf8_1); c2 = fst (GetUtf16FromUtf8 m utf8_2)
           in if c1 = c2
              then CompareModifiedUtf8 m (snd (GetUtf16FromUtf8 m utf8_1)) (snd (GetUtf16FromUtf8 m utf8_2))
              else let leading_surrogate_diff =
                     int (unat (GetLeadingUtf16Char c1)) - int (unat (GetLeadingUtf16Char c2))
                   in if leading_surrogate_diff \<noteq> 0 then Some leading_surrogate_diff
                      else Some (int (unat (GetTrailingUtf16Char c1)) - int (unat (GetTrailingUtf16Char c2))))"

function CompareModifiedUtf8ToUtf16 :: "mem \<Rightarrow> nat \<Rightarrow> u16 list \<Rightarrow> int" where
  "CompareModifiedUtf8ToUtf16 m utf8 utf16 =
     (if m utf8 = 0 then (if utf16 = [] then 0 else - 1)
      else if utf16 = [] then 1
      else let (pair, utf8') = GetUtf16FromUtf8 m utf8;
               lhs = GetLeadingUtf16Char pair; rhs = hd utf16; utf16' = tl utf16
           in if lhs \<noteq> rhs then (if lhs > rhs then 1 else - 1)
              else let lhs2 = GetTrailingUtf16Char pair
                   in if lhs2 \<noteq> 0
                      then if utf16' = [] then 1
                           else let rhs2 = hd utf16'; utf16'' = tl utf16'
                                in if lhs2 \<noteq> rhs2 then (if lhs2 > rhs2 then 1 else - 1)
                                   else CompareModifiedUtf8ToUtf16 m utf8' utf16''
                      else CompareModifiedUtf8ToUtf16 m utf8' utf16')"
  by auto
termination by (relation "measure (\<lambda>(m, p, cs). length cs)") (auto simp: neq_Nil_conv)

declare CountModifiedUtf8Chars_loop.simps [simp del] ConvertToUtf16_loop.simps [simp del]
  Utf16HashFromUtf8_loop.simps [simp del] CompareModifiedUtf8ToUtf16.simps [simp del]
  ConvertUtf16ToUtf8.simps(2) [simp del]

section \<open>One encoded character\<close>

lemma bit_tests:
  "(x AND 0x80 = (0 :: u32)) \<longleftrightarrow> unat x div 128 mod 2 = 0"
  "(x AND 0x20 = (0 :: u32)) \<longleftrightarrow> unat x div 32 mod 2 = 0"
  "(x AND 0x10 = (0 :: u32)) \<longleftrightarrow> unat x div 16 mod 2 = 0"
proof -
  have k: "(x AND push_bit n 1 = (0 :: u32)) \<longleftrightarrow> unat x div 2 ^ n mod 2 = 0" if "n < 32" for n
  proof -
    have "(x AND push_bit n 1 = 0) \<longleftrightarrow> \<not> bit x n"
      using that by (auto simp: word_zero_by_bits bit_and_iff bit_exp_iff)
    also have "\<dots> \<longleftrightarrow> \<not> bit (unat x) n" by (simp add: bit_unsigned_iff) 
    finally show ?thesis by (simp add: bit_iff_odd even_iff_mod_2_eq_zero)
  qed
  show "(x AND 0x80 = (0 :: u32)) \<longleftrightarrow> unat x div 128 mod 2 = 0" using k [of 7] by simp
  show "(x AND 0x20 = (0 :: u32)) \<longleftrightarrow> unat x div 32 mod 2 = 0" using k [of 5] by simp
  show "(x AND 0x10 = (0 :: u32)) \<longleftrightarrow> unat x div 16 mod 2 = 0" using k [of 4] by simp
qed

lemma unat_of_nat_small: "n < 2 ^ LENGTH('a) \<Longrightarrow> unat (word_of_nat n :: 'a::len word) = n"
  by (simp add: unsigned_of_nat take_bit_nat_eq_self)

lemma word_eq_of_nat: "unat (w :: 'a::len word) = n \<Longrightarrow> w = word_of_nat n"
  by auto

lemma unat_field:
  assumes "unat (x :: u32) = k + a" "k mod 2 ^ n = 0" "a < 2 ^ n" "n + s \<le> 32"
  shows "unat (push_bit s (x AND mask n)) = a * 2 ^ s"
proof -
  have "unat (take_bit n x) = (k + a) mod 2 ^ n"
    unfolding unsigned_take_bit_eq assms(1) by (simp add: take_bit_eq_mod)
  also have "\<dots> = a" using assms(2,3) by (metis add_0 mod_add_left_eq mod_less)
  finally have "unat (take_bit n x) = a" .
  moreover have "a * 2 ^ s < 2 ^ 32"
  proof -
    have "a * 2 ^ s < 2 ^ n * 2 ^ s" using assms(3) by simp
    also have "\<dots> \<le> 2 ^ 32" unfolding power_add [symmetric] using assms(4) by (intro power_increasing) auto
    finally show ?thesis .
  qed
  ultimately show ?thesis
    by (simp add: unsigned_push_bit_eq take_bit_eq_mask [symmetric] take_bit_nat_eq_self push_bit_eq_mult [where 'a = nat])
qed

lemma masks: "mask 4 = (0xf :: u32)" "mask 5 = (0x1f :: u32)" "mask 6 = (0x3f :: u32)"
  by (simp_all add: mask_eq_exp_minus_1)

lemma lead_tests:
  "a < 32 \<Longrightarrow> (192 + a) div 128 = (1 :: nat)" "a < 32 \<Longrightarrow> (192 + a) div 32 = (6 :: nat)"
  "a < 16 \<Longrightarrow> (224 + a) div 128 = (1 :: nat)" "a < 16 \<Longrightarrow> (224 + a) div 32 = (7 :: nat)"
  "a < 16 \<Longrightarrow> (224 + a) div 16 = (14 :: nat)"
  "a < 8 \<Longrightarrow> (240 + a) div 128 = (1 :: nat)" "a < 8 \<Longrightarrow> (240 + a) div 32 = (7 :: nat)"
  "a < 8 \<Longrightarrow> (240 + a) div 16 = (15 :: nat)"
  by (auto intro!: div_nat_eqI)

lemma get1: "unat (m p) < 128 \<Longrightarrow> GetUtf16FromUtf8 m p = (word_of_nat (unat (m p)), p + 1)"
  by (simp add: GetUtf16FromUtf8_def Let_def bit_tests)

lemma get2:
  assumes "unat (m p) = 192 + a" "unat (m (p + 1)) = 128 + b" "a < 32" "b < 64"
  shows "GetUtf16FromUtf8 m p = (word_of_nat (a * 64 + b), p + 2)"
proof -
  have "unat (push_bit 6 (load m p AND mask 5)) = a * 64" "unat (push_bit 0 (load m (p + 1) AND mask 6)) = b"
    using unat_field [of "load m p" 192 a 5 6] unat_field [of "load m (p + 1)" 128 b 6 0] assms by simp_all
  then have "unat (push_bit 6 (load m p AND 0x1f) OR (load m (p + 1) AND 0x3f)) = a * 64 + b"
    using assms(4) nat_or_disjoint [of b 6 a] by (simp only: unsigned_or_eq masks push_bit_0_id id_apply) simp
  from word_eq_of_nat [OF this] show ?thesis
    using assms by (simp add: GetUtf16FromUtf8_def Let_def bit_tests lead_tests)
qed

lemma get3:
  assumes "unat (m p) = 224 + a" "unat (m (p + 1)) = 128 + b" "unat (m (p + 2)) = 128 + c"
    "a < 16" "b < 64" "c < 64"
  shows "GetUtf16FromUtf8 m p = (word_of_nat (a * 4096 + b * 64 + c), p + 3)"
proof -
  have f: "unat (push_bit 12 (load m p AND mask 4)) = a * 4096" "unat (push_bit 6 (load m (p + 1) AND mask 6)) = b * 64"
    "unat (push_bit 0 (load m (p + 2) AND mask 6)) = c"
    using unat_field [of "load m p" 224 a 4 12] unat_field [of "load m (p + 1)" 128 b 6 6]
      unat_field [of "load m (p + 2)" 128 c 6 0] assms by simp_all
  have "(a * 4096 OR b * 64) OR c = (a * 4096 + b * 64) + c"
    using assms(5,6) nat_or_disjoint [of "b * 64" 12 a] nat_or_disjoint [of c 6 "a * 64 + b"]
    by (simp add: algebra_simps)
  then have "unat ((push_bit 12 (load m p AND 0xf) OR push_bit 6 (load m (p + 1) AND 0x3f)) OR (load m (p + 2) AND 0x3f)) =
      a * 4096 + b * 64 + c"
    using f by (simp only: unsigned_or_eq masks push_bit_0_id id_apply)
  from word_eq_of_nat [OF this] show ?thesis
    using assms by (simp add: GetUtf16FromUtf8_def Let_def bit_tests lead_tests or.assoc)
qed

lemma get4:
  assumes "unat (m p) = 240 + a" "unat (m (p + 1)) = 128 + b" "unat (m (p + 2)) = 128 + c" "unat (m (p + 3)) = 128 + d"
    "a < 8" "b < 64" "c < 64" "d < 64"
  shows "GetUtf16FromUtf8 m p = (surrogate_pair_of (word_of_nat (a * 262144 + b * 4096 + c * 64 + d)), p + 4)"
proof -
  have f: "unat (push_bit 18 (load m p AND mask 4)) = a * 262144" "unat (push_bit 12 (load m (p + 1) AND mask 6)) = b * 4096"
    "unat (push_bit 6 (load m (p + 2) AND mask 6)) = c * 64" "unat (push_bit 0 (load m (p + 3) AND mask 6)) = d"
    using unat_field [of "load m p" 240 a 4 18] unat_field [of "load m (p + 1)" 128 b 6 12]
      unat_field [of "load m (p + 2)" 128 c 6 6] unat_field [of "load m (p + 3)" 128 d 6 0] assms by simp_all
  have "((a * 262144 OR b * 4096) OR c * 64) OR d = ((a * 262144 + b * 4096) + c * 64) + d"
    using assms(6-8) nat_or_disjoint [of "b * 4096" 18 a] nat_or_disjoint [of "c * 64" 12 "a * 64 + b"]
      nat_or_disjoint [of d 6 "(a * 64 + b) * 64 + c"] by (simp add: algebra_simps)
  then have "unat (((push_bit 18 (load m p AND 0xf) OR push_bit 12 (load m (p + 1) AND 0x3f))
        OR push_bit 6 (load m (p + 2) AND 0x3f)) OR (load m (p + 3) AND 0x3f)) =
      a * 262144 + b * 4096 + c * 64 + d"
    using f by (simp only: unsigned_or_eq masks push_bit_0_id id_apply)
  from word_eq_of_nat [OF this] show ?thesis
    using assms by (simp add: GetUtf16FromUtf8_def Let_def bit_tests lead_tests or.assoc)
qed

lemma surrogate_pair_of_halves:
  assumes "l < 1024" "t < 1024"
  shows "GetLeadingUtf16Char (surrogate_pair_of (word_of_nat (65536 + l * 1024 + t))) = word_of_nat (0xd800 + l)"
    and "GetTrailingUtf16Char (surrogate_pair_of (word_of_nat (65536 + l * 1024 + t))) = word_of_nat (0xdc00 + t)"
proof -
  let ?c = "word_of_nat (65536 + l * 1024 + t) :: u32"
  have c: "unat ?c = 65536 + l * 1024 + t" using assms by (intro unat_of_nat_small) simp
  have "drop_bit 10 ?c = word_of_nat (64 + l)"
    using assms by (intro word_eq_of_nat) (simp only: unsigned_drop_bit_eq c, simp add: drop_bit_eq_div take_bit_nat_eq_self)
  then have hi: "drop_bit 10 ?c + 0xd7c0 = word_of_nat (0xd800 + l)" by simp
  have "?c AND mask 10 = word_of_nat t"
    using assms unat_field [of ?c "65536 + l * 1024" t 10 0] c by (intro word_eq_of_nat) simp
  then have lo: "(?c AND 0x3ff) + 0xdc00 = word_of_nat (0xdc00 + t)" by (simp add: mask_eq_exp_minus_1)
  have "(word_of_nat (0xd800 + l) :: u32) AND mask 16 = word_of_nat (0xd800 + l)"
    using assms unat_field [of "word_of_nat (0xd800 + l)" 0 "0xd800 + l" 16 0] unat_of_nat_small [of "0xd800 + l", where 'a = 32]
    by (intro word_eq_of_nat) simp
  moreover have "unat (push_bit 16 (word_of_nat (0xdc00 + t) :: u32)) = (0xdc00 + t) * 65536"
    using assms unat_of_nat_small [of "0xdc00 + t", where 'a = 32]
    by (simp only: unsigned_push_bit_eq) (simp add: push_bit_eq_mult take_bit_nat_eq_self)
  ultimately have s: "unat (surrogate_pair_of ?c) = (0xdc00 + t) * 65536 + (0xd800 + l)"
    using assms nat_or_disjoint [of "0xd800 + l" 16 "0xdc00 + t"] unat_of_nat_small [of "0xd800 + l", where 'a = 32]
    by (simp only: surrogate_pair_of_def hi lo unsigned_or_eq) (simp add: mask_eq_exp_minus_1 or.commute)
  have "unat (GetLeadingUtf16Char (surrogate_pair_of ?c)) = 0xd800 + l"
    using assms unat_field [of "surrogate_pair_of ?c" "(0xdc00 + t) * 65536" "0xd800 + l" 16 0] s
    by (simp add: GetLeadingUtf16Char_def unsigned_ucast_eq mask_eq_exp_minus_1 take_bit_nat_eq_self)
  then show "GetLeadingUtf16Char (surrogate_pair_of ?c) = word_of_nat (0xd800 + l)" by (rule word_eq_of_nat)
  have "unat (GetTrailingUtf16Char (surrogate_pair_of ?c)) = 0xdc00 + t"
    using assms unfolding GetTrailingUtf16Char_def unsigned_ucast_eq unsigned_drop_bit_eq s
    by (simp add: drop_bit_eq_div take_bit_nat_eq_self)
  then show "GetTrailingUtf16Char (surrogate_pair_of ?c) = word_of_nat (0xdc00 + t)" by (rule word_eq_of_nat)
qed
section \<open>One character written\<close>

lemma unat_byte_or:
  fixes x :: "'a::len word"
  assumes "unat x < 2 ^ n" "unat K = j * 2 ^ n" "unat K + unat x < 256"
  shows "unat (ucast (x OR K) :: u8) = unat K + unat x"
proof -
  have "unat (x OR K) = unat K + unat x"
    unfolding unsigned_or_eq or.commute [of "unat x"] using nat_or_disjoint [OF assms(1), of j] assms(2) by simp
  then show ?thesis using assms(3) by (simp add: unsigned_ucast_eq take_bit_nat_eq_self)
qed

lemma unat_and_0x3f:
  "unat ((x :: u16) AND 0x3f) = unat x mod 64" "unat ((y :: u32) AND 0x3f) = unat y mod 64"
  by (simp_all add: unsigned_and_eq nat_and_masks)

lemma and_0xfc00: "(ch :: u16) AND 0xfc00 = push_bit 10 (drop_bit 10 ch)"
proof -
  have "(0xfc00 :: u16) = push_bit 10 (mask 6)" by (simp add: mask_eq_exp_minus_1)
  then show ?thesis
    by (auto intro!: bit_word_eqI simp only: bit_and_iff bit_push_bit_iff bit_mask_iff bit_drop_bit_eq) auto
qed

lemma div_block: "0 < n \<Longrightarrow> (x :: nat) div n * n = k * n \<longleftrightarrow> (\<exists>l < n. x = k * n + l)"
  by (auto intro!: exI [of _ "x mod n"] simp: div_mult_mod_eq)

lemma surrogate_range:
  "is_lead ch \<longleftrightarrow> (\<exists>l < 1024. unat ch = 0xd800 + l)"
  "is_trail ch \<longleftrightarrow> (\<exists>t < 1024. unat ch = 0xdc00 + t)"
proof -
  have u: "unat (ch AND 0xfc00) = unat ch div 1024 * 1024"
  proof -
    have "unat ch < 65536" using unsigned_less [of ch] by simp
    then have "unat ch div 1024 * 1024 < 65536" by linarith
    then show ?thesis
      unfolding and_0xfc00 unsigned_push_bit_eq unat_drop_bit_div by (simp add: push_bit_eq_mult take_bit_nat_eq_self)
  qed
  have "is_lead ch \<longleftrightarrow> unat ch div 1024 * 1024 = 0xd800"
    unfolding is_lead_def u [symmetric] by (simp add: word_unat_eq_iff)
  also have "\<dots> \<longleftrightarrow> (\<exists>l < 1024. unat ch = 0xd800 + l)"
    using div_block [of 1024 "unat ch" 54] by simp
  finally show "is_lead ch \<longleftrightarrow> (\<exists>l < 1024. unat ch = 0xd800 + l)" .
  have "is_trail ch \<longleftrightarrow> unat ch div 1024 * 1024 = 0xdc00"
    unfolding is_trail_def u [symmetric] by (simp add: word_unat_eq_iff)
  also have "\<dots> \<longleftrightarrow> (\<exists>t < 1024. unat ch = 0xdc00 + t)"
    using div_block [of 1024 "unat ch" 55] by simp
  finally show "is_trail ch \<longleftrightarrow> (\<exists>t < 1024. unat ch = 0xdc00 + t)" .
qed

lemma unat_ucast_u16 [simp]: "unat (ucast (c :: u16) :: u32) = unat c"
proof -
  have "unat c < 2 ^ 16" using unsigned_less [of c] by simp
  then show ?thesis by (simp add: unsigned_ucast_eq take_bit_nat_eq_self)
qed

lemma get_supplementary_halves:
  assumes "unat lead = 0xd800 + l" "unat trail = 0xdc00 + t"
  shows "get_supplementary lead trail = word_of_nat (65536 + l * 1024 + t)"
proof -
  have "(ucast lead :: u32) = word_of_nat (0xd800 + l)" "(ucast trail :: u32) = word_of_nat (0xdc00 + t)"
    using assms word_eq_of_nat [of "ucast lead :: u32"] word_eq_of_nat [of "ucast trail :: u32"]
    by (simp_all add: unat_ucast_u16)
  then show ?thesis by (simp add: get_supplementary_def push_bit_eq_mult algebra_simps)
qed

lemma ucast_of_nat_unat: "(word_of_nat (unat (ch :: u16)) :: u32) = ucast ch"
  by simp

lemma lead_of_ucast [simp]: "GetLeadingUtf16Char (ucast ch) = ch" "GetTrailingUtf16Char (ucast (ch :: u16)) = 0"
proof -
  have "(ucast ch :: u32) AND 0xffff = take_bit 16 (ucast ch)" by (simp add: take_bit_eq_mask mask_eq_exp_minus_1)
  then show "GetLeadingUtf16Char (ucast ch) = ch"
    by (auto intro!: bit_word_eqI simp: GetLeadingUtf16Char_def bit_ucast_iff bit_take_bit_iff)
  show "GetTrailingUtf16Char (ucast ch) = 0"
    using bit_imp_le_length [of ch]
    by (intro bit_word_eqI) (fastforce simp: GetTrailingUtf16Char_def bit_ucast_iff bit_drop_bit_eq)
qed

lemma digits3: "(c :: nat) div 4096 * 4096 + c div 64 mod 64 * 64 + c mod 64 = c"
proof -
  have "c div 4096 = c div 64 div 64" by (simp flip: div_mult2_eq)
  then show ?thesis using div_mult_mod_eq [of "c div 64" 64] div_mult_mod_eq [of c 64] by linarith
qed

lemma digits4: "(c :: nat) div 262144 * 262144 + c div 4096 mod 64 * 4096 + c div 64 mod 64 * 64 + c mod 64 = c"
proof -
  have "c div 262144 = c div 4096 div 64" by (simp flip: div_mult2_eq)
  then show ?thesis using div_mult_mod_eq [of "c div 4096" 64] digits3 [of c] by linarith
qed

lemma bytes_first:
  assumes "holds m p (bs @ tail)"
  shows "holds m (p + length bs) tail" "i < length bs \<Longrightarrow> m (p + i) = bs ! i"
  using assms by (simp_all add: holds_append) (simp add: holds_def)

text \<open>What the decoder sees of the first character of an encoded string.\<close>

lemma Get_first:
  assumes "holds m p (ConvertUtf16ToUtf8 z f False (ch # rest))"
  obtains (single) n where "GetUtf16FromUtf8 m p = (ucast ch, p + n)" "0 < n" "n < 4"
      "holds m (p + n) (ConvertUtf16ToUtf8 z f False rest)"
      "length (ConvertUtf16ToUtf8 z f False (ch # rest)) = n + length (ConvertUtf16ToUtf8 z f False rest)"
  | (pair) c trail rest' where "f" "rest = trail # rest'" "GetUtf16FromUtf8 m p = (c, p + 4)"
      "GetLeadingUtf16Char c = ch" "GetTrailingUtf16Char c = trail" "trail \<noteq> 0"
      "holds m (p + 4) (ConvertUtf16ToUtf8 z f False rest')"
      "length (ConvertUtf16ToUtf8 z f False (ch # rest)) = 4 + length (ConvertUtf16ToUtf8 z f False rest')"
proof -
  let ?c = "unat ch" and ?e = "ConvertUtf16ToUtf8 z f False"
  note conv = ConvertUtf16ToUtf8.simps(2) [of z f False ch rest]
  have c16: "?c < 65536" using unsigned_less [of ch] by simp
  consider (one) "ch < 0x80" "z \<or> ch \<noteq> 0" | (two) "\<not> (ch < 0x80 \<and> (z \<or> ch \<noteq> 0))" "ch < 0x800"
    | (four) "\<not> ch < 0x800" "f" "is_lead ch" "has_trail rest"
    | (three) "\<not> ch < 0x800" "\<not> (f \<and> is_lead ch \<and> has_trail rest)" by blast
  then show ?thesis
  proof cases
    case one
    then have e: "?e (ch # rest) = [ucast ch] @ ?e rest" by (simp add: conv)
    note b = bytes_first [OF assms [unfolded e]]
    have c: "?c < 128" using one(1) by (simp add: word_less_nat_alt)
    then have "unat (m p) = ?c" using b(2) [of 0] by (simp add: unsigned_ucast_eq take_bit_nat_eq_self)
    with get1 [of m p] c have "GetUtf16FromUtf8 m p = (ucast ch, p + 1)" by simp
    from single [OF this] b(1) show ?thesis by (simp add: e)
  next
    case two
    then have e: "?e (ch # rest) = [ucast (drop_bit 6 ch OR 0xc0), ucast ((ch AND 0x3f) OR 0x80)] @ ?e rest"
      by (auto simp: conv)
    note b = bytes_first [OF assms [unfolded e]]
    have "?c < 2048" using two by (simp add: word_less_nat_alt)
    then have d: "?c div 64 < 32" by simp
    have "unat (m p) = 192 + ?c div 64" "unat (m (p + 1)) = 128 + ?c mod 64"
      using b(2) [of 0] b(2) [of 1] d unat_byte_or [of "drop_bit 6 ch" 6 "0xc0" 3]
        unat_byte_or [of "ch AND 0x3f" 6 "0x80" 2] by (simp_all add: unat_and_0x3f unat_drop_bit_div)
    from get2 [OF this d] have "GetUtf16FromUtf8 m p = (ucast ch, p + 2)" by simp
    from single [OF this] b(1) show ?thesis by (simp add: e)
  next
    case three
    then have e: "?e (ch # rest) = [ucast (drop_bit 12 ch OR 0xe0), ucast ((drop_bit 6 ch AND 0x3f) OR 0x80),
      ucast ((ch AND 0x3f) OR 0x80)] @ ?e rest" by (auto simp: conv word_less_nat_alt)
    note b = bytes_first [OF assms [unfolded e]]
    have d: "?c div 4096 < 16" using c16 by simp
    have "unat (m p) = 224 + ?c div 4096" "unat (m (p + 1)) = 128 + ?c div 64 mod 64" "unat (m (p + 2)) = 128 + ?c mod 64"
      using b(2) [of 0] b(2) [of 1] b(2) [of 2] d unat_byte_or [of "drop_bit 12 ch" 5 "0xe0" 7]
        unat_byte_or [of "ch AND 0x3f" 6 "0x80" 2] unat_byte_or [of "drop_bit 6 ch AND 0x3f" 6 "0x80" 2]
      by (simp_all add: unat_and_0x3f unat_drop_bit_div)
    from get3 [OF this d] have "GetUtf16FromUtf8 m p = (ucast ch, p + 3)" unfolding digits3 by simp
    from single [OF this] b(1) show ?thesis by (simp add: e numeral_3_eq_3)
  next
    case four
    then obtain trail rest' where r: "rest = trail # rest'" "is_trail trail" by (cases rest) (auto simp: has_trail_def)
    with four(3) obtain l t where lt: "l < 1024" "?c = 0xd800 + l" "t < 1024" "unat trail = 0xdc00 + t"
      by (auto simp: surrogate_range)
    let ?cp = "get_supplementary ch trail"
    define k where "k = 65536 + l * 1024 + t"
    have k: "unat ?cp = k"
      unfolding get_supplementary_halves [OF lt(2,4)] k_def using lt by (intro unat_of_nat_small) simp
    have e: "?e (ch # rest) = [ucast (drop_bit 18 ?cp OR 0xf0), ucast ((drop_bit 12 ?cp AND 0x3f) OR 0x80),
      ucast ((drop_bit 6 ?cp AND 0x3f) OR 0x80), ucast ((?cp AND 0x3f) OR 0x80)] @ ?e rest'"
      using four r by (subst conv) (auto simp: Let_def word_less_nat_alt)
    note b = bytes_first [OF assms [unfolded e]]
    have d: "k div 262144 < 8" using lt by (simp add: k_def)
    have "unat (m p) = 240 + k div 262144" "unat (m (p + 1)) = 128 + k div 4096 mod 64"
      "unat (m (p + 2)) = 128 + k div 64 mod 64" "unat (m (p + 3)) = 128 + k mod 64"
      using b(2) [of 0] b(2) [of 1] b(2) [of 2] b(2) [of 3] d
        unat_byte_or [of "drop_bit 18 ?cp" 4 "0xf0" 15] unat_byte_or [of "?cp AND 0x3f" 6 "0x80" 2]
        unat_byte_or [of "drop_bit 6 ?cp AND 0x3f" 6 "0x80" 2] unat_byte_or [of "drop_bit 12 ?cp AND 0x3f" 6 "0x80" 2]
      by (simp_all add: unat_and_0x3f unat_drop_bit_div k)
    from get4 [OF this d] have g: "GetUtf16FromUtf8 m p = (surrogate_pair_of (word_of_nat k), p + 4)"
      unfolding digits4 by simp
    have "word_of_nat (0xd800 + l) = ch" "word_of_nat (0xdc00 + t) = trail" "trail \<noteq> 0"
      using word_eq_of_nat [OF lt(2)] word_eq_of_nat [OF lt(4)] lt(4) by auto
    moreover have "holds m (p + 4) (?e rest')" using b(1) by (simp add: eval_nat_numeral)
    moreover have "length (?e (ch # rest)) = 4 + length (?e rest')" unfolding e by simp
    ultimately show ?thesis
      using pair [OF four(2) r(1) g] surrogate_pair_of_halves [OF lt(1,3), folded k_def] by metis
  qed
qed

end
