(* ===== verification/UtfCodec.thy ===== *)
theory UtfCodec
  imports Utf
begin

text \<open>
  Round trips between UTF-16 and modified UTF-8, the counting functions that size the buffers, the
  hashes and the comparisons of \<^verbatim>\<open>libdexfile/dex/utf.cc\<close> and \<^verbatim>\<open>utf-inl.h\<close>.
\<close>

section \<open>Shape of the encoding\<close>

lemma conv_Cons_cases:
  obtains (one) "ch < 0x80" "z \<or> ch \<noteq> 0"
      "ConvertUtf16ToUtf8 z f False (ch # rest) = ucast ch # ConvertUtf16ToUtf8 z f False rest"
  | (more) b bs where "ConvertUtf16ToUtf8 z f False (ch # rest) = b # bs @ ConvertUtf16ToUtf8 z f False rest"
      "bs \<noteq> []" "\<forall>x \<in> set (b # bs). 0x7f < x"
  | (pair) b bs trail rest' where "rest = trail # rest'"
      "ConvertUtf16ToUtf8 z f False (ch # rest) = b # bs @ ConvertUtf16ToUtf8 z f False rest'"
      "length bs = 3" "\<forall>x \<in> set (b # bs). 0x7f < x"
proof -
  note conv = ConvertUtf16ToUtf8.simps(2) [of z f False ch rest]
  have high: "0x7f < (ucast (x OR K) :: u8)" if "bit K 7" for x K :: "'a::len word"
  proof -
    have "bit (ucast (x OR K) :: u8) 7" using that bit_imp_le_length [OF that] by (auto simp: bit_ucast_iff bit_or_iff)
    then have "\<not> fits 7 (ucast (x OR K) :: u8)" by (auto simp: fits_def)
    then show ?thesis by (simp add: fits_unat word_less_nat_alt)
  qed
  consider "ch < 0x80" "z \<or> ch \<noteq> 0" | "\<not> (ch < 0x80 \<and> (z \<or> ch \<noteq> 0))" "ch < 0x800"
    | "\<not> ch < 0x800" "f" "is_lead ch" "has_trail rest"
    | "\<not> ch < 0x800" "\<not> (f \<and> is_lead ch \<and> has_trail rest)" by blast
  then show ?thesis
  proof cases
    case 1
    then show ?thesis using one by (simp add: conv)
  next
    case 2
    then show ?thesis
      using more [of "ucast (drop_bit 6 ch OR 0xc0)" "[ucast ((ch AND 0x3f) OR 0x80)]"] by (auto simp: conv high)
  next
    case 3
    then obtain trail rest' where r: "rest = trail # rest'" by (cases rest) (auto simp: has_trail_def)
    let ?cp = "get_supplementary ch trail"
    have "\<not> ch < 0x80" using 3 by (simp add: word_less_nat_alt)
    then show ?thesis
      using 3 r pair [of trail rest' "ucast (drop_bit 18 ?cp OR 0xf0)" "[ucast ((drop_bit 12 ?cp AND 0x3f) OR 0x80),
          ucast ((drop_bit 6 ?cp AND 0x3f) OR 0x80), ucast ((?cp AND 0x3f) OR 0x80)]"]
      by (auto simp: ConvertUtf16ToUtf8.simps(2) Let_def high)
  next
    case 4
    moreover have "\<not> ch < 0x80" using 4 by (simp add: word_less_nat_alt)
    ultimately show ?thesis
      using more [of "ucast (drop_bit 12 ch OR 0xe0)" "[ucast ((drop_bit 6 ch AND 0x3f) OR 0x80), ucast ((ch AND 0x3f) OR 0x80)]"]
      by (auto simp: conv high)
  qed
qed

lemma conv_length_ascii:
  "length cs \<le> length (ConvertUtf16ToUtf8 z f False cs) \<and>
   (length (ConvertUtf16ToUtf8 z f False cs) = length cs \<longrightarrow>
      ConvertUtf16ToUtf8 z f False cs = map ucast cs \<and> (\<forall>c \<in> set cs. c < 0x80))"
proof (induction cs rule: length_induct)
  case (1 cs)
  show ?case
  proof (cases cs)
    case (Cons ch rest)
    show ?thesis
    proof (cases rule: conv_Cons_cases [of ch z f rest])
      case one
      then show ?thesis using 1 Cons by auto
    next
      case (more b bs)
      moreover have "length rest \<le> length (ConvertUtf16ToUtf8 z f False rest)" using 1 Cons by simp
      ultimately show ?thesis using Cons by (cases bs) auto
    next
      case (pair b bs trail rest')
      moreover have "length rest' \<le> length (ConvertUtf16ToUtf8 z f False rest')" using 1 Cons pair by simp
      ultimately show ?thesis using Cons by auto
    qed
  qed simp
qed

lemma conv_no_nul: "0 \<notin> set (ConvertUtf16ToUtf8 False f False cs)"
proof (induction cs rule: length_induct)
  case (1 cs)
  show ?case
  proof (cases cs)
    case (Cons ch rest)
    show ?thesis
    proof (cases rule: conv_Cons_cases [of ch False f rest])
      case one
      have "(ucast ch :: u8) \<noteq> 0"
      proof
        assume "(ucast ch :: u8) = 0"
        then have "unat (ucast ch :: u8) = 0" by simp
        then have "unat ch = 0" using one(1) by (simp add: unsigned_ucast_eq word_less_nat_alt take_bit_nat_eq_self)
        with one(2) show False by (simp add: unat_eq_0)
      qed
      with one 1 Cons show ?thesis by auto
    next
      case (more b bs)
      then show ?thesis using 1 Cons by fastforce
    next
      case (pair b bs trail rest')
      then show ?thesis using 1 Cons by fastforce
    qed
  qed simp
qed

section \<open>Decoders on encoded text\<close>

lemma CountModifiedUtf8Chars_step:
  "p < e \<Longrightarrow> CountModifiedUtf8Chars_loop m p e len =
     CountModifiedUtf8Chars_loop m (snd (GetUtf16FromUtf8 m p)) e
       (len + (if snd (GetUtf16FromUtf8 m p) = p + 4 then 2 else 1))"
  by (subst CountModifiedUtf8Chars_loop.simps) (simp add: GetUtf16FromUtf8_def Let_def)

lemma ConvertToUtf16_step:
  "p < e \<Longrightarrow> GetUtf16FromUtf8 m p = (c, p') \<Longrightarrow> ConvertToUtf16_loop m p e =
     (if GetTrailingUtf16Char c \<noteq> 0 then [GetLeadingUtf16Char c, GetTrailingUtf16Char c]
      else [GetLeadingUtf16Char c]) @ ConvertToUtf16_loop m p' e"
  by (subst ConvertToUtf16_loop.simps) simp

text \<open>Induction along an encoded string as a decoder walks over it.\<close>

lemma encoded_induct [consumes 1, case_names Nil single pair]:
  assumes "holds m p (ConvertUtf16ToUtf8 z f False cs)"
    and "\<And>p. P p []"
    and "\<And>p n ch rest. GetUtf16FromUtf8 m p = (ucast ch, p + n) \<Longrightarrow> 0 < n \<Longrightarrow> n < 4 \<Longrightarrow>
      holds m p (ConvertUtf16ToUtf8 z f False (ch # rest)) \<Longrightarrow>
      length (ConvertUtf16ToUtf8 z f False (ch # rest)) = n + length (ConvertUtf16ToUtf8 z f False rest) \<Longrightarrow>
      P (p + n) rest \<Longrightarrow> P p (ch # rest)"
    and "\<And>p c ch trail rest. f \<Longrightarrow> GetUtf16FromUtf8 m p = (c, p + 4) \<Longrightarrow> GetLeadingUtf16Char c = ch \<Longrightarrow>
      GetTrailingUtf16Char c = trail \<Longrightarrow> trail \<noteq> 0 \<Longrightarrow>
      holds m p (ConvertUtf16ToUtf8 z f False (ch # trail # rest)) \<Longrightarrow>
      length (ConvertUtf16ToUtf8 z f False (ch # trail # rest)) = 4 + length (ConvertUtf16ToUtf8 z f False rest) \<Longrightarrow>
      P (p + 4) rest \<Longrightarrow> P p (ch # trail # rest)"
  shows "P p cs"
  using assms(1)
proof (induction "length cs" arbitrary: p cs rule: less_induct)
  case less
  show ?case
  proof (cases cs)
    case Nil
    then show ?thesis using assms(2) by simp
  next
    case (Cons ch rest)
    with less.prems have h: "holds m p (ConvertUtf16ToUtf8 z f False (ch # rest))" by simp
    then show ?thesis
    proof (cases rule: Get_first)
      case (single n)
      with less.hyps [of rest "p + n"] Cons have "P (p + n) rest" by simp
      with single h Cons show ?thesis by (simp add: assms(3))
    next
      case (pair c trail rest')
      with less.hyps [of rest' "p + 4"] Cons have "P (p + 4) rest'" by simp
      with pair h Cons show ?thesis using assms(4) by simp
    qed
  qed
qed

lemma decode_loop_encoded:
  assumes "holds m p (ConvertUtf16ToUtf8 z f False cs)"
  shows "ConvertToUtf16_loop m p (p + length (ConvertUtf16ToUtf8 z f False cs)) = cs \<and>
    CountModifiedUtf8Chars_loop m p (p + length (ConvertUtf16ToUtf8 z f False cs)) len = len + length cs"
  using assms
proof (induction p cs arbitrary: len rule: encoded_induct)
  case (Nil p)
  then show ?case by (simp add: ConvertToUtf16_loop.simps CountModifiedUtf8Chars_loop.simps)
next
  case (single p n ch rest)
  then show ?case
    by (simp add: ConvertToUtf16_step CountModifiedUtf8Chars_step add.assoc)
next
  case (pair p c ch trail rest)
  then show ?case
    by (simp add: ConvertToUtf16_step CountModifiedUtf8Chars_step add.assoc)
qed

lemma encoded_nonzero:
  assumes "holds m p (ConvertUtf16ToUtf8 False f False (ch # rest))"
  shows "m p \<noteq> 0"
proof -
  obtain b bs where e: "ConvertUtf16ToUtf8 False f False (ch # rest) = b # bs"
    by (cases rule: conv_Cons_cases [of ch False f rest]) auto
  with conv_no_nul [of f "ch # rest"] have "b \<noteq> 0" by auto
  with assms e show ?thesis by (simp add: holds_Cons)
qed

lemma decode_nul_encoded:
  assumes "holds m p (ConvertUtf16ToUtf8 False f False cs)"
    and "m (p + length (ConvertUtf16ToUtf8 False f False cs)) = 0"
  shows "ConvertModifiedUtf8ToUtf16_nul m p out = Some (out @ cs)"
  using assms
proof (induction p cs arbitrary: out rule: encoded_induct)
  case (Nil p)
  then show ?case by (simp add: ConvertModifiedUtf8ToUtf16_nul.simps)
next
  case (single p n ch rest)
  then show ?case
    using encoded_nonzero by (subst ConvertModifiedUtf8ToUtf16_nul.simps) (simp add: add.assoc)
next
  case (pair p c ch trail rest)
  then show ?case
    using encoded_nonzero by (subst ConvertModifiedUtf8ToUtf16_nul.simps) (simp add: add.assoc)
qed

lemma hash_encoded:
  assumes "holds m p (ConvertUtf16ToUtf8 z f False cs)"
  shows "Utf16HashFromUtf8_loop m p (length cs) h = fold (\<lambda>ch hash. hash * 31 + ucast ch) cs h"
  using assms
proof (induction p cs arbitrary: h rule: encoded_induct)
  case (Nil p)
  then show ?case by (simp add: Utf16HashFromUtf8_loop.simps)
next
  case (single p n ch rest)
  then show ?case by (subst Utf16HashFromUtf8_loop.simps) (simp add: Let_def)
next
  case (pair p c ch trail rest)
  then show ?case by (subst Utf16HashFromUtf8_loop.simps) (simp add: Let_def)
qed

text \<open>Lexicographic comparison of UTF-16 strings by code unit.\<close>

fun cmp16 :: "u16 list \<Rightarrow> u16 list \<Rightarrow> int" where
  "cmp16 [] [] = 0"
| "cmp16 [] (y # ys) = - 1"
| "cmp16 (x # xs) [] = 1"
| "cmp16 (x # xs) (y # ys) = (if x = y then cmp16 xs ys else int (unat x) - int (unat y))"

lemma compare_encoded:
  assumes "holds m p (ConvertUtf16ToUtf8 False False False cs)"
    and "m (p + length (ConvertUtf16ToUtf8 False False False cs)) = 0"
    and "holds m q (ConvertUtf16ToUtf8 False False False ds)"
    and "m (q + length (ConvertUtf16ToUtf8 False False False ds)) = 0"
  shows "CompareModifiedUtf8 m p q = Some (cmp16 cs ds)"
  using assms
proof (induction p cs arbitrary: q ds rule: encoded_induct)
  case (Nil p)
  then show ?case
    using encoded_nonzero [of m q False] by (cases ds) (simp_all add: CompareModifiedUtf8.simps)
next
  case (single p n ch rest)
  have p: "m p \<noteq> 0" using single.hyps(4) by (rule encoded_nonzero)
  show ?case
  proof (cases ds)
    case Nil
    then show ?thesis using single p by (subst CompareModifiedUtf8.simps) simp
  next
    case (Cons d ds')
    have q: "m q \<noteq> 0" using single.prems(2) Cons encoded_nonzero by blast
    from single.prems(2) Cons have "holds m q (ConvertUtf16ToUtf8 False False False (d # ds'))" by simp
    then show ?thesis
    proof (cases rule: Get_first)
      case s2: (single k)
      then have "ch = d \<Longrightarrow> CompareModifiedUtf8 m (p + n) (q + k) = Some (cmp16 rest ds')"
        using single Cons by (simp add: add.assoc)
      moreover have "(ucast ch :: u32) = ucast d \<longleftrightarrow> ch = d"
        by (metis lead_of_ucast(1))
      ultimately show ?thesis
        using p q single.hyps(1) s2(1) Cons by (subst CompareModifiedUtf8.simps) (simp add: Let_def)
    qed simp
  qed
qed simp

lemma sgn_uint_diff: "(x :: u16) \<noteq> y \<Longrightarrow> sgn (uint x - uint y) = (if y < x then 1 else - 1)"
  by (auto simp: sgn_if word_less_def word_uint_eq_iff)

lemma compare_utf16_encoded:
  assumes "holds m p (ConvertUtf16ToUtf8 False f False cs)"
    and "m (p + length (ConvertUtf16ToUtf8 False f False cs)) = 0"
  shows "CompareModifiedUtf8ToUtf16 m p ds = sgn (cmp16 cs ds)"
  using assms
proof (induction p cs arbitrary: ds rule: encoded_induct)
  case (Nil p)
  then show ?case by (cases ds) (simp_all add: CompareModifiedUtf8ToUtf16.simps)
next
  case (single p n ch rest)
  have p: "m p \<noteq> 0" using single.hyps(4) by (rule encoded_nonzero)
  have "m (p + n + length (ConvertUtf16ToUtf8 False f False rest)) = 0" using single by (simp add: add.assoc)
  from single.IH [OF this] p single.hyps(1) show ?case
    by (subst CompareModifiedUtf8ToUtf16.simps, cases ds) (auto simp: Let_def sgn_uint_diff)
next
  case (pair p c ch trail rest)
  have p: "m p \<noteq> 0" using pair.hyps(6) by (rule encoded_nonzero)
  have "m (p + 4 + length (ConvertUtf16ToUtf8 False f False rest)) = 0" using pair by (simp add: add.assoc)
  from pair.IH [OF this] p pair.hyps(2-5) show ?case
    by (subst CompareModifiedUtf8ToUtf16.simps, cases ds rule: list.exhaust [case_product list.exhaust [of "tl ds"]])
      (auto simp: Let_def sgn_uint_diff)
qed

section \<open>Properties\<close>

text \<open>
  C4.  Every UTF-16 string, lone surrogates and NUL characters included, survives the round trip
  through modified UTF-8: decoding what \<open>ConvertUtf16ToModifiedUtf8\<close> wrote gives the string back,
  whether or not the all-ASCII shortcuts on either side are taken, and \<open>CountModifiedUtf8Chars\<close>
  gives the number of characters the decoder will write.
\<close>

theorem utf16_roundtrip:
  assumes "holds m p (ConvertUtf16ToModifiedUtf8 (CountModifiedUtf8BytesInUtf16 cs) cs)"
  shows "CountModifiedUtf8Chars m p (CountModifiedUtf8BytesInUtf16 cs) = length cs \<and>
    ConvertModifiedUtf8ToUtf16 m (length cs) p (CountModifiedUtf8BytesInUtf16 cs) = cs"
proof -
  let ?e = "ConvertUtf16ToUtf8 False True False cs"
  have e: "ConvertUtf16ToModifiedUtf8 (CountModifiedUtf8BytesInUtf16 cs) cs = ?e"
    using conv_length_ascii [of cs False True]
    by (simp add: ConvertUtf16ToModifiedUtf8_def CountModifiedUtf8BytesInUtf16_def)
  note d = decode_loop_encoded [OF assms [unfolded e]]
  have "map (\<lambda>a. ucast (m a)) [p..<p + length ?e] = cs" if len: "length cs = length ?e"
  proof (rule nth_equalityI)
    fix i
    assume "i < length (map (\<lambda>a. ucast (m a) :: u16) [p..<p + length ?e])"
    then have i: "i < length cs" using len by simp
    have "?e = map ucast cs" "\<forall>c \<in> set cs. c < 0x80"
      using conv_length_ascii [of cs False True] len [symmetric] by blast+
    with i have "?e ! i = ucast (cs ! i)" "cs ! i < 0x80" by simp_all
    moreover have "m (p + i) = ?e ! i" using assms i len unfolding e by (simp add: holds_def)
    ultimately have "ucast (m (p + i)) = cs ! i"
      by (simp add: unsigned_ucast_eq fits_take_bit fits_unat word_less_nat_alt)
    then show "map (\<lambda>a. ucast (m a)) [p..<p + length ?e] ! i = cs ! i" using i len by simp
  qed (simp add: len)
  with d show ?thesis
    by (simp add: CountModifiedUtf8Chars_def ConvertModifiedUtf8ToUtf16_def CountModifiedUtf8BytesInUtf16_def)
qed

theorem utf16_roundtrip_witness:
  "ConvertModifiedUtf8ToUtf16 (store (\<lambda>_. 0) 4 (ConvertUtf16ToModifiedUtf8
       (CountModifiedUtf8BytesInUtf16 [0x48, 0, 0xd801, 0xdc37]) [0x48, 0, 0xd801, 0xdc37])) 4 4
     (CountModifiedUtf8BytesInUtf16 [0x48, 0, 0xd801, 0xdc37]) = [0x48, 0, 0xd801, 0xdc37]"
  using utf16_roundtrip [OF holds_store, of "\<lambda>_. 0" 4 "[0x48, 0, 0xd801, 0xdc37]"] by (simp add: eval_nat_numeral)

text \<open>
  C23.  The NUL-terminated form: encoded text contains no zero byte, so with a terminator behind it the
  unbounded conversion loop stops exactly at the terminator, with the original string.
\<close>

theorem utf16_roundtrip_nul_terminated:
  assumes "holds m p (ConvertUtf16ToUtf8 False kUse4ByteSequence False cs @ [0])"
  shows "0 \<notin> set (ConvertUtf16ToUtf8 False kUse4ByteSequence False cs) \<and>
    ConvertModifiedUtf8ToUtf16_nul m p [] = Some cs"
  using assms decode_nul_encoded [of m p kUse4ByteSequence cs "[]"]
  by (simp add: conv_no_nul holds_append holds_Cons)

theorem utf16_roundtrip_nul_terminated_witness:
  "ConvertModifiedUtf8ToUtf16_nul (store (\<lambda>_. 0) 4 (ConvertUtf16ToUtf8 False False False [0x48, 0xd801] @ [0])) 4 [] =
     Some [0x48, 0xd801]"
  using utf16_roundtrip_nul_terminated [OF holds_store] by blast

text \<open>
  C24.  The hash computed straight from modified UTF-8 is the \<open>String.hashCode\<close> of the decoded string.
\<close>

theorem hash_of_encoded:
  assumes "holds m p (ConvertUtf16ToUtf8 kUseShortZero kUse4ByteSequence False cs)"
  shows "ComputeUtf16HashFromModifiedUtf8 m p (length cs) = ComputeUtf16Hash cs"
  using hash_encoded [OF assms] by (simp add: ComputeUtf16HashFromModifiedUtf8_def ComputeUtf16Hash_def)

theorem hash_of_encoded_witness:
  "ComputeUtf16HashFromModifiedUtf8 (store (\<lambda>_. 0) 4 (ConvertUtf16ToUtf8 False True False [0xd801, 0xdc37])) 4
     (length [0xd801 :: u16, 0xdc37]) = ComputeUtf16Hash [0xd801, 0xdc37]"
  by (rule hash_of_encoded [OF holds_store])

text \<open>
  C25.  Comparing two NUL-terminated modified UTF-8 strings (without four-byte sequences, as in dex
  files) terminates and gives the lexicographic comparison of the UTF-16 strings; comparing a
  modified UTF-8 string with a UTF-16 string gives its sign, whichever sequences are used.
\<close>

theorem compare_is_utf16_order:
  assumes "holds m p (ConvertUtf16ToUtf8 False False False cs @ [0])"
    and "holds m q (ConvertUtf16ToUtf8 False False False ds @ [0])"
    and "holds m r (ConvertUtf16ToUtf8 False kUse4ByteSequence False cs @ [0])"
  shows "CompareModifiedUtf8 m p q = Some (cmp16 cs ds) \<and> CompareModifiedUtf8ToUtf16 m r ds = sgn (cmp16 cs ds)"
  using assms compare_encoded [of m p cs q ds] compare_utf16_encoded [of m r kUse4ByteSequence cs ds]
  by (simp add: holds_append holds_Cons)

theorem compare_is_utf16_order_witness:
  "CompareModifiedUtf8 (store (\<lambda>_. 0) 4 (ConvertUtf16ToUtf8 False False False [0x61] @ [0])) 4 4 = Some 0"
  using compare_is_utf16_order [OF holds_store holds_store holds_store, of "\<lambda>_. 0" 4 "[0x61]"] by simp

end
