(* ===== verification/LockWord.thy ===== *)
theory LockWord
  imports BitUtils
begin

text \<open>
  The lock word of an object header (\<^verbatim>\<open>runtime/lock_word.h\<close>, \<^verbatim>\<open>lock_word-inl.h\<close>): the layout constants, the
  constructors of the four states and the accessors.  A failed CHECK is \<open>None\<close>.
\<close>

section \<open>Layout\<close>

definition kStateSize :: nat where "kStateSize = 2"
definition kReadBarrierStateSize :: nat where "kReadBarrierStateSize = 1"
definition kMarkBitStateSize :: nat where "kMarkBitStateSize = 1"
definition kThinLockOwnerSize :: nat where "kThinLockOwnerSize = 16"

definition kThinLockCountSize :: nat where
  "kThinLockCountSize = 32 - kThinLockOwnerSize - kStateSize - kReadBarrierStateSize - kMarkBitStateSize"

definition kThinLockOwnerShift :: nat where "kThinLockOwnerShift = 0"
definition kThinLockOwnerMask :: u32 where "kThinLockOwnerMask = push_bit kThinLockOwnerSize 1 - 1"
definition kThinLockMaxOwner :: u32 where "kThinLockMaxOwner = kThinLockOwnerMask"
definition kThinLockCountShift :: nat where "kThinLockCountShift = kThinLockOwnerSize + kThinLockOwnerShift"
definition kThinLockCountMask :: u32 where "kThinLockCountMask = push_bit kThinLockCountSize 1 - 1"
definition kThinLockMaxCount :: u32 where "kThinLockMaxCount = kThinLockCountMask"

definition kStateShift :: nat where
  "kStateShift = kReadBarrierStateSize + kThinLockCountSize + kThinLockCountShift + kMarkBitStateSize"

definition kStateMask :: u32 where "kStateMask = push_bit kStateSize 1 - 1"
definition kStateThinOrUnlocked :: u32 where "kStateThinOrUnlocked = 0"
definition kStateFat :: u32 where "kStateFat = 1"
definition kStateHash :: u32 where "kStateHash = 2"
definition kStateForwardingAddress :: u32 where "kStateForwardingAddress = 3"

definition kStateForwardingAddressShifted :: u32 where
  "kStateForwardingAddressShifted = push_bit kStateShift kStateForwardingAddress"

definition kReadBarrierStateShift :: nat where "kReadBarrierStateShift = kThinLockCountSize + kThinLockCountShift"
definition kReadBarrierStateMask :: u32 where "kReadBarrierStateMask = push_bit kReadBarrierStateSize 1 - 1"

definition kReadBarrierStateMaskShifted :: u32 where
  "kReadBarrierStateMaskShifted = push_bit kReadBarrierStateShift kReadBarrierStateMask"

definition kMarkBitStateShift :: nat where "kMarkBitStateShift = kReadBarrierStateSize + kReadBarrierStateShift"
definition kMarkBitStateMask :: u32 where "kMarkBitStateMask = push_bit kMarkBitStateSize 1 - 1"
definition kMarkBitStateMaskShifted :: u32 where
  "kMarkBitStateMaskShifted = push_bit kMarkBitStateShift kMarkBitStateMask"
definition kMarkBitStateMaskShiftedToggled :: u32 where
  "kMarkBitStateMaskShiftedToggled = NOT kMarkBitStateMaskShifted"

definition kGCStateShift :: nat where "kGCStateShift = kReadBarrierStateShift"
definition kGCStateMaskShifted :: u32 where
  "kGCStateMaskShifted = (kReadBarrierStateMaskShifted OR kMarkBitStateMaskShifted)"
definition kGCStateMaskShiftedToggled :: u32 where "kGCStateMaskShiftedToggled = NOT kGCStateMaskShifted"

definition kHashShift :: nat where "kHashShift = 0"
definition kHashSize :: nat where
  "kHashSize = 32 - kStateSize - kReadBarrierStateSize - kMarkBitStateSize"
definition kHashMask :: u32 where "kHashMask = push_bit kHashSize 1 - 1"
definition kMaxHash :: u32 where "kMaxHash = kHashMask"

definition kForwardingAddressShift :: nat where "kForwardingAddressShift = 3"

definition kMonitorIdShift :: nat where "kMonitorIdShift = kHashShift"
definition kMonitorIdMask :: u32 where "kMonitorIdMask = kHashMask"
definition kMaxMonitorId :: u32 where "kMaxMonitorId = kMaxHash"

section \<open>Constructors\<close>

definition FromThinLockId :: "u32 \<Rightarrow> u32 \<Rightarrow> u32 \<Rightarrow> u32 option" where
  "FromThinLockId thread_id count gc_state =
     (if \<not> thread_id \<le> kThinLockMaxOwner then None
      else if \<not> count \<le> kThinLockMaxCount then None
      else Some (push_bit kThinLockOwnerShift thread_id OR push_bit kThinLockCountShift count
        OR push_bit kGCStateShift gc_state OR push_bit kStateShift kStateThinOrUnlocked))"

definition FromForwardingAddress :: "u64 \<Rightarrow> u32" where
  "FromForwardingAddress target =
     ucast (drop_bit kForwardingAddressShift target OR ucast kStateForwardingAddressShifted)"

definition FromHashCode :: "u32 \<Rightarrow> u32 \<Rightarrow> u32 option" where
  "FromHashCode hash_code gc_state =
     (if \<not> hash_code \<le> kMaxHash then None
      else Some (push_bit kHashShift hash_code OR push_bit kGCStateShift gc_state
        OR push_bit kStateShift kStateHash))"

definition FromDefault :: "u32 \<Rightarrow> u32" where
  "FromDefault gc_state = push_bit kGCStateShift gc_state"

definition LockWord_Default :: u32 where
  "LockWord_Default = 0"

definition IsDefault :: "u32 \<Rightarrow> bool" where
  "IsDefault lw \<longleftrightarrow> LockWord_Default = lw"

text \<open>The constructor of a fat lock word, from the monitor's id.\<close>

definition FromMonitor :: "u32 \<Rightarrow> u32 \<Rightarrow> u32" where
  "FromMonitor monitor_id gc_state =
     (monitor_id OR push_bit kGCStateShift gc_state OR push_bit kStateShift kStateFat)"

section \<open>Accessors\<close>

datatype LockState = kUnlocked | kThinLocked | kFatLocked | kHashCode | kForwardingAddress

text \<open>\<open>gc_bits\<close> stands for \<open>gUseReadBarrier || gUseUserfaultfd\<close>.\<close>

definition GetLockState :: "bool \<Rightarrow> u32 \<Rightarrow> LockState" where
  "GetLockState gc_bits v =
     (if (if gc_bits then v AND kGCStateMaskShiftedToggled = 0 else v = 0) then kUnlocked
      else let internal_state = drop_bit kStateShift v AND kStateMask
           in if internal_state = kStateThinOrUnlocked then kThinLocked
              else if internal_state = kStateHash then kHashCode
              else if internal_state = kStateForwardingAddress then kForwardingAddress
              else kFatLocked)"

definition ReadBarrierState :: "u32 \<Rightarrow> u32" where
  "ReadBarrierState v = drop_bit kReadBarrierStateShift v AND kReadBarrierStateMask"

definition GCState :: "u32 \<Rightarrow> u32" where
  "GCState v = drop_bit kGCStateShift (v AND kGCStateMaskShifted)"

definition SetReadBarrierState :: "u32 \<Rightarrow> u32 \<Rightarrow> u32" where
  "SetReadBarrierState v rb_state =
     ((v AND NOT (push_bit kReadBarrierStateShift kReadBarrierStateMask))
      OR push_bit kReadBarrierStateShift (rb_state AND kReadBarrierStateMask))"

definition MarkBitState :: "u32 \<Rightarrow> u32" where
  "MarkBitState v = drop_bit kMarkBitStateShift v AND kMarkBitStateMask"

definition SetMarkBitState :: "u32 \<Rightarrow> u32 \<Rightarrow> u32" where
  "SetMarkBitState v mark_bit =
     ((v AND kMarkBitStateMaskShiftedToggled) OR push_bit kMarkBitStateShift mark_bit)"

definition ThinLockOwner :: "u32 \<Rightarrow> u32" where
  "ThinLockOwner v = drop_bit kThinLockOwnerShift v AND kThinLockOwnerMask"

definition ThinLockCount :: "u32 \<Rightarrow> u32" where
  "ThinLockCount v = drop_bit kThinLockCountShift v AND kThinLockCountMask"

definition FatLockMonitor :: "u32 \<Rightarrow> u32" where
  "FatLockMonitor v = drop_bit kMonitorIdShift v AND kMonitorIdMask"

text \<open>The shift is done in 32 bits before the value is widened.\<close>

definition ForwardingAddress :: "u32 \<Rightarrow> u64" where
  "ForwardingAddress v = ucast (push_bit kForwardingAddressShift v)"

definition LockWord_GetHashCode :: "u32 \<Rightarrow> u32" where
  "LockWord_GetHashCode v = drop_bit kHashShift v AND kHashMask"

definition GetValueWithoutGCState :: "u32 \<Rightarrow> u32" where
  "GetValueWithoutGCState v = v AND kGCStateMaskShiftedToggled"

definition LockWord_Equal :: "bool \<Rightarrow> u32 \<Rightarrow> u32 \<Rightarrow> bool" where
  "LockWord_Equal kIncludeReadBarrierState lw1 lw2 \<longleftrightarrow>
     (if kIncludeReadBarrierState then lw1 = lw2
      else GetValueWithoutGCState lw1 = GetValueWithoutGCState lw2)"

section \<open>The four fields\<close>

lemmas layout = kStateSize_def kReadBarrierStateSize_def kMarkBitStateSize_def kThinLockOwnerSize_def
  kThinLockCountSize_def kThinLockOwnerShift_def kThinLockCountShift_def kStateShift_def
  kReadBarrierStateShift_def kMarkBitStateShift_def kGCStateShift_def kHashShift_def kHashSize_def
  kForwardingAddressShift_def kMonitorIdShift_def

lemma layout_masks:
  "kThinLockOwnerMask = mask 16" "kThinLockCountMask = mask 12" "kStateMask = mask 2"
  "kReadBarrierStateMask = mask 1" "kMarkBitStateMask = mask 1" "kHashMask = mask 28" "kMonitorIdMask = mask 28"
  by (simp_all add: kThinLockOwnerMask_def kThinLockCountMask_def kStateMask_def kReadBarrierStateMask_def
      kMarkBitStateMask_def kHashMask_def kMonitorIdMask_def layout mask_eq_exp_minus_1)

lemma gc_mask: "kGCStateMaskShifted = push_bit 28 (mask 2)"
  by (simp add: kGCStateMaskShifted_def kReadBarrierStateMaskShifted_def kMarkBitStateMaskShifted_def layout
      layout_masks mask_eq_exp_minus_1)

lemma accessors:
  "ThinLockOwner v = take_bit 16 v" "ThinLockCount v = take_bit 12 (drop_bit 16 v)"
  "FatLockMonitor v = take_bit 28 v" "LockWord_GetHashCode v = take_bit 28 v"
  "ReadBarrierState v = take_bit 1 (drop_bit 28 v)" "MarkBitState v = take_bit 1 (drop_bit 29 v)"
  by (simp_all add: ThinLockOwner_def ThinLockCount_def FatLockMonitor_def LockWord_GetHashCode_def
      ReadBarrierState_def MarkBitState_def layout layout_masks take_bit_eq_mask)

lemma GCState_bits: "GCState v = take_bit 2 (drop_bit 28 v)"
  unfolding GCState_def gc_mask layout
  by (rule bit_word_eqI) (auto simp only: bit_drop_bit_eq bit_and_iff bit_push_bit_iff bit_mask_iff bit_take_bit_iff
      comp_def, auto)

lemma state_field: "drop_bit kStateShift v AND kStateMask = drop_bit 30 v"
  unfolding layout_masks layout take_bit_eq_mask [symmetric]
  by (rule bit_word_eqI) (auto simp: bit_take_bit_iff bit_drop_bit_eq dest: bit_imp_le_length)

text \<open>A lock word is its 28-bit body, its two GC bits and its two state bits.\<close>

lemma lock_word_eq_iff:
  "v = w \<longleftrightarrow> take_bit 28 v = take_bit 28 w \<and> GCState v = GCState w \<and> drop_bit 30 v = drop_bit 30 w"
    (is "_ \<longleftrightarrow> ?fields")
proof
  assume f: ?fields
  have "bit v n = bit w n" if "n < 32" for n
  proof -
    have "bit (take_bit 28 v) n = bit (take_bit 28 w) n"
      "bit (GCState v) (n - 28) = bit (GCState w) (n - 28)"
      "bit (drop_bit 30 v) (n - 30) = bit (drop_bit 30 w) (n - 30)"
      using f by simp_all
    then show ?thesis
      using that by (cases "n < 28"; cases "n < 30")
        (auto simp: GCState_bits bit_take_bit_iff bit_drop_bit_eq)
  qed
  then show "v = w" by (intro bit_word_eqI) simp
qed simp

lemma bit_GetValueWithoutGCState: "bit (GetValueWithoutGCState v) n \<longleftrightarrow> bit v n \<and> (n < 28 \<or> 30 \<le> n)"
  unfolding GetValueWithoutGCState_def kGCStateMaskShiftedToggled_def gc_mask
  by (auto simp only: bit_and_iff bit_not_iff_eq bit_push_bit_iff bit_mask_iff, auto dest: bit_imp_le_length)

lemma GetValueWithoutGCState_fields:
  "take_bit 28 (GetValueWithoutGCState v) = take_bit 28 v" "GCState (GetValueWithoutGCState v) = 0"
  "drop_bit 30 (GetValueWithoutGCState v) = drop_bit 30 v"
  unfolding GCState_bits
  by (rule bit_word_eqI; auto simp: bit_take_bit_iff bit_drop_bit_eq bit_GetValueWithoutGCState)+

lemma GetLockState_fields:
  "GetLockState g v =
     (if drop_bit 30 v = 0 \<and> take_bit 28 v = 0 \<and> (g \<or> GCState v = 0) then kUnlocked
      else if drop_bit 30 v = 0 then kThinLocked else if drop_bit 30 v = 2 then kHashCode
      else if drop_bit 30 v = 3 then kForwardingAddress else kFatLocked)"
proof -
  have "v = 0 \<longleftrightarrow> drop_bit 30 v = 0 \<and> take_bit 28 v = 0 \<and> GCState v = 0"
    using lock_word_eq_iff [of v 0] by (auto simp: GCState_bits)
  moreover have "GetValueWithoutGCState v = 0 \<longleftrightarrow> drop_bit 30 v = 0 \<and> take_bit 28 v = 0"
    using lock_word_eq_iff [of "GetValueWithoutGCState v" 0]
    by (auto simp: GetValueWithoutGCState_fields) (simp_all add: GCState_bits)
  ultimately show ?thesis
    unfolding GetLockState_def state_field Let_def GetValueWithoutGCState_def [symmetric]
    by (auto simp: kStateThinOrUnlocked_def kStateHash_def kStateForwardingAddress_def)
qed

text \<open>What the bits of a lock word mean: the state with its payload.\<close>

datatype lock_view = VUnlocked | VThin u32 u32 | VFat u32 | VHash u32 | VForwarding

definition lock_view :: "bool \<Rightarrow> u32 \<Rightarrow> lock_view" where
  "lock_view g v =
     (case GetLockState g v of
        kUnlocked \<Rightarrow> VUnlocked
      | kThinLocked \<Rightarrow> VThin (ThinLockOwner v) (ThinLockCount v)
      | kFatLocked \<Rightarrow> VFat (FatLockMonitor v)
      | kHashCode \<Rightarrow> VHash (LockWord_GetHashCode v)
      | kForwardingAddress \<Rightarrow> VForwarding)"

text \<open>The body, the GC bits and the state bits of a word put together from the three.\<close>

lemma assembled_fields:
  fixes body gc st :: u32
  assumes "fits 28 body" "fits 2 gc" "fits 2 st"
  defines "w \<equiv> body OR push_bit 28 gc OR push_bit 30 st"
  shows "take_bit 28 w = body" "GCState w = gc" "drop_bit 30 w = st"
proof -
  have b: "bit w n \<longleftrightarrow> n < 32 \<and> (bit body n \<or> 28 \<le> n \<and> bit gc (n - 28) \<or> 30 \<le> n \<and> bit st (n - 30))" for n
    unfolding w_def by (auto simp: bit_or_iff bit_push_bit_iff dest: bit_imp_le_length)
  have f: "bit body n \<Longrightarrow> n < 28" "bit gc n \<Longrightarrow> n < 2" "bit st n \<Longrightarrow> n < 2" for n
    using assms(1-3) by (auto simp: fits_def not_le [symmetric])
  show "take_bit 28 w = body"
    by (rule bit_word_eqI) (auto simp: bit_take_bit_iff b dest: f)
  show "GCState w = gc"
    unfolding GCState_bits by (rule bit_word_eqI) (auto simp: bit_take_bit_iff bit_drop_bit_eq b dest: f)
  show "drop_bit 30 w = st"
    by (rule bit_word_eqI) (auto simp: bit_drop_bit_eq b dest: f)
qed

lemma GCState_fits [simp]: "fits 2 (GCState v)"
  by (simp add: GCState_bits fits_def bit_take_bit_iff)

lemma fits_28_le: "fits 28 h \<longleftrightarrow> h \<le> kMaxHash"
  by (simp add: kMaxHash_def kHashMask_def layout fits_unat word_le_nat_alt) arith

lemma fits_16_le: "fits 16 t \<longleftrightarrow> t \<le> kThinLockMaxOwner"
  by (simp add: kThinLockMaxOwner_def kThinLockOwnerMask_def layout fits_unat word_le_nat_alt) arith

lemma fits_12_le: "fits 12 c \<longleftrightarrow> c \<le> kThinLockMaxCount"
  by (simp add: kThinLockMaxCount_def kThinLockCountMask_def layout fits_unat word_le_nat_alt) arith

lemma FromHashCode_view:
  assumes "FromHashCode h gc = Some w" "fits 2 gc"
  shows "lock_view g w = VHash h" "GCState w = gc"
proof -
  have w: "w = h OR push_bit 28 gc OR push_bit 30 2" "fits 28 h"
    using assms(1) by (auto simp: FromHashCode_def layout kStateHash_def fits_28_le split: if_splits)
  note a = assembled_fields [OF w(2) assms(2), of 2, folded w(1)]
  then show "lock_view g w = VHash h" "GCState w = gc"
    by (simp_all add: lock_view_def GetLockState_fields accessors fits_unat)
qed

lemma FromMonitor_view:
  assumes "fits 28 m" "fits 2 gc"
  shows "lock_view g (FromMonitor m gc) = VFat m" "GCState (FromMonitor m gc) = gc"
proof -
  have w: "FromMonitor m gc = m OR push_bit 28 gc OR push_bit 30 1"
    by (simp add: FromMonitor_def layout kStateFat_def)
  note a = assembled_fields [OF assms, of 1, folded w]
  then show "lock_view g (FromMonitor m gc) = VFat m" "GCState (FromMonitor m gc) = gc"
    by (simp_all add: lock_view_def GetLockState_fields accessors fits_unat)
qed

lemma FromDefault_view:
  assumes "fits 2 gc" "g \<or> gc = 0"
  shows "lock_view g (FromDefault gc) = VUnlocked" "GCState (FromDefault gc) = gc"
proof -
  have w: "FromDefault gc = 0 OR push_bit 28 gc OR push_bit 30 0"
    by (simp add: FromDefault_def layout)
  note a = assembled_fields [OF fits_0 assms(1) fits_0, folded w]
  then show "lock_view g (FromDefault gc) = VUnlocked" "GCState (FromDefault gc) = gc"
    using assms(2) by (simp_all add: lock_view_def GetLockState_fields)
qed

lemma thin_body:
  fixes t c :: u32
  assumes "fits 16 t" "fits 12 c"
  shows "fits 28 (t OR push_bit 16 c)" "take_bit 16 (t OR push_bit 16 c) = t"
    "drop_bit 16 (t OR push_bit 16 c) = c"
proof -
  have f: "bit t n \<Longrightarrow> n < 16" "bit c n \<Longrightarrow> n < 12" for n
    using assms by (auto simp: fits_def not_le [symmetric])
  show "fits 28 (t OR push_bit 16 c)"
    by (auto simp: fits_def bit_or_iff bit_push_bit_iff dest!: f)
  show "take_bit 16 (t OR push_bit 16 c) = t"
    by (rule bit_word_eqI) (auto simp only: bit_take_bit_iff bit_or_iff bit_push_bit_iff, auto dest: f)
  show "drop_bit 16 (t OR push_bit 16 c) = c"
    by (rule bit_word_eqI) (auto simp only: bit_drop_bit_eq comp_def bit_or_iff bit_push_bit_iff, auto dest: f)
qed

lemma FromThinLockId_view:
  assumes "FromThinLockId t c gc = Some w" "fits 2 gc" "t \<noteq> 0"
  shows "lock_view g w = VThin t c" "GCState w = gc"
proof -
  have w: "w = (t OR push_bit 16 c) OR push_bit 28 gc OR push_bit 30 0" "fits 16 t" "fits 12 c"
    using assms(1) by (auto simp: FromThinLockId_def layout kStateThinOrUnlocked_def fits_16_le fits_12_le or.assoc
        split: if_splits)
  note b = thin_body [OF w(2,3)]
  note a = assembled_fields [OF b(1) assms(2), of 0, folded w(1), OF fits_0]
  have "take_bit 16 w = take_bit 16 (take_bit 28 w)" "take_bit 12 (drop_bit 16 w) = drop_bit 16 (take_bit 28 w)"
    by (simp_all add: drop_bit_take_bit)
  then have owner: "take_bit 16 w = t" and cnt: "take_bit 12 (drop_bit 16 w) = c" by (simp_all only: a b)
  have "take_bit 28 w \<noteq> 0" using owner assms(3) \<open>take_bit 16 w = take_bit 16 (take_bit 28 w)\<close>
    by (metis take_bit_of_0)
  then show "lock_view g w = VThin t c" "GCState w = gc"
    by (simp_all add: lock_view_def GetLockState_fields accessors owner cnt a)
qed

lemma take_28_eq_iff:
  "take_bit 28 v = take_bit 28 (w :: u32) \<longleftrightarrow>
     take_bit 16 v = take_bit 16 w \<and> take_bit 12 (drop_bit 16 v) = take_bit 12 (drop_bit 16 w)" (is "_ \<longleftrightarrow> ?r")
proof
  assume r: ?r
  have "bit (take_bit 28 v) n = bit (take_bit 28 w) n" for n
  proof (cases "n < 16")
    case True
    then show ?thesis using r [THEN conjunct1, THEN arg_cong [where f = "\<lambda>x. bit x n"]]
      by (simp add: bit_take_bit_iff)
  next
    case False
    then show ?thesis using r [THEN conjunct2, THEN arg_cong [where f = "\<lambda>x. bit x (n - 16)"]]
      by (auto simp: bit_take_bit_iff bit_drop_bit_eq)
  qed
  then show "take_bit 28 v = take_bit 28 w" by (intro bit_word_eqI) simp
next
  assume e: "take_bit 28 v = take_bit 28 w"
  show ?r
    using e [THEN arg_cong [where f = "take_bit 16"]] e [THEN arg_cong [where f = "drop_bit 16"]]
    by (simp add: drop_bit_take_bit)
qed

lemma state_bits_cases: "drop_bit 30 (v :: u32) \<in> {0, 1, 2, 3}"
proof -
  have "fits 2 (drop_bit 30 v)" by (auto simp: fits_def bit_drop_bit_eq dest: bit_imp_le_length)
  then have "unat (drop_bit 30 v) \<in> {0, 1, 2, 3}" by (simp only: fits_unat) auto
  then show ?thesis by (simp add: word_unat_eq_iff)
qed

lemma lock_view_fields:
  "lock_view g v = VUnlocked \<Longrightarrow> drop_bit 30 v = 0 \<and> take_bit 28 v = 0"
  "lock_view g v = VThin t c \<Longrightarrow> drop_bit 30 v = 0 \<and> take_bit 16 v = t \<and> take_bit 12 (drop_bit 16 v) = c"
  "lock_view g v = VFat m \<Longrightarrow> drop_bit 30 v = 1 \<and> take_bit 28 v = m"
  "lock_view g v = VHash h \<Longrightarrow> drop_bit 30 v = 2 \<and> take_bit 28 v = h"
  using state_bits_cases [of v]
  by (auto simp: lock_view_def GetLockState_fields accessors split: if_splits)

lemma lock_word_eqI:
  assumes "lock_view g v = lock_view g w" "GCState v = GCState w" "lock_view g v \<noteq> VForwarding"
  shows "v = w"
proof -
  have "take_bit 28 v = take_bit 28 w \<and> drop_bit 30 v = drop_bit 30 w"
  proof (cases "lock_view g v")
    case (VThin t c)
    then show ?thesis using assms(1) lock_view_fields(2) [of g v] lock_view_fields(2) [of g w]
      unfolding take_28_eq_iff by simp
  qed (use assms(1,3) lock_view_fields(1,3,4) [of g v] lock_view_fields(1,3,4) [of g w] in simp_all)
  then show ?thesis using assms(2) lock_word_eq_iff [of v w] by blast
qed

lemma lock_view_fits:
  "lock_view g v = VThin t c \<Longrightarrow> fits 16 t \<and> fits 12 c" "lock_view g v = VFat m \<Longrightarrow> fits 28 m"
  "lock_view g v = VHash h \<Longrightarrow> fits 28 h"
  by (auto simp: lock_view_def accessors fits_def bit_take_bit_iff split: LockState.splits)

section \<open>The GC bits\<close>

lemma SetReadBarrierState_fields:
  "take_bit 28 (SetReadBarrierState v r) = take_bit 28 v" "drop_bit 30 (SetReadBarrierState v r) = drop_bit 30 v"
  "ReadBarrierState (SetReadBarrierState v r) = take_bit 1 r" "MarkBitState (SetReadBarrierState v r) = MarkBitState v"
proof -
  have b: "bit (SetReadBarrierState v r) n \<longleftrightarrow> (if n = 28 then bit r 0 else bit v n)" for n
    unfolding SetReadBarrierState_def layout layout_masks take_bit_eq_mask [symmetric]
    by (auto simp only: bit_or_iff bit_and_iff bit_not_iff_eq bit_push_bit_iff bit_mask_iff bit_take_bit_iff
        split: if_splits, auto dest: bit_imp_le_length simp: less_eq_Suc_le diff_is_0_eq)
  show "take_bit 28 (SetReadBarrierState v r) = take_bit 28 v" "drop_bit 30 (SetReadBarrierState v r) = drop_bit 30 v"
    "ReadBarrierState (SetReadBarrierState v r) = take_bit 1 r" "MarkBitState (SetReadBarrierState v r) = MarkBitState v"
    unfolding accessors
    by (rule bit_word_eqI, simp only: bit_take_bit_iff bit_drop_bit_eq b comp_def, force)+
qed

lemma SetMarkBitState_fields:
  assumes "fits 1 m"
  shows "take_bit 28 (SetMarkBitState v m) = take_bit 28 v" "drop_bit 30 (SetMarkBitState v m) = drop_bit 30 v"
    "ReadBarrierState (SetMarkBitState v m) = ReadBarrierState v" "MarkBitState (SetMarkBitState v m) = m"
proof -
  have b: "bit (SetMarkBitState v m) n \<longleftrightarrow> (if n = 29 then bit m 0 else bit v n)" for n
    using assms unfolding SetMarkBitState_def kMarkBitStateMaskShiftedToggled_def kMarkBitStateMaskShifted_def layout
      layout_masks fits_def
    by (auto simp only: bit_or_iff bit_and_iff bit_not_iff_eq bit_push_bit_iff bit_mask_iff
        split: if_splits, auto dest: bit_imp_le_length simp: less_eq_Suc_le diff_is_0_eq)
  have m: "bit m n \<Longrightarrow> n = 0" for n
    using assms by (cases n) (auto simp: fits_def)
  show "take_bit 28 (SetMarkBitState v m) = take_bit 28 v" "drop_bit 30 (SetMarkBitState v m) = drop_bit 30 v"
    "ReadBarrierState (SetMarkBitState v m) = ReadBarrierState v" "MarkBitState (SetMarkBitState v m) = m"
    unfolding accessors
    by (rule bit_word_eqI, simp only: bit_take_bit_iff bit_drop_bit_eq b comp_def, force dest: m)+
qed

lemma lock_view_gc_change:
  assumes "take_bit 28 v = take_bit 28 w" "drop_bit 30 v = drop_bit 30 w"
  shows "lock_view True v = lock_view True w"
proof -
  have "take_bit 16 v = take_bit 16 w" "take_bit 12 (drop_bit 16 v) = take_bit 12 (drop_bit 16 w)"
    using assms(1) by (simp_all only: take_28_eq_iff)
  then show ?thesis
    by (simp only: lock_view_def GetLockState_fields accessors assms simp_thms)
qed

section \<open>Forwarding addresses\<close>

lemma ForwardingAddress_roundtrip:
  assumes "fits 32 target" "take_bit 3 target = 0"
  shows "ForwardingAddress (FromForwardingAddress target) = target"
    "GetLockState g (FromForwardingAddress target) = kForwardingAddress"
proof -
  have t: "bit target n \<Longrightarrow> 3 \<le> n \<and> n < 32" for n
    using assms(1) assms(2) [THEN arg_cong [where f = "\<lambda>x. bit x n"]]
    by (auto simp: fits_def not_le [symmetric] bit_take_bit_iff)
  have c: "bit (3 :: u32) i \<longleftrightarrow> i < 2" for i
    by (cases i; cases "i - 1") (simp_all add: bit_Suc)
  have b: "bit (FromForwardingAddress target) n \<longleftrightarrow> n < 32 \<and> (bit target (3 + n) \<or> 30 \<le> n)" for n
    unfolding FromForwardingAddress_def layout kStateForwardingAddressShifted_def kStateForwardingAddress_def
    by (auto simp only: bit_ucast_iff bit_or_iff bit_drop_bit_eq bit_push_bit_iff c comp_def) auto
  show "ForwardingAddress (FromForwardingAddress target) = target"
    unfolding ForwardingAddress_def layout
    by (rule bit_word_eqI, simp only: bit_ucast_iff bit_push_bit_iff b) (use t in \<open>fastforce simp: le_add_diff_inverse\<close>)
  have "drop_bit 30 (FromForwardingAddress target) = 3"
    by (rule bit_word_eqI, unfold c) (auto simp: bit_drop_bit_eq b dest: t)
  then show "GetLockState g (FromForwardingAddress target) = kForwardingAddress"
    by (simp add: GetLockState_fields)
qed

end
