(* ===== verification/Monitor.thy ===== *)
theory Monitor
  imports LockWord
begin

text \<open>
  Object monitors (\<^verbatim>\<open>runtime/monitor.cc\<close>, \<^verbatim>\<open>runtime/monitor.h\<close>) and identity hash codes
  (\<^verbatim>\<open>runtime/mirror/object.cc\<close>).  A loop of the source that rereads the lock word is modelled by one iteration
  as a function of the lock word it has read and of the state the iteration acts on, so that the interleaving
  of several threads is explicit.  A failed CHECK or \<open>LOG(FATAL)\<close> is \<open>None\<close>.  A thread is named by its
  thread id; tracing, logging and profiling are left out.
\<close>

section \<open>State\<close>

definition kInvalidThreadId :: u32 where "kInvalidThreadId = 0"

text \<open>\<open>monitor_lock\<close> is the thread that holds the mutex \<open>monitor_lock_\<close>.  The wait and wake sets are the lists
  linked through \<open>Thread::GetWaitNext\<close>; \<open>has_obj\<close> is whether \<open>obj_\<close> is not null.\<close>

record monitor =
  monitor_lock :: "u32 option"
  num_waiters :: nat
  owner :: "u32 option"
  lock_count :: u32
  has_obj :: bool
  wait_set :: "u32 list"
  wake_set :: "u32 list"
  hash_code :: u32

text \<open>The state shared by the threads: the lock word of the object, the monitors by their id, the monitors of the
  monitor list and the seed of the identity hash codes.\<close>

record object_state =
  lock_word :: u32
  monitors :: "u32 \<Rightarrow> monitor option"
  monitor_list :: "u32 list"
  hash_code_seed :: u32

definition put_monitor :: "u32 \<Rightarrow> monitor \<Rightarrow> object_state \<Rightarrow> object_state" where
  "put_monitor mid m obj = obj\<lparr>monitors := (monitors obj)(mid := Some m)\<rparr>"

text \<open>\<open>ok\<close> is false where a weak compare-and-set fails spuriously.\<close>

definition CasLockWord :: "bool \<Rightarrow> u32 \<Rightarrow> u32 \<Rightarrow> object_state \<Rightarrow> bool \<times> object_state" where
  "CasLockWord ok old_val new_val obj =
     (if ok \<and> lock_word obj = old_val then (True, obj\<lparr>lock_word := new_val\<rparr>) else (False, obj))"

definition SetLockWord :: "u32 \<Rightarrow> object_state \<Rightarrow> object_state" where
  "SetLockWord new_val obj = obj\<lparr>lock_word := new_val\<rparr>"

section \<open>Identity hash codes\<close>

lemma hash_seed_step:
  assumes "(seed :: u32) AND kHashMask = 0"
  shows "(seed * 1103515245 + 12345) AND kHashMask = 12345"
proof -
  have m: "unat (x AND kHashMask) = unat x mod 268435456" for x :: u32
    unfolding layout_masks take_bit_eq_mask [symmetric] unsigned_take_bit_eq by (simp add: take_bit_eq_mod)
  have "unat seed mod 268435456 = 0" using assms m [of seed] by simp
  then obtain k where k: "unat seed = 268435456 * k" by auto
  have "unat (seed * 1103515245 + 12345) mod 268435456 = (unat seed * 1103515245 + 12345) mod 268435456"
    unfolding unat_word_ariths by (simp add: mod_mod_cancel mod_add_left_eq)
  also have "\<dots> = 12345" unfolding k by (simp add: mult.assoc mod_add_left_eq [symmetric])
  finally show ?thesis using m [of "seed * 1103515245 + 12345"] by (simp add: word_unat_eq_iff)
qed

function GenerateIdentityHashCode :: "u32 \<Rightarrow> u32 \<times> u32" where
  "GenerateIdentityHashCode seed =
     (let new_value = seed * 1103515245 + 12345
      in if seed AND kHashMask = 0 then GenerateIdentityHashCode new_value
         else (seed AND kHashMask, new_value))"
  by auto
termination
  by (relation "measure (\<lambda>seed. if seed AND kHashMask = 0 then 1 else 0)") (simp_all add: hash_seed_step)

declare GenerateIdentityHashCode.simps [simp del]

lemma GenerateIdentityHashCode_range:
  "fst (GenerateIdentityHashCode seed) \<noteq> 0" "fst (GenerateIdentityHashCode seed) \<le> kMaxHash"
proof -
  have le: "x AND kHashMask \<le> kMaxHash" for x
    by (simp add: fits_28_le [symmetric] layout_masks take_bit_eq_mask [symmetric] fits_def bit_take_bit_iff)
  show "fst (GenerateIdentityHashCode seed) \<noteq> 0" "fst (GenerateIdentityHashCode seed) \<le> kMaxHash"
    by (induction seed rule: GenerateIdentityHashCode.induct;
        subst GenerateIdentityHashCode.simps; simp add: Let_def le)+
qed

section \<open>Monitors\<close>

definition HasHashCode :: "monitor \<Rightarrow> bool" where
  "HasHashCode m \<longleftrightarrow> hash_code m \<noteq> 0"

definition GetHashCode :: "monitor \<Rightarrow> u32 \<Rightarrow> u32 \<times> monitor \<times> u32" where
  "GetHashCode m seed =
     (if \<not> HasHashCode m then
        let (generated, seed') = GenerateIdentityHashCode seed;
            m' = (if hash_code m = 0 then m\<lparr>hash_code := generated\<rparr> else m)
        in (hash_code m', m', seed')
      else (hash_code m, m, seed))"

text \<open>\<open>suspended\<close> tells which threads are suspended.\<close>

definition Monitor_new :: "u32 \<Rightarrow> (u32 \<Rightarrow> bool) \<Rightarrow> u32 option \<Rightarrow> u32 \<Rightarrow> monitor option" where
  "Monitor_new self suspended owner_thread hash =
     (if owner_thread = None \<or> owner_thread = Some self \<or> suspended (the owner_thread)
      then Some \<lparr>monitor_lock = None, num_waiters = 0, owner = owner_thread, lock_count = 0,
                 has_obj = True, wait_set = [], wake_set = [], hash_code = hash\<rparr>
      else None)"

definition TryLock :: "u32 \<Rightarrow> monitor \<Rightarrow> (bool \<times> monitor) option" where
  "TryLock self m =
     (if owner m = Some self then
        let m' = m\<lparr>lock_count := lock_count m + 1\<rparr>
        in if lock_count m' = 0 then None else Some (True, m')
      else if monitor_lock m \<noteq> None then Some (False, m)
      else let m' = m\<lparr>monitor_lock := Some self, owner := Some self\<rparr>
           in if lock_count m' \<noteq> 0 then None else Some (True, m'))"

text \<open>\<open>Lock\<close> in three parts: up to the point where the thread blocks, the acquisition of the mutex, and the
  update of the monitor after it.  The first part returns true where the lock was taken at once.\<close>

definition Lock_enter :: "u32 \<Rightarrow> monitor \<Rightarrow> (bool \<times> monitor) option" where
  "Lock_enter self m =
     (case TryLock self m of
        None \<Rightarrow> None
      | Some (True, m') \<Rightarrow> Some (True, m')
      | Some (False, m') \<Rightarrow> Some (False, m'\<lparr>num_waiters := num_waiters m' + 1\<rparr>))"

definition Lock_acquire :: "u32 \<Rightarrow> monitor \<Rightarrow> monitor option" where
  "Lock_acquire self m = (if monitor_lock m = None then Some (m\<lparr>monitor_lock := Some self\<rparr>) else None)"

definition Lock_finish :: "u32 \<Rightarrow> monitor \<Rightarrow> monitor" where
  "Lock_finish self m = m\<lparr>owner := Some self, num_waiters := num_waiters m - 1\<rparr>"

text \<open>\<open>waiting\<close> tells which threads have a wait monitor.  The result names the thread that is signalled.\<close>

fun next_to_wake :: "(u32 \<Rightarrow> bool) \<Rightarrow> u32 list \<Rightarrow> u32 option \<times> u32 list" where
  "next_to_wake waiting [] = (None, [])"
| "next_to_wake waiting (thread # rest) =
     (if waiting thread then (Some thread, rest) else next_to_wake waiting rest)"

definition SignalWaiterAndReleaseMonitorLock :: "(u32 \<Rightarrow> bool) \<Rightarrow> monitor \<Rightarrow> u32 option \<times> monitor" where
  "SignalWaiterAndReleaseMonitorLock waiting m =
     (let (signalled, rest) = next_to_wake waiting (wake_set m)
      in (signalled, m\<lparr>wake_set := rest, monitor_lock := None\<rparr>))"

definition Unlock :: "u32 \<Rightarrow> (u32 \<Rightarrow> bool) \<Rightarrow> monitor \<Rightarrow> bool \<times> monitor" where
  "Unlock self waiting m =
     (if owner m = Some self then
        (True, if lock_count m = 0 then snd (SignalWaiterAndReleaseMonitorLock waiting (m\<lparr>owner := None\<rparr>))
               else m\<lparr>lock_count := lock_count m - 1\<rparr>)
      else (False, m))"

definition AppendToWaitSet :: "u32 \<Rightarrow> monitor \<Rightarrow> monitor" where
  "AppendToWaitSet thread m = m\<lparr>wait_set := wait_set m @ [thread]\<rparr>"

definition RemoveFromWaitSet :: "u32 \<Rightarrow> monitor \<Rightarrow> monitor" where
  "RemoveFromWaitSet thread m =
     (if thread \<in> set (wait_set m) then m\<lparr>wait_set := remove1 thread (wait_set m)\<rparr>
      else m\<lparr>wake_set := remove1 thread (wake_set m)\<rparr>)"

text \<open>\<open>Wait\<close> up to the point where the thread sleeps, with its exceptions, and after it has the mutex again.\<close>

datatype wait_outcome = IllegalMonitorState | IllegalArgument | Sleeps u32 monitor

definition Wait_enter :: "u32 \<Rightarrow> (u32 \<Rightarrow> bool) \<Rightarrow> int \<Rightarrow> int \<Rightarrow> monitor \<Rightarrow> wait_outcome" where
  "Wait_enter self waiting ms ns m =
     (if owner m \<noteq> Some self then IllegalMonitorState
      else if ms < 0 \<or> ns < 0 \<or> ns > 999999 then IllegalArgument
      else let prev_lock_count = lock_count m;
               m1 = m\<lparr>lock_count := 0, owner := None, num_waiters := num_waiters m + 1\<rparr>;
               m2 = AppendToWaitSet self m1
           in Sleeps prev_lock_count (snd (SignalWaiterAndReleaseMonitorLock waiting m2)))"

definition Wait_finish :: "u32 \<Rightarrow> u32 \<Rightarrow> monitor \<Rightarrow> monitor" where
  "Wait_finish self prev_lock_count m =
     RemoveFromWaitSet self (m\<lparr>lock_count := prev_lock_count, num_waiters := num_waiters m - 1\<rparr>)"

text \<open>\<open>None\<close> is the IllegalMonitorStateException.\<close>

definition Notify :: "u32 \<Rightarrow> monitor \<Rightarrow> monitor option" where
  "Notify self m =
     (if owner m \<noteq> Some self then None
      else case wait_set m of
        [] \<Rightarrow> Some m
      | to_move # rest \<Rightarrow> Some (m\<lparr>wait_set := rest, wake_set := to_move # wake_set m\<rparr>))"

definition NotifyAll :: "u32 \<Rightarrow> monitor \<Rightarrow> monitor option" where
  "NotifyAll self m =
     (if owner m \<noteq> Some self then None
      else Some (m\<lparr>wait_set := [], wake_set := wake_set m @ wait_set m\<rparr>))"

definition GetOwnerThreadId :: "monitor \<Rightarrow> u32" where
  "GetOwnerThreadId m = (case owner m of Some t \<Rightarrow> t | None \<Rightarrow> kInvalidThreadId)"

definition IsLocked :: "monitor \<Rightarrow> bool" where
  "IsLocked m \<longleftrightarrow> owner m \<noteq> None"

section \<open>Inflation\<close>

text \<open>The runtime's flags, and \<open>max_spins_before_thin_lock_inflation_\<close>.\<close>

record config =
  gUseReadBarrier :: bool
  gUseUserfaultfd :: bool
  max_spins :: nat

definition gc_bits :: "config \<Rightarrow> bool" where
  "gc_bits cfg \<longleftrightarrow> gUseReadBarrier cfg \<or> gUseUserfaultfd cfg"

definition Install ::
  "config \<Rightarrow> bool \<Rightarrow> u32 \<Rightarrow> (u32 \<Rightarrow> bool) \<Rightarrow> u32 \<Rightarrow> object_state \<Rightarrow> (bool \<times> object_state) option" where
  "Install cfg ok self suspended mid obj =
     (case monitors obj mid of
        None \<Rightarrow> None
      | Some m \<Rightarrow>
          if \<not> (owner m = None \<or> owner m = Some self \<or> suspended (the (owner m))) then None
          else let lw = lock_word obj
            in case GetLockState (gc_bits cfg) lw of
                 kThinLocked \<Rightarrow>
                   (case owner m of
                      None \<Rightarrow> None
                    | Some owner_thread \<Rightarrow>
                        if owner_thread \<noteq> ThinLockOwner lw then None
                        else let m1 = m\<lparr>lock_count := ThinLockCount lw, monitor_lock := Some owner_thread\<rparr>;
                                 fat = FromMonitor mid (GCState lw);
                                 (success, obj1) = CasLockWord ok lw fat (put_monitor mid m1 obj)
                             in if success then Some (True, obj1)
                                else Some (False, put_monitor mid (m1\<lparr>monitor_lock := None\<rparr>) obj1))
               | kHashCode \<Rightarrow>
                   if hash_code m \<noteq> LockWord_GetHashCode lw then None
                   else Some (CasLockWord ok lw (FromMonitor mid (GCState lw)) obj)
               | kFatLocked \<Rightarrow> Some (False, obj)
               | kUnlocked \<Rightarrow> None
               | kForwardingAddress \<Rightarrow> None)"

text \<open>\<open>mid\<close> is the id the monitor pool gives to the new monitor.\<close>

definition Inflate ::
  "config \<Rightarrow> bool \<Rightarrow> u32 \<Rightarrow> u32 \<Rightarrow> (u32 \<Rightarrow> bool) \<Rightarrow> u32 option \<Rightarrow> u32 \<Rightarrow> object_state \<Rightarrow> object_state option" where
  "Inflate cfg ok mid self suspended owner_thread hash obj =
     (case Monitor_new self suspended owner_thread hash of
        None \<Rightarrow> None
      | Some m \<Rightarrow>
          (case Install cfg ok self suspended mid (put_monitor mid m obj) of
             None \<Rightarrow> None
           | Some (True, obj') \<Rightarrow>
               if GetLockState (gc_bits cfg) (lock_word obj') = kFatLocked
               then Some (obj'\<lparr>monitor_list := mid # monitor_list obj'\<rparr>) else None
           | Some (False, obj') \<Rightarrow> Some (obj'\<lparr>monitors := (monitors obj')(mid := None)\<rparr>)))"

text \<open>\<open>InflateThinLocked\<close> up to the request to suspend another owner (\<open>Inr\<close>), and after that request:
  \<open>got_owner\<close> is false where the owner could not be suspended.\<close>

definition InflateThinLocked ::
  "config \<Rightarrow> bool \<Rightarrow> u32 \<Rightarrow> u32 \<Rightarrow> u32 \<Rightarrow> u32 \<Rightarrow> object_state \<Rightarrow> (object_state + u32) option" where
  "InflateThinLocked cfg ok mid self lw hash obj =
     (let owner_thread_id = ThinLockOwner lw
      in if owner_thread_id = self then map_option Inl (Inflate cfg ok mid self (\<lambda>_. False) (Some self) hash obj)
         else Some (Inr owner_thread_id))"

definition InflateThinLocked_suspended ::
  "config \<Rightarrow> bool \<Rightarrow> u32 \<Rightarrow> u32 \<Rightarrow> u32 \<Rightarrow> bool \<Rightarrow> u32 \<Rightarrow> object_state \<Rightarrow> object_state option" where
  "InflateThinLocked_suspended cfg ok mid self owner_thread_id got_owner hash obj =
     (if got_owner then
        let lw = lock_word obj
        in if GetLockState (gc_bits cfg) lw = kThinLocked \<and> ThinLockOwner lw = owner_thread_id
           then Inflate cfg ok mid self (\<lambda>t. t = owner_thread_id) (Some owner_thread_id) hash obj
           else Some obj
      else Some obj)"

text \<open>\<open>Deflate\<close> runs with the other threads suspended.\<close>

definition Deflate :: "config \<Rightarrow> object_state \<Rightarrow> (bool \<times> object_state) option" where
  "Deflate cfg obj =
     (let lw = lock_word obj
      in if GetLockState (gc_bits cfg) lw = kFatLocked then
           (case monitors obj (FatLockMonitor lw) of
              None \<Rightarrow> None
            | Some m \<Rightarrow>
                if num_waiters m > 0 then Some (False, obj)
                else if monitor_lock m \<noteq> None then Some (False, obj)
                else
                  (case (if HasHashCode m then FromHashCode (hash_code m) (GCState lw)
                         else Some (FromDefault (GCState lw))) of
                     None \<Rightarrow> None
                   | Some new_lw \<Rightarrow>
                       Some (True, put_monitor (FatLockMonitor lw) (m\<lparr>has_obj := False\<rparr>) (SetLockWord new_lw obj))))
         else Some (True, obj))"

section \<open>Entering and leaving\<close>

definition kExtraSpinIters :: nat where "kExtraSpinIters = 100"

text \<open>What one iteration of the loop of \<open>MonitorEnter\<close> does: return the object, return null, start over with the
  given contention count, wait for the suspension of the owner, or block on the mutex of a monitor.\<close>

datatype enter_outcome =
    Entered object_state
  | NotEntered object_state
  | EnterAgain nat object_state
  | EnterSuspend nat u32
  | EnterBlocked u32 object_state

definition enter_inflate ::
  "config \<Rightarrow> bool \<Rightarrow> u32 \<Rightarrow> u32 \<Rightarrow> nat \<Rightarrow> u32 \<Rightarrow> object_state \<Rightarrow> enter_outcome option" where
  "enter_inflate cfg ok mid self contention lw obj =
     (case InflateThinLocked cfg ok mid self lw 0 obj of
        None \<Rightarrow> None
      | Some (Inl obj') \<Rightarrow> Some (EnterAgain contention obj')
      | Some (Inr owner_thread_id) \<Rightarrow> Some (EnterSuspend contention owner_thread_id))"

definition MonitorEnter ::
  "config \<Rightarrow> bool \<Rightarrow> u32 \<Rightarrow> u32 \<Rightarrow> bool \<Rightarrow> nat \<Rightarrow> u32 \<Rightarrow> object_state \<Rightarrow> enter_outcome option" where
  "MonitorEnter cfg ok mid self trylock contention lw obj =
     (case GetLockState (gc_bits cfg) lw of
        kUnlocked \<Rightarrow>
          (case FromThinLockId self 0 (GCState lw) of
             None \<Rightarrow> None
           | Some thin_locked \<Rightarrow>
               let (success, obj') = CasLockWord ok lw thin_locked obj
               in Some (if success then Entered obj' else EnterAgain contention obj'))
      | kThinLocked \<Rightarrow>
          if ThinLockOwner lw = self then
            let new_count = ThinLockCount lw + 1
            in if new_count \<le> kThinLockMaxCount then
                 (case FromThinLockId self new_count (GCState lw) of
                    None \<Rightarrow> None
                  | Some thin_locked \<Rightarrow>
                      if \<not> gUseReadBarrier cfg then Some (Entered (SetLockWord thin_locked obj))
                      else let (success, obj') = CasLockWord ok lw thin_locked obj
                           in Some (if success then Entered obj' else EnterAgain contention obj'))
               else enter_inflate cfg ok mid self contention lw obj
          else if trylock then Some (NotEntered obj)
          else let contention' = contention + 1
               in if contention' \<le> kExtraSpinIters + max_spins cfg then Some (EnterAgain contention' obj)
                  else enter_inflate cfg ok mid self 0 lw obj
      | kFatLocked \<Rightarrow>
          let mon = FatLockMonitor lw
          in (case monitors obj mon of
                None \<Rightarrow> None
              | Some m \<Rightarrow>
                  if trylock then
                    (case TryLock self m of
                       None \<Rightarrow> None
                     | Some (True, m') \<Rightarrow> Some (Entered (put_monitor mon m' obj))
                     | Some (False, m') \<Rightarrow> Some (NotEntered (put_monitor mon m' obj)))
                  else
                    (case Lock_enter self m of
                       None \<Rightarrow> None
                     | Some (True, m') \<Rightarrow> Some (Entered (put_monitor mon m' obj))
                     | Some (False, m') \<Rightarrow> Some (EnterBlocked mon (put_monitor mon m' obj))))
      | kHashCode \<Rightarrow>
          map_option (EnterAgain contention)
            (Inflate cfg ok mid self (\<lambda>_. False) None (LockWord_GetHashCode lw) obj)
      | kForwardingAddress \<Rightarrow> None)"

datatype exit_outcome = Exited bool object_state | ExitAgain object_state

definition MonitorExit ::
  "config \<Rightarrow> bool \<Rightarrow> u32 \<Rightarrow> (u32 \<Rightarrow> bool) \<Rightarrow> u32 \<Rightarrow> object_state \<Rightarrow> exit_outcome option" where
  "MonitorExit cfg ok self waiting lw obj =
     (case GetLockState (gc_bits cfg) lw of
        kHashCode \<Rightarrow> Some (Exited False obj)
      | kUnlocked \<Rightarrow> Some (Exited False obj)
      | kThinLocked \<Rightarrow>
          if ThinLockOwner lw \<noteq> self then Some (Exited False obj)
          else
            (case (if ThinLockCount lw \<noteq> 0 then FromThinLockId self (ThinLockCount lw - 1) (GCState lw)
                   else Some (FromDefault (GCState lw))) of
               None \<Rightarrow> None
             | Some new_lw \<Rightarrow>
                 if \<not> gUseReadBarrier cfg then Some (Exited True (SetLockWord new_lw obj))
                 else let (success, obj') = CasLockWord ok lw new_lw obj
                      in Some (if success then Exited True obj' else ExitAgain obj'))
      | kFatLocked \<Rightarrow>
          let mon = FatLockMonitor lw
          in (case monitors obj mon of
                None \<Rightarrow> None
              | Some m \<Rightarrow> let (released, m') = Unlock self waiting m in Some (Exited released (put_monitor mon m' obj)))
      | kForwardingAddress \<Rightarrow> None)"

section \<open>Hash codes, waiting and notification\<close>

datatype hash_outcome = Hashed u32 object_state | HashAgain object_state | HashSuspend u32 u32 object_state

definition IdentityHashCode :: "config \<Rightarrow> bool \<Rightarrow> u32 \<Rightarrow> u32 \<Rightarrow> u32 \<Rightarrow> object_state \<Rightarrow> hash_outcome option" where
  "IdentityHashCode cfg ok mid self lw obj =
     (case GetLockState (gc_bits cfg) lw of
        kUnlocked \<Rightarrow>
          let (generated, seed') = GenerateIdentityHashCode (hash_code_seed obj);
              obj1 = obj\<lparr>hash_code_seed := seed'\<rparr>
          in (case FromHashCode generated (GCState lw) of
                None \<Rightarrow> None
              | Some hash_word \<Rightarrow>
                  let (success, obj2) = CasLockWord True lw hash_word obj1
                  in Some (if success then Hashed (LockWord_GetHashCode hash_word) obj2 else HashAgain obj2))
      | kThinLocked \<Rightarrow>
          let (generated, seed') = GenerateIdentityHashCode (hash_code_seed obj);
              obj1 = obj\<lparr>hash_code_seed := seed'\<rparr>
          in (case InflateThinLocked cfg ok mid self lw generated obj1 of
                None \<Rightarrow> None
              | Some (Inl obj2) \<Rightarrow> Some (HashAgain obj2)
              | Some (Inr owner_thread_id) \<Rightarrow> Some (HashSuspend owner_thread_id generated obj1))
      | kFatLocked \<Rightarrow>
          let mon = FatLockMonitor lw
          in (case monitors obj mon of
                None \<Rightarrow> None
              | Some m \<Rightarrow>
                  let (hc, m', seed') = GetHashCode m (hash_code_seed obj)
                  in Some (Hashed hc (put_monitor mon m' (obj\<lparr>hash_code_seed := seed'\<rparr>))))
      | kHashCode \<Rightarrow> Some (Hashed (LockWord_GetHashCode lw) obj)
      | kForwardingAddress \<Rightarrow> None)"

datatype object_wait_outcome =
    WaitThrows wait_outcome
  | WaitAgain object_state
  | WaitSleeps u32 u32 object_state

definition Object_Wait ::
  "config \<Rightarrow> bool \<Rightarrow> u32 \<Rightarrow> u32 \<Rightarrow> (u32 \<Rightarrow> bool) \<Rightarrow> int \<Rightarrow> int \<Rightarrow> u32 \<Rightarrow> object_state \<Rightarrow> object_wait_outcome option" where
  "Object_Wait cfg ok mid self waiting ms ns lw obj =
     (case GetLockState (gc_bits cfg) lw of
        kHashCode \<Rightarrow> Some (WaitThrows IllegalMonitorState)
      | kUnlocked \<Rightarrow> Some (WaitThrows IllegalMonitorState)
      | kThinLocked \<Rightarrow>
          if ThinLockOwner lw \<noteq> self then Some (WaitThrows IllegalMonitorState)
          else map_option WaitAgain (Inflate cfg ok mid self (\<lambda>_. False) (Some self) 0 obj)
      | kFatLocked \<Rightarrow>
          let mon = FatLockMonitor lw
          in (case monitors obj mon of
                None \<Rightarrow> None
              | Some m \<Rightarrow>
                  (case Wait_enter self waiting ms ns m of
                     Sleeps prev m' \<Rightarrow> Some (WaitSleeps mon prev (put_monitor mon m' obj))
                   | e \<Rightarrow> Some (WaitThrows e)))
      | kForwardingAddress \<Rightarrow> None)"

text \<open>The flag of the result is false for the IllegalMonitorStateException.\<close>

definition DoNotify :: "config \<Rightarrow> u32 \<Rightarrow> bool \<Rightarrow> u32 \<Rightarrow> object_state \<Rightarrow> (bool \<times> object_state) option" where
  "DoNotify cfg self notify_all lw obj =
     (case GetLockState (gc_bits cfg) lw of
        kHashCode \<Rightarrow> Some (False, obj)
      | kUnlocked \<Rightarrow> Some (False, obj)
      | kThinLocked \<Rightarrow> Some (ThinLockOwner lw = self, obj)
      | kFatLocked \<Rightarrow>
          let mon = FatLockMonitor lw
          in (case monitors obj mon of
                None \<Rightarrow> None
              | Some m \<Rightarrow>
                  (case (if notify_all then NotifyAll self m else Notify self m) of
                     None \<Rightarrow> Some (False, obj)
                   | Some m' \<Rightarrow> Some (True, put_monitor mon m' obj)))
      | kForwardingAddress \<Rightarrow> None)"

definition GetLockOwnerThreadId :: "config \<Rightarrow> object_state \<Rightarrow> u32 option" where
  "GetLockOwnerThreadId cfg obj =
     (let lw = lock_word obj
      in case GetLockState (gc_bits cfg) lw of
           kHashCode \<Rightarrow> Some kInvalidThreadId
         | kUnlocked \<Rightarrow> Some kInvalidThreadId
         | kThinLocked \<Rightarrow> Some (ThinLockOwner lw)
         | kFatLocked \<Rightarrow> map_option GetOwnerThreadId (monitors obj (FatLockMonitor lw))
         | kForwardingAddress \<Rightarrow> None)"

definition IsValidLockWord :: "config \<Rightarrow> u32 list \<Rightarrow> u32 \<Rightarrow> bool option" where
  "IsValidLockWord cfg list lw =
     (case GetLockState (gc_bits cfg) lw of
        kUnlocked \<Rightarrow> Some True
      | kThinLocked \<Rightarrow> Some (ThinLockOwner lw \<noteq> kInvalidThreadId)
      | kFatLocked \<Rightarrow> Some (FatLockMonitor lw \<in> set list)
      | kHashCode \<Rightarrow> Some True
      | kForwardingAddress \<Rightarrow> None)"

end
