(* ===== verification/MonitorObject.thy ===== *)
theory MonitorObject
  imports Monitor
begin

text \<open>
  What the monitor operations do to an object, seen through the abstraction of its lock: who holds it how often,
  which identity hash code it has, how many threads its monitor counts as waiting.  For every elementary change
  of the object the theory shows the invariant and what another thread may rely on.
\<close>

section \<open>Abstraction and invariant\<close>

definition view :: "config \<Rightarrow> object_state \<Rightarrow> lock_view" where
  "view cfg obj = lock_view (gc_bits cfg) (lock_word obj)"

definition fat_monitor :: "config \<Rightarrow> object_state \<Rightarrow> monitor option" where
  "fat_monitor cfg obj = (case view cfg obj of VFat m \<Rightarrow> monitors obj m | _ \<Rightarrow> None)"

definition lock_holder :: "config \<Rightarrow> object_state \<Rightarrow> (u32 \<times> nat) option" where
  "lock_holder cfg obj =
     (case view cfg obj of
        VThin t c \<Rightarrow> Some (t, unat c + 1)
      | VFat m \<Rightarrow>
          (case monitors obj m of
             Some mon \<Rightarrow> map_option (\<lambda>t. (t, unat (lock_count mon) + 1)) (owner mon)
           | None \<Rightarrow> None)
      | _ \<Rightarrow> None)"

definition hold_count :: "(u32 \<times> nat) option \<Rightarrow> u32 \<Rightarrow> nat" where
  "hold_count l u = (case l of Some (t, n) \<Rightarrow> if u = t then n else 0 | None \<Rightarrow> 0)"

definition object_hash :: "config \<Rightarrow> object_state \<Rightarrow> u32 option" where
  "object_hash cfg obj =
     (case view cfg obj of
        VHash h \<Rightarrow> Some h
      | VFat m \<Rightarrow>
          (case monitors obj m of
             Some mon \<Rightarrow> if hash_code mon = 0 then None else Some (hash_code mon)
           | None \<Rightarrow> None)
      | _ \<Rightarrow> None)"

definition waiters :: "config \<Rightarrow> object_state \<Rightarrow> nat" where
  "waiters cfg obj = (case fat_monitor cfg obj of Some mon \<Rightarrow> num_waiters mon | None \<Rightarrow> 0)"

definition monitor_ok :: "monitor \<Rightarrow> bool" where
  "monitor_ok mon \<longleftrightarrow>
     (case owner mon of
        None \<Rightarrow> lock_count mon = 0
      | Some t \<Rightarrow> monitor_lock mon = Some t \<and> t \<noteq> kInvalidThreadId)
     \<and> hash_code mon \<le> kMaxHash \<and> has_obj mon"

definition object_ok :: "config \<Rightarrow> object_state \<Rightarrow> bool" where
  "object_ok cfg obj \<longleftrightarrow>
     (gc_bits cfg \<or> GCState (lock_word obj) = 0) \<and>
     (case view cfg obj of
        VUnlocked \<Rightarrow> True
      | VThin t c \<Rightarrow> t \<noteq> kInvalidThreadId
      | VFat m \<Rightarrow> m \<in> set (monitor_list obj) \<and> (\<exists>mon. monitors obj m = Some mon \<and> monitor_ok mon)
      | VHash h \<Rightarrow> h \<noteq> 0
      | VForwarding \<Rightarrow> False)"

text \<open>What thread \<open>u\<close> may rely on when another thread changes the object.\<close>

definition frame :: "config \<Rightarrow> u32 \<Rightarrow> object_state \<Rightarrow> object_state \<Rightarrow> bool" where
  "frame cfg u obj obj' \<longleftrightarrow>
     hold_count (lock_holder cfg obj') u = hold_count (lock_holder cfg obj) u \<and>
     (\<forall>m. view cfg obj = VFat m \<longrightarrow> view cfg obj' = VFat m) \<and>
     (\<forall>mon. fat_monitor cfg obj = Some mon \<longrightarrow> monitor_lock mon = Some u \<longrightarrow>
        (\<exists>mon'. fat_monitor cfg obj' = Some mon' \<and> monitor_lock mon' = Some u \<and> owner mon' = owner mon
           \<and> lock_count mon' = lock_count mon)) \<and>
     (\<forall>h. view cfg obj = VHash h \<longrightarrow>
        view cfg obj' = VHash h \<or> (\<exists>mon. fat_monitor cfg obj' = Some mon \<and> hash_code mon = h)) \<and>
     (\<forall>h. object_hash cfg obj = Some h \<longrightarrow> object_hash cfg obj' = Some h)"

definition keeps_thin :: "config \<Rightarrow> u32 \<Rightarrow> object_state \<Rightarrow> object_state \<Rightarrow> bool" where
  "keeps_thin cfg u obj obj' \<longleftrightarrow>
     (\<forall>c. view cfg obj = VThin u c \<longrightarrow>
        view cfg obj' = VThin u c \<and> (\<not> gUseReadBarrier cfg \<longrightarrow> lock_word obj' = lock_word obj))"

lemmas object_defs = fat_monitor_def lock_holder_def object_hash_def waiters_def object_ok_def

lemma seed_irrelevant [simp]:
  "view cfg (obj\<lparr>hash_code_seed := s\<rparr>) = view cfg obj"
  "fat_monitor cfg (obj\<lparr>hash_code_seed := s\<rparr>) = fat_monitor cfg obj"
  "lock_holder cfg (obj\<lparr>hash_code_seed := s\<rparr>) = lock_holder cfg obj"
  "object_hash cfg (obj\<lparr>hash_code_seed := s\<rparr>) = object_hash cfg obj"
  "waiters cfg (obj\<lparr>hash_code_seed := s\<rparr>) = waiters cfg obj"
  "object_ok cfg (obj\<lparr>hash_code_seed := s\<rparr>) = object_ok cfg obj"
proof -
  show v: "view cfg (obj\<lparr>hash_code_seed := s\<rparr>) = view cfg obj" by (simp add: view_def)
  show "fat_monitor cfg (obj\<lparr>hash_code_seed := s\<rparr>) = fat_monitor cfg obj"
    "lock_holder cfg (obj\<lparr>hash_code_seed := s\<rparr>) = lock_holder cfg obj"
    "object_hash cfg (obj\<lparr>hash_code_seed := s\<rparr>) = object_hash cfg obj"
    "waiters cfg (obj\<lparr>hash_code_seed := s\<rparr>) = waiters cfg obj"
    "object_ok cfg (obj\<lparr>hash_code_seed := s\<rparr>) = object_ok cfg obj"
    by (cases "view cfg obj"; simp add: object_defs v)+
qed

section \<open>The elementary changes\<close>

text \<open>A change \<open>monitor_change t mon mon'\<close> of the monitor by thread \<open>t\<close>.\<close>

definition monitor_change :: "u32 \<Rightarrow> monitor \<Rightarrow> monitor \<Rightarrow> bool" where
  "monitor_change t mon mon' \<longleftrightarrow>
     monitor_ok mon' \<and> (hash_code mon \<noteq> 0 \<longrightarrow> hash_code mon' = hash_code mon) \<and>
     (\<forall>u. u \<noteq> t \<longrightarrow> monitor_lock mon = Some u \<longrightarrow>
        monitor_lock mon' = Some u \<and> owner mon' = owner mon \<and> lock_count mon' = lock_count mon) \<and>
     (\<forall>u. u \<noteq> t \<longrightarrow> owner mon' = Some u \<longrightarrow> owner mon = Some u)"

lemma fat_change:
  assumes ok: "object_ok cfg obj" and v: "view cfg obj = VFat m" and m: "monitors obj m = Some mon"
    and ch: "monitor_change t mon mon'"
    and obj': "lock_word obj' = lock_word obj" "monitors obj' m = Some mon'" "monitor_list obj' = monitor_list obj"
  shows "object_ok cfg obj'" "u \<noteq> t \<Longrightarrow> frame cfg u obj obj'" "keeps_thin cfg u obj obj'"
    "view cfg obj' = VFat m" "fat_monitor cfg obj' = Some mon'"
    "lock_holder cfg obj' = map_option (\<lambda>t. (t, unat (lock_count mon') + 1)) (owner mon')"
    "object_hash cfg obj' = (if hash_code mon' = 0 then None else Some (hash_code mon'))"
    "waiters cfg obj' = num_waiters mon'"
proof -
  have v': "view cfg obj' = VFat m" using v obj' by (simp add: view_def)
  show "object_ok cfg obj'" "keeps_thin cfg u obj obj'" "view cfg obj' = VFat m" "fat_monitor cfg obj' = Some mon'"
    "lock_holder cfg obj' = map_option (\<lambda>t. (t, unat (lock_count mon') + 1)) (owner mon')"
    "object_hash cfg obj' = (if hash_code mon' = 0 then None else Some (hash_code mon'))"
    "waiters cfg obj' = num_waiters mon'"
    using ok v v' m ch obj' by (simp_all add: object_defs keeps_thin_def monitor_change_def)
  assume u: "u \<noteq> t"
  have "monitor_ok mon" using ok v m by (simp add: object_ok_def)
  then have "hold_count (lock_holder cfg obj') u = hold_count (lock_holder cfg obj) u"
    using u v v' m obj' ch
    by (auto simp: hold_count_def lock_holder_def monitor_change_def monitor_ok_def split: option.splits)
  then show "frame cfg u obj obj'"
    using u v v' m obj' ch by (auto simp: frame_def object_defs monitor_change_def)
qed

text \<open>Thread \<open>t\<close> takes, retakes or gives up a lock that is not inflated.\<close>

lemma thin_change:
  assumes "view cfg obj = VUnlocked \<or> view cfg obj = VThin t c"
    and "view cfg obj' = VUnlocked \<or> view cfg obj' = VThin t c'" "t \<noteq> kInvalidThreadId"
    and "gc_bits cfg \<or> GCState (lock_word obj') = 0"
  shows "object_ok cfg obj'" "u \<noteq> t \<Longrightarrow> frame cfg u obj obj'" "u \<noteq> t \<Longrightarrow> keeps_thin cfg u obj obj'"
    "lock_holder cfg obj' = (if view cfg obj' = VUnlocked then None else Some (t, unat c' + 1))"
    "object_hash cfg obj' = None" "waiters cfg obj' = 0"
  using assms by (auto simp: object_defs frame_def keeps_thin_def hold_count_def)

lemma gc_change:
  assumes "view cfg obj' = view cfg obj" "monitors obj' = monitors obj" "monitor_list obj' = monitor_list obj"
    and "object_ok cfg obj" "gUseReadBarrier cfg \<or> lock_word obj' = lock_word obj"
  shows "object_ok cfg obj'" "frame cfg u obj obj'" "keeps_thin cfg u obj obj'"
    "lock_holder cfg obj' = lock_holder cfg obj" "object_hash cfg obj' = object_hash cfg obj"
    "waiters cfg obj' = waiters cfg obj"
  using assms by (auto simp: object_defs frame_def keeps_thin_def gc_bits_def split: lock_view.splits)

text \<open>A change that neither the lock word nor a monitor it names shows.\<close>

lemma no_change:
  assumes "lock_word obj' = lock_word obj" "monitor_list obj' = monitor_list obj"
    and "\<And>m. view cfg obj = VFat m \<Longrightarrow> monitors obj' m = monitors obj m" and "object_ok cfg obj"
  shows "object_ok cfg obj'" "frame cfg u obj obj'" "keeps_thin cfg u obj obj'"
    "lock_holder cfg obj' = lock_holder cfg obj" "object_hash cfg obj' = object_hash cfg obj"
    "waiters cfg obj' = waiters cfg obj"
  using assms by (auto simp: view_def object_defs frame_def keeps_thin_def split: lock_view.splits)

lemma hash_change:
  assumes "view cfg obj = VUnlocked" "view cfg obj' = VHash h" "h \<noteq> 0"
    and "gc_bits cfg \<or> GCState (lock_word obj') = 0"
  shows "object_ok cfg obj'" "frame cfg u obj obj'" "keeps_thin cfg u obj obj'" "lock_holder cfg obj' = None"
    "object_hash cfg obj' = Some h" "waiters cfg obj' = 0"
  using assms by (auto simp: object_defs frame_def keeps_thin_def hold_count_def)

lemma inflate_change:
  assumes "object_ok cfg obj" "view cfg obj = VThin t c \<or> view cfg obj = VHash h" "view cfg obj' = VFat m"
    and "monitors obj' m = Some mon" "m \<in> set (monitor_list obj')" "num_waiters mon = 0" "monitor_ok mon"
    and "owner mon = (case view cfg obj of VThin t c \<Rightarrow> Some t | _ \<Rightarrow> None)"
    and "view cfg obj = VThin t c \<Longrightarrow> lock_count mon = c"
    and "view cfg obj = VHash h \<Longrightarrow> hash_code mon = h"
    and "gc_bits cfg \<or> GCState (lock_word obj') = 0"
  shows "object_ok cfg obj'" "frame cfg u obj obj'" "lock_holder cfg obj' = lock_holder cfg obj" "waiters cfg obj' = 0"
    "object_hash cfg obj' = (if hash_code mon = 0 then None else Some (hash_code mon))"
  using assms by (auto simp: object_defs frame_def keeps_thin_def hold_count_def monitor_ok_def)

section \<open>Inflation\<close>

lemma lock_view_GetLockState:
  "GetLockState g v = kUnlocked \<longleftrightarrow> lock_view g v = VUnlocked"
  "GetLockState g v = kThinLocked \<longleftrightarrow> lock_view g v = VThin (ThinLockOwner v) (ThinLockCount v)"
  "GetLockState g v = kFatLocked \<longleftrightarrow> lock_view g v = VFat (FatLockMonitor v)"
  "GetLockState g v = kHashCode \<longleftrightarrow> lock_view g v = VHash (LockWord_GetHashCode v)"
  "GetLockState g v = kForwardingAddress \<longleftrightarrow> lock_view g v = VForwarding"
  by (simp_all add: lock_view_def split: LockState.splits)

lemma lock_view_accessors:
  "lock_view g v = VThin t c \<Longrightarrow> ThinLockOwner v = t \<and> ThinLockCount v = c"
  "lock_view g v = VFat m \<Longrightarrow> FatLockMonitor v = m"
  "lock_view g v = VHash h \<Longrightarrow> LockWord_GetHashCode v = h"
  by (simp_all add: lock_view_def split: LockState.splits)

lemma lock_view_state:
  "lock_view g v = VUnlocked \<Longrightarrow> GetLockState g v = kUnlocked"
  "lock_view g v = VThin t c \<Longrightarrow> GetLockState g v = kThinLocked"
  "lock_view g v = VFat m \<Longrightarrow> GetLockState g v = kFatLocked"
  "lock_view g v = VHash h \<Longrightarrow> GetLockState g v = kHashCode"
  by (simp_all add: lock_view_def split: LockState.splits)

text \<open>A change that leaves the holder of the lock and the number of waiters as they are.\<close>

definition silent :: "config \<Rightarrow> object_state \<Rightarrow> object_state \<Rightarrow> bool" where
  "silent cfg obj obj' \<longleftrightarrow>
     object_ok cfg obj' \<and> (\<forall>u. frame cfg u obj obj') \<and> lock_holder cfg obj' = lock_holder cfg obj \<and>
     waiters cfg obj' = waiters cfg obj"

lemma keeps_thin_other: "(\<And>c. view cfg obj \<noteq> VThin u c) \<Longrightarrow> keeps_thin cfg u obj obj'"
  by (simp add: keeps_thin_def)

lemma FromMonitor_GetLockState: "fits 28 mid \<Longrightarrow> GetLockState g (FromMonitor mid (GCState lw)) = kFatLocked"
  using lock_view_state(3) [OF FromMonitor_view(1)] by simp

lemma Inflate_thin:
  assumes ok: "object_ok cfg obj" and v: "view cfg obj = VThin t c" and mid: "monitors obj mid = None" "fits 28 mid"
    and h: "hash \<le> kMaxHash" and t: "t = self \<or> suspended t"
  shows "\<exists>obj'. Inflate cfg ok mid self suspended (Some t) hash obj = Some obj' \<and> silent cfg obj obj'"
proof -
  define lw where "lw = lock_word obj"
  have lv: "lock_view (gc_bits cfg) lw = VThin t c" using v by (simp add: view_def lw_def)
  have st: "GetLockState (gc_bits cfg) lw = kThinLocked" "ThinLockOwner lw = t" "ThinLockCount lw = c"
    using lock_view_state(2) [OF lv] lock_view_accessors(1) [OF lv] by simp_all
  have gc: "gc_bits cfg \<or> GCState lw = 0" "t \<noteq> kInvalidThreadId"
    using ok v by (simp_all add: object_ok_def lw_def)
  define mon where "mon = \<lparr>monitor_lock = Some t, num_waiters = 0, owner = Some t, lock_count = c,
    has_obj = True, wait_set = [], wake_set = [], hash_code = hash\<rparr>"
  have mon: "monitor_ok mon" using h gc by (simp add: monitor_ok_def mon_def)
  show ?thesis
  proof (cases ok)
    case True
    define obj' where "obj' = obj\<lparr>lock_word := FromMonitor mid (GCState lw),
      monitors := (monitors obj)(mid := Some mon), monitor_list := mid # monitor_list obj\<rparr>"
    have "Inflate cfg ok mid self suspended (Some t) hash obj = Some obj'"
      using True t st FromMonitor_GetLockState [OF mid(2), of "gc_bits cfg" lw]
      by (auto simp: Inflate_def Monitor_new_def Install_def CasLockWord_def put_monitor_def Let_def obj'_def
          mon_def lw_def)
    moreover have "view cfg obj' = VFat mid" "GCState (lock_word obj') = GCState lw"
      using FromMonitor_view [OF mid(2) GCState_fits [of lw]] by (simp_all add: view_def obj'_def)
    then have "silent cfg obj obj'"
      using inflate_change [OF ok disjI1 [OF v], of obj' mid mon undefined] v mon gc
      by (simp add: silent_def obj'_def mon_def waiters_def fat_monitor_def)
    ultimately show ?thesis by blast
  next
    case False
    define obj' where "obj' = obj\<lparr>monitors := (monitors obj)(mid := None)\<rparr>"
    have "Inflate cfg ok mid self suspended (Some t) hash obj = Some obj'"
      using False t st
      by (auto simp: Inflate_def Monitor_new_def Install_def CasLockWord_def put_monitor_def Let_def obj'_def lw_def)
    moreover have "silent cfg obj obj'"
      using no_change [of obj' obj cfg] v ok by (simp add: silent_def obj'_def)
    ultimately show ?thesis by blast
  qed
qed

text \<open>Another thread has inflated the lock first.\<close>

lemma Inflate_fat:
  assumes ok: "object_ok cfg obj" and v: "view cfg obj = VFat m" and mid: "monitors obj mid = None"
    and t: "owner_thread = None \<or> owner_thread = Some self \<or> suspended (the owner_thread)"
  shows "\<exists>obj'. Inflate cfg ok mid self suspended owner_thread hash obj = Some obj' \<and> silent cfg obj obj'"
proof -
  define obj' where "obj' = obj\<lparr>monitors := (monitors obj)(mid := None)\<rparr>"
  have "GetLockState (gc_bits cfg) (lock_word obj) = kFatLocked"
    using v lock_view_state(3) by (auto simp: view_def)
  then have "Inflate cfg ok mid self suspended owner_thread hash obj = Some obj'"
    using t by (auto simp: Inflate_def Monitor_new_def Install_def put_monitor_def Let_def obj'_def)
  moreover have "m \<noteq> mid" using ok v mid by (auto simp: object_ok_def)
  then have "silent cfg obj obj'"
    using no_change [of obj' obj cfg] v ok by (simp add: silent_def obj'_def)
  ultimately show ?thesis by blast
qed

lemma Inflate_hash:
  assumes ok: "object_ok cfg obj" and v: "view cfg obj = VHash h" and mid: "monitors obj mid = None" "fits 28 mid"
  shows "\<exists>obj'. Inflate cfg ok mid self suspended None h obj = Some obj' \<and> silent cfg obj obj'"
proof -
  define lw where "lw = lock_word obj"
  have lv: "lock_view (gc_bits cfg) lw = VHash h" using v by (simp add: view_def lw_def)
  have st: "GetLockState (gc_bits cfg) lw = kHashCode" "LockWord_GetHashCode lw = h" "h \<le> kMaxHash"
    using lock_view_state(4) [OF lv] lock_view_accessors(3) [OF lv] lock_view_fits(3) [OF lv]
    by (simp_all add: fits_28_le)
  have gc: "gc_bits cfg \<or> GCState lw = 0" "h \<noteq> 0"
    using ok v by (simp_all add: object_ok_def lw_def)
  define mon where "mon = \<lparr>monitor_lock = None, num_waiters = 0, owner = None, lock_count = 0,
    has_obj = True, wait_set = [], wake_set = [], hash_code = h\<rparr>"
  have mon: "monitor_ok mon" using st by (simp add: monitor_ok_def mon_def)
  show ?thesis
  proof (cases ok)
    case True
    define obj' where "obj' = obj\<lparr>lock_word := FromMonitor mid (GCState lw),
      monitors := (monitors obj)(mid := Some mon), monitor_list := mid # monitor_list obj\<rparr>"
    have "Inflate cfg ok mid self suspended None h obj = Some obj'"
      using True st FromMonitor_GetLockState [OF mid(2), of "gc_bits cfg" lw]
      by (simp add: Inflate_def Monitor_new_def Install_def CasLockWord_def put_monitor_def Let_def obj'_def
          mon_def lw_def)
    moreover have "view cfg obj' = VFat mid" "GCState (lock_word obj') = GCState lw"
      using FromMonitor_view [OF mid(2) GCState_fits [of lw]] by (simp_all add: view_def obj'_def)
    then have "silent cfg obj obj'"
      using inflate_change [OF ok disjI2 [OF v], of obj' mid mon undefined] v mon gc
      by (simp add: silent_def obj'_def mon_def waiters_def fat_monitor_def)
    ultimately show ?thesis by blast
  next
    case False
    define obj' where "obj' = obj\<lparr>monitors := (monitors obj)(mid := None)\<rparr>"
    have "Inflate cfg ok mid self suspended None h obj = Some obj'"
      using False st
      by (simp add: Inflate_def Monitor_new_def Install_def CasLockWord_def put_monitor_def Let_def obj'_def lw_def)
    moreover have "silent cfg obj obj'"
      using no_change [of obj' obj cfg] v ok by (simp add: silent_def obj'_def)
    ultimately show ?thesis by blast
  qed
qed

end
