(* ===== verification/MonitorThread.thy ===== *)
theory MonitorThread
  imports MonitorObject
begin

text \<open>
  The effect of each operation when thread \<open>t\<close> runs an iteration of it, having read the lock word \<open>lw\<close> before and
  other threads having changed the object since.
\<close>

section \<open>What a thread knows of the object after it has read the lock word\<close>

abbreviation holds_of :: "config \<Rightarrow> object_state \<Rightarrow> u32 \<Rightarrow> nat" where
  "holds_of cfg obj \<equiv> hold_count (lock_holder cfg obj)"

definition seen_ok :: "config \<Rightarrow> u32 \<Rightarrow> u32 \<Rightarrow> object_state \<Rightarrow> bool" where
  "seen_ok cfg t lw obj \<longleftrightarrow>
     (gc_bits cfg \<or> GCState lw = 0) \<and>
     (case lock_view (gc_bits cfg) lw of
        VUnlocked \<Rightarrow> holds_of cfg obj t = 0
      | VThin k c \<Rightarrow>
          k \<noteq> kInvalidThreadId \<and>
          (if k = t then view cfg obj = VThin t c \<and> (\<not> gUseReadBarrier cfg \<longrightarrow> lock_word obj = lw)
           else holds_of cfg obj t = 0)
      | VFat m \<Rightarrow> view cfg obj = VFat m
      | VHash h \<Rightarrow>
          h \<noteq> 0 \<and> holds_of cfg obj t = 0 \<and>
          (view cfg obj = VHash h \<or> (\<exists>mon. fat_monitor cfg obj = Some mon \<and> hash_code mon = h))
      | VForwarding \<Rightarrow> False)"

lemma seen_ok_read: "object_ok cfg obj \<Longrightarrow> seen_ok cfg t (lock_word obj) obj"
  by (auto simp: seen_ok_def object_ok_def view_def lock_holder_def hold_count_def split: lock_view.splits)

lemma fat_monitor_hash:
  assumes "fat_monitor cfg obj = Some mon" "hash_code mon \<noteq> 0"
  shows "object_hash cfg obj = Some (hash_code mon)"
  using assms by (auto simp: fat_monitor_def object_hash_def split: lock_view.splits)

lemma seen_ok_stable:
  assumes "seen_ok cfg t lw obj" "frame cfg t obj obj'" "keeps_thin cfg t obj obj'"
  shows "seen_ok cfg t lw obj'"
proof (cases "lock_view (gc_bits cfg) lw")
  case (VHash h)
  then have h: "h \<noteq> 0" "view cfg obj = VHash h \<or> (\<exists>mon. fat_monitor cfg obj = Some mon \<and> hash_code mon = h)"
    using assms(1) by (auto simp: seen_ok_def)
  have "view cfg obj' = VHash h \<or> (\<exists>mon. fat_monitor cfg obj' = Some mon \<and> hash_code mon = h)"
  proof (cases "view cfg obj = VHash h")
    case False
    then obtain mon where mon: "fat_monitor cfg obj = Some mon" "hash_code mon = h" using h by blast
    then obtain m where "view cfg obj = VFat m" by (auto simp: fat_monitor_def split: lock_view.splits)
    then have "view cfg obj' = VFat m" "object_hash cfg obj' = Some h"
      using assms(2) fat_monitor_hash [OF mon(1)] mon h by (auto simp: frame_def)
    then show ?thesis by (auto simp: object_hash_def fat_monitor_def split: option.splits if_splits)
  qed (use assms(2) in \<open>auto simp: frame_def\<close>)
  then show ?thesis using VHash h assms(1,2) by (auto simp: seen_ok_def frame_def)
qed (use assms in \<open>auto simp: seen_ok_def frame_def keeps_thin_def\<close>)

section \<open>Changes by one thread\<close>

definition by_thread :: "config \<Rightarrow> u32 \<Rightarrow> object_state \<Rightarrow> object_state \<Rightarrow> bool" where
  "by_thread cfg t obj obj' \<longleftrightarrow>
     object_ok cfg obj' \<and> (\<forall>u. u \<noteq> t \<longrightarrow> frame cfg u obj obj' \<and> keeps_thin cfg u obj obj') \<and>
     (\<forall>h. object_hash cfg obj = Some h \<longrightarrow> object_hash cfg obj' = Some h)"

definition same_lock :: "config \<Rightarrow> u32 \<Rightarrow> object_state \<Rightarrow> object_state \<Rightarrow> bool" where
  "same_lock cfg t obj obj' \<longleftrightarrow>
     by_thread cfg t obj obj' \<and> lock_holder cfg obj' = lock_holder cfg obj \<and> waiters cfg obj' = waiters cfg obj"

lemma silent_same_lock:
  assumes "silent cfg obj obj'" "\<And>u c. view cfg obj = VThin u c \<Longrightarrow> u = t"
  shows "same_lock cfg t obj obj'"
  using assms by (auto simp: silent_def same_lock_def by_thread_def keeps_thin_def frame_def)

lemma same_lock_refl [simp]: "object_ok cfg obj \<Longrightarrow> same_lock cfg t obj obj"
  using no_change [of obj obj cfg] by (simp add: same_lock_def by_thread_def)

lemma same_lock_seed: "same_lock cfg t (obj\<lparr>hash_code_seed := s\<rparr>) obj' \<Longrightarrow> same_lock cfg t obj obj'"
  by (simp add: same_lock_def by_thread_def frame_def keeps_thin_def)

lemma thin_by_thread:
  assumes "view cfg obj = VUnlocked \<or> view cfg obj = VThin t c"
    and "view cfg obj' = VUnlocked \<or> view cfg obj' = VThin t c'" "t \<noteq> kInvalidThreadId"
    and "gc_bits cfg \<or> GCState (lock_word obj') = 0"
  shows "by_thread cfg t obj obj'"
  using thin_change [OF assms] assms(1) by (auto simp: by_thread_def object_hash_def)

lemma fat_by_thread:
  assumes "object_ok cfg obj" "view cfg obj = VFat m" "monitors obj m = Some mon" "monitor_change t mon mon'"
  shows "by_thread cfg t obj (put_monitor m mon' obj)"
proof -
  note f = fat_change [OF assms, of "put_monitor m mon' obj"]
  then show ?thesis
    using assms(2-4) by (auto simp: by_thread_def put_monitor_def object_hash_def monitor_change_def)
qed

section \<open>Monitors\<close>

lemma TryLock_cases:
  assumes "monitor_ok mon" "t \<noteq> kInvalidThreadId"
  shows "TryLock t mon = None \<Longrightarrow> owner mon = Some t \<and> unat (lock_count mon) + 1 = 2 ^ 32"
    and "TryLock t mon = Some (True, mon') \<Longrightarrow>
      monitor_change t mon mon' \<and> owner mon' = Some t \<and> num_waiters mon' = num_waiters mon \<and>
      (owner mon = Some t \<and> unat (lock_count mon') = unat (lock_count mon) + 1 \<or>
       owner mon = None \<and> lock_count mon' = 0)"
    and "TryLock t mon = Some (False, mon') \<Longrightarrow> mon' = mon \<and> owner mon \<noteq> Some t"
proof -
  have inc: "lock_count mon + 1 = 0 \<longleftrightarrow> unat (lock_count mon) + 1 = 2 ^ 32"
    "lock_count mon + 1 \<noteq> 0 \<Longrightarrow> unat (lock_count mon + 1) = unat (lock_count mon) + 1"
    using unat_inc [of "lock_count mon"] by simp_all
  note d = TryLock_def Let_def monitor_ok_def
  show "TryLock t mon = None \<Longrightarrow> owner mon = Some t \<and> unat (lock_count mon) + 1 = 2 ^ 32"
    using assms inc by (auto simp: d split: if_splits option.splits)
  show "TryLock t mon = Some (False, mon') \<Longrightarrow> mon' = mon \<and> owner mon \<noteq> Some t"
    by (auto simp: d split: if_splits)
  show "TryLock t mon = Some (True, mon') \<Longrightarrow>
      monitor_change t mon mon' \<and> owner mon' = Some t \<and> num_waiters mon' = num_waiters mon \<and>
      (owner mon = Some t \<and> unat (lock_count mon') = unat (lock_count mon) + 1 \<or>
       owner mon = None \<and> lock_count mon' = 0)"
    using assms inc by (auto simp: d monitor_change_def split: if_splits option.splits)
qed

lemma Unlock_cases:
  assumes "monitor_ok mon" "Unlock t waiting mon = (b, mon')"
  shows "monitor_change t mon mon'" "b \<longleftrightarrow> owner mon = Some t" "num_waiters mon' = num_waiters mon"
    "\<not> b \<Longrightarrow> mon' = mon"
    "b \<Longrightarrow> (if lock_count mon = 0 then owner mon' = None
            else owner mon' = Some t \<and> unat (lock_count mon') + 1 = unat (lock_count mon))"
proof -
  have dec: "lock_count mon \<noteq> 0 \<Longrightarrow> unat (lock_count mon - 1) + 1 = unat (lock_count mon)"
    by (simp add: unat_minus_one unat_gt_0)
  note d = Unlock_def SignalWaiterAndReleaseMonitorLock_def monitor_ok_def case_prod_beta
  show "monitor_change t mon mon'" "b \<longleftrightarrow> owner mon = Some t" "num_waiters mon' = num_waiters mon"
    "\<not> b \<Longrightarrow> mon' = mon"
    using assms by (auto simp: d monitor_change_def split: if_splits option.splits)
  show "b \<Longrightarrow> (if lock_count mon = 0 then owner mon' = None
            else owner mon' = Some t \<and> unat (lock_count mon') + 1 = unat (lock_count mon))"
    using assms dec by (auto simp: d split: if_splits)
qed

section \<open>Entering\<close>

text \<open>What an iteration of \<open>MonitorEnter\<close> does to the lock: the only abort is that of the recursion count.\<close>

definition enter_effect :: "config \<Rightarrow> u32 \<Rightarrow> object_state \<Rightarrow> enter_outcome option \<Rightarrow> bool" where
  "enter_effect cfg t obj r =
     (case r of
        None \<Rightarrow> holds_of cfg obj t = 2 ^ 32
      | Some (Entered obj') \<Rightarrow>
          by_thread cfg t obj obj' \<and> waiters cfg obj' = waiters cfg obj \<and>
          lock_holder cfg obj' = Some (t, holds_of cfg obj t + 1) \<and>
          (lock_holder cfg obj = None \<or> holds_of cfg obj t > 0)
      | Some (NotEntered obj') \<Rightarrow> same_lock cfg t obj obj' \<and> holds_of cfg obj t = 0
      | Some (EnterAgain c obj') \<Rightarrow> same_lock cfg t obj obj'
      | Some (EnterSuspend c k) \<Rightarrow> k \<noteq> t
      | Some (EnterBlocked m obj') \<Rightarrow>
          by_thread cfg t obj obj' \<and> waiters cfg obj' = waiters cfg obj + 1 \<and>
          lock_holder cfg obj' = lock_holder cfg obj \<and> holds_of cfg obj t = 0 \<and> view cfg obj' = VFat m)"

lemma thin_word:
  assumes "t \<noteq> kInvalidThreadId" "t \<le> kThinLockMaxOwner" "c \<le> kThinLockMaxCount"
  obtains w where "FromThinLockId t c (GCState lw) = Some w" "lock_view g w = VThin t c" "GCState w = GCState lw"
proof -
  obtain w where w: "FromThinLockId t c (GCState lw) = Some w" using assms by (simp add: FromThinLockId_def)
  with that FromThinLockId_view(1) [OF w GCState_fits, of g] FromThinLockId_view(2) [OF w GCState_fits] assms(1)
  show thesis by (simp add: kInvalidThreadId_def)
qed

lemma enter_unlocked:
  assumes ok: "object_ok cfg obj" and seen: "seen_ok cfg t lw obj"
    and t: "t \<noteq> kInvalidThreadId" "t \<le> kThinLockMaxOwner"
    and v: "lock_view (gc_bits cfg) lw = VUnlocked"
  shows "enter_effect cfg t obj (MonitorEnter cfg weak mid t trylock c lw obj)"
proof -
  obtain w where w: "FromThinLockId t 0 (GCState lw) = Some w" "lock_view (gc_bits cfg) w = VThin t 0"
    "GCState w = GCState lw"
    using thin_word [OF t, of 0] by auto
  have e: "MonitorEnter cfg weak mid t trylock c lw obj = Some (if weak \<and> lock_word obj = lw
      then Entered (obj\<lparr>lock_word := w\<rparr>) else EnterAgain c obj)"
    using lock_view_state(1) [OF v] w by (simp add: MonitorEnter_def CasLockWord_def Let_def)
  show ?thesis
  proof (cases "weak \<and> lock_word obj = lw")
    case True
    define obj' where "obj' = obj\<lparr>lock_word := w\<rparr>"
    have v0: "view cfg obj = VUnlocked" "view cfg obj' = VThin t 0" "gc_bits cfg \<or> GCState (lock_word obj') = 0"
      using True v w seen by (simp_all add: view_def obj'_def seen_ok_def)
    note c = thin_by_thread [of cfg obj t 0 obj' 0] thin_change [of cfg obj t 0 obj' 0]
    have "waiters cfg obj = 0" "lock_holder cfg obj = None"
      using v0 by (simp_all add: object_defs)
    then show ?thesis using True e v0 c t unfolding obj'_def [symmetric]
      by (simp add: enter_effect_def hold_count_def)
  qed (use e ok in \<open>auto simp: enter_effect_def\<close>)
qed

lemma enter_inflate_self:
  assumes ok: "object_ok cfg obj" and v: "view cfg obj = VThin t c" and lw: "ThinLockOwner lw = t"
    and mid: "monitors obj mid = None" "fits 28 mid"
  shows "enter_effect cfg t obj (enter_inflate cfg weak mid t contention lw obj)"
proof -
  obtain obj' where "Inflate cfg weak mid t (\<lambda>_. False) (Some t) 0 obj = Some obj'" "silent cfg obj obj'"
    using Inflate_thin [OF ok v mid, of 0 t "\<lambda>_. False" weak] by auto
  moreover from this(2) v have "same_lock cfg t obj obj'" by (auto intro: silent_same_lock)
  ultimately show ?thesis
    using lw by (simp add: enter_inflate_def InflateThinLocked_def enter_effect_def)
qed

lemma enter_thin:
  assumes ok: "object_ok cfg obj" and seen: "seen_ok cfg t lw obj"
    and t: "t \<noteq> kInvalidThreadId" "t \<le> kThinLockMaxOwner"
    and mid: "monitors obj mid = None" "fits 28 mid"
    and v: "lock_view (gc_bits cfg) lw = VThin t c"
  shows "enter_effect cfg t obj (MonitorEnter cfg weak mid t trylock n lw obj)"
proof -
  have v0: "view cfg obj = VThin t c" and nrb: "\<not> gUseReadBarrier cfg \<Longrightarrow> lock_word obj = lw"
    using seen v by (simp_all add: seen_ok_def)
  have st: "GetLockState (gc_bits cfg) lw = kThinLocked" "ThinLockOwner lw = t" "ThinLockCount lw = c"
    using lock_view_state(2) [OF v] lock_view_accessors(1) [OF v] by simp_all
  show ?thesis
  proof (cases "c + 1 \<le> kThinLockMaxCount")
    case False
    then show ?thesis using st enter_inflate_self [OF ok v0 st(2) mid] by (simp add: MonitorEnter_def)
  next
    case True
    obtain w where w: "FromThinLockId t (c + 1) (GCState lw) = Some w" "lock_view (gc_bits cfg) w = VThin t (c + 1)"
      "GCState w = GCState lw"
      using thin_word [OF t True] by auto
    define obj' where "obj' = obj\<lparr>lock_word := w\<rparr>"
    have e: "MonitorEnter cfg weak mid t trylock n lw obj = Some (if gUseReadBarrier cfg \<longrightarrow> weak \<and> lock_word obj = lw
        then Entered obj' else EnterAgain n obj)"
      using st w True by (simp add: MonitorEnter_def CasLockWord_def SetLockWord_def Let_def obj'_def)
    have v': "view cfg obj' = VThin t (c + 1)" "gc_bits cfg \<or> GCState (lock_word obj') = 0"
      using w seen by (simp_all add: view_def obj'_def seen_ok_def)
    have "fits 12 c" using lock_view_fits(1) [OF v] by simp
    then have "unat (c + 1) = unat c + 1" using unat_inc [of c] by (auto simp: fits_unat)
    moreover have "waiters cfg obj = 0" "lock_holder cfg obj = Some (t, unat c + 1)"
      using v0 by (simp_all add: object_defs)
    ultimately have "enter_effect cfg t obj (Some (Entered obj'))"
      using v0 v' t thin_by_thread [of cfg obj t c obj' "c + 1"] thin_change [of cfg obj t c obj' "c + 1"]
      by (simp add: enter_effect_def hold_count_def)
    then show ?thesis using e ok by (simp add: enter_effect_def)
  qed
qed

lemma enter_thin_other:
  assumes ok: "object_ok cfg obj" and seen: "seen_ok cfg t lw obj"
    and v: "lock_view (gc_bits cfg) lw = VThin k c" "k \<noteq> t"
  shows "enter_effect cfg t obj (MonitorEnter cfg weak mid t trylock n lw obj)"
proof -
  have "GetLockState (gc_bits cfg) lw = kThinLocked" "ThinLockOwner lw = k" "holds_of cfg obj t = 0"
    using lock_view_state(2) [OF v(1)] lock_view_accessors(1) [OF v(1)] seen v by (simp_all add: seen_ok_def)
  then show ?thesis using ok v(2)
    by (simp add: MonitorEnter_def enter_effect_def enter_inflate_def InflateThinLocked_def Let_def)
qed

lemma fat_seen:
  assumes "object_ok cfg obj" "view cfg obj = VFat m"
  obtains mon where "monitors obj m = Some mon" "monitor_ok mon" "fat_monitor cfg obj = Some mon"
    "lock_holder cfg obj = map_option (\<lambda>t. (t, unat (lock_count mon) + 1)) (owner mon)"
    "waiters cfg obj = num_waiters mon"
  using assms by (auto simp: object_defs)

text \<open>A monitor update that leaves owner, recursion count and the number of waiters as they are.\<close>

lemma fat_put:
  assumes "object_ok cfg obj" "view cfg obj = VFat m" "monitors obj m = Some mon" "monitor_change t mon mon'"
  shows "by_thread cfg t obj (put_monitor m mon' obj)" "view cfg (put_monitor m mon' obj) = VFat m"
    "lock_holder cfg (put_monitor m mon' obj) = map_option (\<lambda>t. (t, unat (lock_count mon') + 1)) (owner mon')"
    "waiters cfg (put_monitor m mon' obj) = num_waiters mon'"
    "object_hash cfg (put_monitor m mon' obj) = (if hash_code mon' = 0 then None else Some (hash_code mon'))"
  using fat_by_thread [OF assms] fat_change [OF assms, of "put_monitor m mon' obj"]
  by (simp_all add: put_monitor_def)

lemma enter_fat:
  assumes ok: "object_ok cfg obj" and t: "t \<noteq> kInvalidThreadId"
    and v: "lock_view (gc_bits cfg) lw = VFat m" and v0: "view cfg obj = VFat m"
  shows "enter_effect cfg t obj (MonitorEnter cfg weak mid t trylock n lw obj)"
proof -
  obtain mon where mon: "monitors obj m = Some mon" "monitor_ok mon" and
    h: "lock_holder cfg obj = map_option (\<lambda>t. (t, unat (lock_count mon) + 1)) (owner mon)"
    "waiters cfg obj = num_waiters mon"
    using fat_seen [OF ok v0] by metis
  have st: "GetLockState (gc_bits cfg) lw = kFatLocked" "FatLockMonitor lw = m"
    using lock_view_state(3) [OF v] lock_view_accessors(2) [OF v] by simp_all
  note d = MonitorEnter_def Lock_enter_def enter_effect_def hold_count_def
  note put = fat_put [OF ok v0 mon(1)]
  show ?thesis
  proof (cases "TryLock t mon")
    case None
    then show ?thesis using st mon h TryLock_cases(1) [OF mon(2) t] by (simp add: d)
  next
    case (Some r)
    then obtain b mon' where r: "TryLock t mon = Some (b, mon')" by (cases r) simp
    show ?thesis
    proof (cases b)
      case True
      then have "MonitorEnter cfg weak mid t trylock n lw obj = Some (Entered (put_monitor m mon' obj))"
        using r st mon by (simp add: d)
      then show ?thesis using TryLock_cases(2) [OF mon(2) t, of mon'] r True put [of t mon'] h
        by (auto simp: enter_effect_def hold_count_def)
    next
      case False
      then have m': "mon' = mon" "owner mon \<noteq> Some t" using TryLock_cases(3) [OF mon(2) t] r by auto
      let ?w = "mon\<lparr>num_waiters := num_waiters mon + 1\<rparr>"
      have ch: "monitor_change t mon mon" "monitor_change t mon ?w"
        using mon(2) by (simp_all add: monitor_change_def monitor_ok_def split: option.splits)
      have "MonitorEnter cfg weak mid t trylock n lw obj = Some (if trylock then NotEntered (put_monitor m mon obj)
          else EnterBlocked m (put_monitor m ?w obj))"
        using r False st mon m' by (simp add: d)
      then show ?thesis using put [OF ch(1)] put [OF ch(2)] h m'
        by (auto simp: enter_effect_def hold_count_def same_lock_def split: option.splits)
    qed
  qed
qed

lemma Inflate_hash_seen:
  assumes ok: "object_ok cfg obj" and mid: "monitors obj mid = None" "fits 28 mid"
    and v0: "view cfg obj = VHash h \<or> (\<exists>mon. fat_monitor cfg obj = Some mon \<and> hash_code mon = h)"
  shows "\<exists>obj'. Inflate cfg weak mid t s None h obj = Some obj' \<and> same_lock cfg t obj obj'"
proof -
  have "\<exists>obj'. Inflate cfg weak mid t s None h obj = Some obj' \<and> silent cfg obj obj'"
  proof (cases "view cfg obj = VHash h")
    case False
    then obtain m where "view cfg obj = VFat m" using v0 by (auto simp: fat_monitor_def split: lock_view.splits)
    then show ?thesis using Inflate_fat [OF ok _ mid(1)] by blast
  qed (use Inflate_hash [OF ok _ mid] in blast)
  moreover have "view cfg obj \<noteq> VThin u c" for u c using v0 by (auto simp: fat_monitor_def)
  ultimately show ?thesis by (meson silent_same_lock)
qed

lemma MonitorEnter_effect:
  assumes ok: "object_ok cfg obj" and seen: "seen_ok cfg t lw obj"
    and t: "t \<noteq> kInvalidThreadId" "t \<le> kThinLockMaxOwner"
    and mid: "monitors obj mid = None" "fits 28 mid"
  shows "enter_effect cfg t obj (MonitorEnter cfg weak mid t trylock n lw obj)"
proof (cases "lock_view (gc_bits cfg) lw")
  case VUnlocked
  then show ?thesis using enter_unlocked [OF ok seen t] by blast
next
  case (VThin k c)
  then show ?thesis using enter_thin [OF ok seen t mid] enter_thin_other [OF ok seen] by (cases "k = t") blast+
next
  case (VFat m)
  then show ?thesis using enter_fat [OF ok t(1)] seen by (simp add: seen_ok_def)
next
  case (VHash h)
  then have "view cfg obj = VHash h \<or> (\<exists>mon. fat_monitor cfg obj = Some mon \<and> hash_code mon = h)"
    using seen by (simp add: seen_ok_def)
  from Inflate_hash_seen [OF ok mid this, of weak t "\<lambda>_. False"] show ?thesis
    using lock_view_state(4) [OF VHash] lock_view_accessors(3) [OF VHash]
    by (auto simp: MonitorEnter_def enter_effect_def)
qed (use seen in \<open>simp add: seen_ok_def\<close>)

section \<open>Leaving\<close>

definition release :: "(u32 \<times> nat) option \<Rightarrow> (u32 \<times> nat) option" where
  "release l = (case l of Some (t, n) \<Rightarrow> if n \<le> 1 then None else Some (t, n - 1) | None \<Rightarrow> None)"

text \<open>An iteration of \<open>MonitorExit\<close> never aborts; it fails exactly when the thread does not hold the lock.\<close>

definition exit_effect :: "config \<Rightarrow> u32 \<Rightarrow> object_state \<Rightarrow> exit_outcome option \<Rightarrow> bool" where
  "exit_effect cfg t obj r =
     (case r of
        None \<Rightarrow> False
      | Some (Exited b obj') \<Rightarrow>
          by_thread cfg t obj obj' \<and> waiters cfg obj' = waiters cfg obj \<and> (b \<longleftrightarrow> holds_of cfg obj t > 0) \<and>
          lock_holder cfg obj' = (if b then release (lock_holder cfg obj) else lock_holder cfg obj)
      | Some (ExitAgain obj') \<Rightarrow> same_lock cfg t obj obj')"

lemma same_lock_by_thread:
  "same_lock cfg t obj obj' \<Longrightarrow> by_thread cfg t obj obj'"
  "same_lock cfg t obj obj' \<Longrightarrow> lock_holder cfg obj' = lock_holder cfg obj"
  "same_lock cfg t obj obj' \<Longrightarrow> waiters cfg obj' = waiters cfg obj"
  by (simp_all add: same_lock_def)

lemma exit_thin:
  assumes ok: "object_ok cfg obj" and seen: "seen_ok cfg t lw obj"
    and t: "t \<noteq> kInvalidThreadId" "t \<le> kThinLockMaxOwner"
    and v: "lock_view (gc_bits cfg) lw = VThin t c"
  shows "exit_effect cfg t obj (MonitorExit cfg weak t waiting lw obj)"
proof -
  have v0: "view cfg obj = VThin t c" and nrb: "\<not> gUseReadBarrier cfg \<Longrightarrow> lock_word obj = lw"
    and gc: "gc_bits cfg \<or> GCState lw = 0"
    using seen v by (simp_all add: seen_ok_def)
  have st: "GetLockState (gc_bits cfg) lw = kThinLocked" "ThinLockOwner lw = t" "ThinLockCount lw = c" "fits 12 c"
    using lock_view_state(2) [OF v] lock_view_accessors(1) [OF v] lock_view_fits(1) [OF v] by simp_all
  have c1: "unat (c - 1) = unat c - 1" if "c \<noteq> 0" using that by (simp add: unat_minus_one)
  have "c - 1 \<le> kThinLockMaxCount" if "c \<noteq> 0"
    using st(4) c1 [OF that] by (simp add: fits_12_le [symmetric] fits_unat)
  then obtain w where w: "(if c \<noteq> 0 then FromThinLockId t (c - 1) (GCState lw) else Some (FromDefault (GCState lw))) = Some w"
    "lock_view (gc_bits cfg) w = (if c \<noteq> 0 then VThin t (c - 1) else VUnlocked)" "GCState w = GCState lw"
    using thin_word [OF t, of "c - 1" lw "gc_bits cfg"] FromDefault_view [OF GCState_fits gc] by (cases "c = 0") auto
  define obj' where "obj' = obj\<lparr>lock_word := w\<rparr>"
  have e: "MonitorExit cfg weak t waiting lw obj = Some (if gUseReadBarrier cfg \<longrightarrow> weak \<and> lock_word obj = lw
      then Exited True obj' else ExitAgain obj)"
    using st w(1) by (cases "c = 0") (simp_all add: MonitorExit_def CasLockWord_def SetLockWord_def Let_def obj'_def)
  have v': "view cfg obj' = (if c \<noteq> 0 then VThin t (c - 1) else VUnlocked)" "gc_bits cfg \<or> GCState (lock_word obj') = 0"
    using w gc by (simp_all add: view_def obj'_def)
  have "waiters cfg obj = 0" "lock_holder cfg obj = Some (t, unat c + 1)"
    using v0 by (simp_all add: object_defs)
  then have "exit_effect cfg t obj (Some (Exited True obj'))"
    using v0 v' t c1 unat_gt_0 [of c] thin_by_thread [of cfg obj t c obj' "c - 1"] thin_change [of cfg obj t c obj' "c - 1"]
    by (auto simp: exit_effect_def hold_count_def release_def)
  then show ?thesis using e ok by (simp add: exit_effect_def)
qed

lemma exit_fat:
  assumes ok: "object_ok cfg obj"
    and v: "lock_view (gc_bits cfg) lw = VFat m" and v0: "view cfg obj = VFat m"
  shows "exit_effect cfg t obj (MonitorExit cfg weak t waiting lw obj)"
proof -
  obtain mon where mon: "monitors obj m = Some mon" "monitor_ok mon" and
    h: "lock_holder cfg obj = map_option (\<lambda>t. (t, unat (lock_count mon) + 1)) (owner mon)"
    "waiters cfg obj = num_waiters mon"
    using fat_seen [OF ok v0] by metis
  obtain b mon' where u: "Unlock t waiting mon = (b, mon')" by fastforce
  note c = Unlock_cases [OF mon(2) u]
  have "MonitorExit cfg weak t waiting lw obj = Some (Exited b (put_monitor m mon' obj))"
    using lock_view_state(3) [OF v] lock_view_accessors(2) [OF v] mon u by (simp add: MonitorExit_def)
  then show ?thesis
    using fat_put [OF ok v0 mon(1) c(1)] c(2-5) h unat_gt_0 [of "lock_count mon"]
    by (auto simp: exit_effect_def hold_count_def release_def split: if_splits option.splits)
qed

lemma MonitorExit_effect:
  assumes ok: "object_ok cfg obj" and seen: "seen_ok cfg t lw obj"
    and t: "t \<noteq> kInvalidThreadId" "t \<le> kThinLockMaxOwner"
  shows "exit_effect cfg t obj (MonitorExit cfg weak t waiting lw obj)"
proof (cases "lock_view (gc_bits cfg) lw")
  case (VThin k c)
  show ?thesis
  proof (cases "k = t")
    case True
    then show ?thesis using exit_thin [OF ok seen t] VThin by blast
  next
    case False
    then show ?thesis using seen ok VThin lock_view_state(2) [OF VThin] lock_view_accessors(1) [OF VThin]
      by (simp add: MonitorExit_def exit_effect_def seen_ok_def same_lock_by_thread)
  qed
next
  case (VFat m)
  then show ?thesis using exit_fat [OF ok] seen by (simp add: seen_ok_def)
qed (use seen ok lock_view_state(1,4) in
    \<open>auto simp: seen_ok_def MonitorExit_def exit_effect_def same_lock_by_thread\<close>)

section \<open>Hash codes\<close>

text \<open>An iteration of \<open>IdentityHashCode\<close> never aborts, and the value it returns is the hash code of the object.\<close>

definition hash_effect :: "config \<Rightarrow> u32 \<Rightarrow> object_state \<Rightarrow> hash_outcome option \<Rightarrow> bool" where
  "hash_effect cfg t obj r =
     (case r of
        None \<Rightarrow> False
      | Some (Hashed h obj') \<Rightarrow> same_lock cfg t obj obj' \<and> object_hash cfg obj' = Some h \<and> h \<noteq> 0
      | Some (HashAgain obj') \<Rightarrow> same_lock cfg t obj obj'
      | Some (HashSuspend k h obj') \<Rightarrow> same_lock cfg t obj obj' \<and> k \<noteq> t \<and> h \<le> kMaxHash)"

lemma same_lock_seed_right: "object_ok cfg obj \<Longrightarrow> same_lock cfg t obj (obj\<lparr>hash_code_seed := s\<rparr>)"
  by (rule same_lock_seed [where s = s]) simp

lemma hash_unlocked:
  assumes ok: "object_ok cfg obj" and seen: "seen_ok cfg t lw obj" and v: "lock_view (gc_bits cfg) lw = VUnlocked"
  shows "hash_effect cfg t obj (IdentityHashCode cfg weak mid t lw obj)"
proof -
  obtain h s where g: "GenerateIdentityHashCode (hash_code_seed obj) = (h, s)" by fastforce
  have h: "h \<noteq> 0" "h \<le> kMaxHash" using GenerateIdentityHashCode_range [of "hash_code_seed obj"] g by simp_all
  obtain w where w: "FromHashCode h (GCState lw) = Some w" using h(2) by (simp add: FromHashCode_def)
  have wv: "lock_view (gc_bits cfg) w = VHash h" "GCState w = GCState lw" "LockWord_GetHashCode w = h"
    using FromHashCode_view [OF w GCState_fits] lock_view_accessors(3) by blast+
  define obj1 where "obj1 = obj\<lparr>hash_code_seed := s\<rparr>"
  have e: "IdentityHashCode cfg weak mid t lw obj = Some (if lock_word obj = lw
      then Hashed h (obj1\<lparr>lock_word := w\<rparr>) else HashAgain obj1)"
    using lock_view_state(1) [OF v] g w wv by (simp add: IdentityHashCode_def CasLockWord_def obj1_def)
  show ?thesis
  proof (cases "lock_word obj = lw")
    case True
    define obj2 where "obj2 = obj1\<lparr>lock_word := w\<rparr>"
    have v0: "view cfg obj = VUnlocked" "view cfg obj2 = VHash h" "gc_bits cfg \<or> GCState (lock_word obj2) = 0"
      using True v wv seen by (simp_all add: view_def obj1_def obj2_def seen_ok_def)
    then have "same_lock cfg t obj obj2" "object_hash cfg obj2 = Some h"
      using hash_change [of cfg obj obj2 h] h(1) by (simp_all add: same_lock_def by_thread_def object_defs)
    then show ?thesis using True e h unfolding obj2_def [symmetric] by (simp add: hash_effect_def)
  qed (use e ok in \<open>simp add: hash_effect_def obj1_def same_lock_seed_right\<close>)
qed

lemma hash_thin:
  assumes ok: "object_ok cfg obj" and seen: "seen_ok cfg t lw obj" and v: "lock_view (gc_bits cfg) lw = VThin k c"
    and mid: "monitors obj mid = None" "fits 28 mid"
  shows "hash_effect cfg t obj (IdentityHashCode cfg weak mid t lw obj)"
proof -
  obtain h s where g: "GenerateIdentityHashCode (hash_code_seed obj) = (h, s)" by fastforce
  have h: "h \<le> kMaxHash" using GenerateIdentityHashCode_range [of "hash_code_seed obj"] g by simp
  have st: "GetLockState (gc_bits cfg) lw = kThinLocked" "ThinLockOwner lw = k"
    using lock_view_state(2) [OF v] lock_view_accessors(1) [OF v] by simp_all
  define obj1 where "obj1 = obj\<lparr>hash_code_seed := s\<rparr>"
  show ?thesis
  proof (cases "k = t")
    case True
    then have v1: "view cfg obj1 = VThin t c" using seen v by (simp add: seen_ok_def obj1_def)
    then obtain obj2 where o2: "Inflate cfg weak mid t (\<lambda>_. False) (Some t) h obj1 = Some obj2" "silent cfg obj1 obj2"
      using Inflate_thin [OF _ v1, of mid h t "\<lambda>_. False" weak] ok mid h by (auto simp: obj1_def)
    have "same_lock cfg t obj obj2"
      using silent_same_lock [OF o2(2), of t] v1 same_lock_seed by (auto simp: obj1_def)
    then show ?thesis using True st g o2(1)
      by (simp add: IdentityHashCode_def InflateThinLocked_def hash_effect_def obj1_def)
  next
    case False
    then show ?thesis using st g h ok
      by (simp add: IdentityHashCode_def InflateThinLocked_def hash_effect_def same_lock_seed_right)
  qed
qed

lemma hash_fat:
  assumes ok: "object_ok cfg obj" and v: "lock_view (gc_bits cfg) lw = VFat m" and v0: "view cfg obj = VFat m"
  shows "hash_effect cfg t obj (IdentityHashCode cfg weak mid t lw obj)"
proof -
  obtain mon where mon: "monitors obj m = Some mon" "monitor_ok mon" and
    hw: "lock_holder cfg obj = map_option (\<lambda>t. (t, unat (lock_count mon) + 1)) (owner mon)"
    "waiters cfg obj = num_waiters mon"
    using fat_seen [OF ok v0] by metis
  obtain h mon' s where g: "GetHashCode mon (hash_code_seed obj) = (h, mon', s)" by (metis prod_cases3)
  have g': "hash_code mon' = h" "h \<noteq> 0" "monitor_change t mon mon'" "num_waiters mon' = num_waiters mon"
    "owner mon' = owner mon" "lock_count mon' = lock_count mon"
    using g mon(2) GenerateIdentityHashCode_range [of "hash_code_seed obj"]
    by (auto simp: GetHashCode_def HasHashCode_def monitor_change_def monitor_ok_def case_prod_beta Let_def
        split: if_splits option.splits)
  define obj1 where "obj1 = obj\<lparr>hash_code_seed := s\<rparr>"
  have "IdentityHashCode cfg weak mid t lw obj = Some (Hashed h (put_monitor m mon' obj1))"
    using lock_view_state(3) [OF v] lock_view_accessors(2) [OF v] mon(1) g by (simp add: IdentityHashCode_def obj1_def)
  moreover have "same_lock cfg t obj1 (put_monitor m mon' obj1)" "object_hash cfg (put_monitor m mon' obj1) = Some h"
    using fat_put [of cfg obj1 m mon t mon'] ok v0 mon(1) g' hw by (simp_all add: same_lock_def obj1_def)
  ultimately show ?thesis using g' same_lock_seed [where obj = obj and s = s] by (simp add: hash_effect_def obj1_def)
qed

lemma IdentityHashCode_effect:
  assumes ok: "object_ok cfg obj" and seen: "seen_ok cfg t lw obj"
    and mid: "monitors obj mid = None" "fits 28 mid"
  shows "hash_effect cfg t obj (IdentityHashCode cfg weak mid t lw obj)"
proof (cases "lock_view (gc_bits cfg) lw")
  case (VHash h)
  then have "h \<noteq> 0" "view cfg obj = VHash h \<or> (\<exists>mon. fat_monitor cfg obj = Some mon \<and> hash_code mon = h)"
    using seen by (simp_all add: seen_ok_def)
  then have "object_hash cfg obj = Some h" using fat_monitor_hash by (auto simp: object_hash_def)
  then show ?thesis using \<open>h \<noteq> 0\<close> ok lock_view_state(4) [OF VHash] lock_view_accessors(3) [OF VHash]
    by (simp add: IdentityHashCode_def hash_effect_def)
next
  case (VFat m)
  then show ?thesis using hash_fat [OF ok] seen by (simp add: seen_ok_def)
qed (use seen hash_unlocked [OF ok seen] hash_thin [OF ok seen _ mid] in \<open>auto simp: seen_ok_def\<close>)

section \<open>Waiting and notification\<close>

lemma SignalWaiterAndReleaseMonitorLock_fields [simp]:
  "owner (snd (SignalWaiterAndReleaseMonitorLock w mon)) = owner mon"
  "lock_count (snd (SignalWaiterAndReleaseMonitorLock w mon)) = lock_count mon"
  "num_waiters (snd (SignalWaiterAndReleaseMonitorLock w mon)) = num_waiters mon"
  "hash_code (snd (SignalWaiterAndReleaseMonitorLock w mon)) = hash_code mon"
  "has_obj (snd (SignalWaiterAndReleaseMonitorLock w mon)) = has_obj mon"
  "monitor_lock (snd (SignalWaiterAndReleaseMonitorLock w mon)) = None"
  by (simp_all add: SignalWaiterAndReleaseMonitorLock_def case_prod_beta)

lemma wait_set_fields [simp]:
  "owner (RemoveFromWaitSet u mon) = owner mon" "lock_count (RemoveFromWaitSet u mon) = lock_count mon"
  "num_waiters (RemoveFromWaitSet u mon) = num_waiters mon" "hash_code (RemoveFromWaitSet u mon) = hash_code mon"
  "has_obj (RemoveFromWaitSet u mon) = has_obj mon" "monitor_lock (RemoveFromWaitSet u mon) = monitor_lock mon"
  "owner (AppendToWaitSet u mon) = owner mon" "lock_count (AppendToWaitSet u mon) = lock_count mon"
  "num_waiters (AppendToWaitSet u mon) = num_waiters mon" "hash_code (AppendToWaitSet u mon) = hash_code mon"
  "has_obj (AppendToWaitSet u mon) = has_obj mon"
  by (simp_all add: RemoveFromWaitSet_def AppendToWaitSet_def)

lemma Wait_enter_cases:
  assumes "monitor_ok mon"
  shows "Wait_enter t w ms ns mon = IllegalMonitorState \<longleftrightarrow> owner mon \<noteq> Some t"
    "Wait_enter t w ms ns mon = Sleeps prev mon' \<Longrightarrow>
      monitor_change t mon mon' \<and> owner mon = Some t \<and> prev = lock_count mon \<and> owner mon' = None \<and>
      num_waiters mon' = num_waiters mon + 1"
  using assms by (auto simp: Wait_enter_def Let_def monitor_change_def monitor_ok_def split: if_splits option.splits)

text \<open>An iteration of the static \<open>Wait\<close> never aborts.  It throws an IllegalMonitorStateException exactly when the
  thread does not hold the lock, and it releases all the recursive holds of the thread.\<close>

definition wait_effect :: "config \<Rightarrow> u32 \<Rightarrow> object_state \<Rightarrow> object_wait_outcome option \<Rightarrow> bool" where
  "wait_effect cfg t obj r =
     (case r of
        None \<Rightarrow> False
      | Some (WaitThrows e) \<Rightarrow> (e = IllegalMonitorState \<longleftrightarrow> holds_of cfg obj t = 0)
      | Some (WaitAgain obj') \<Rightarrow> same_lock cfg t obj obj'
      | Some (WaitSleeps m prev obj') \<Rightarrow>
          by_thread cfg t obj obj' \<and> lock_holder cfg obj = Some (t, unat prev + 1) \<and>
          lock_holder cfg obj' = None \<and> view cfg obj' = VFat m \<and> waiters cfg obj' = waiters cfg obj + 1)"

lemma wait_fat:
  assumes ok: "object_ok cfg obj" and v: "lock_view (gc_bits cfg) lw = VFat m" and v0: "view cfg obj = VFat m"
  shows "wait_effect cfg t obj (Object_Wait cfg weak mid t waiting ms ns lw obj)"
proof -
  obtain mon where mon: "monitors obj m = Some mon" "monitor_ok mon" and
    h: "lock_holder cfg obj = map_option (\<lambda>t. (t, unat (lock_count mon) + 1)) (owner mon)"
    "waiters cfg obj = num_waiters mon"
    using fat_seen [OF ok v0] by metis
  note st = lock_view_state(3) [OF v] lock_view_accessors(2) [OF v]
  note c = Wait_enter_cases [OF mon(2), of t waiting ms ns]
  show ?thesis
  proof (cases "Wait_enter t waiting ms ns mon")
    case (Sleeps prev mon')
    then show ?thesis using st mon(1) c(2) [OF Sleeps] h fat_put [OF ok v0 mon(1), of t mon']
      by (simp add: Object_Wait_def wait_effect_def)
  qed (use c(1) st mon(1) h in \<open>auto simp: Object_Wait_def wait_effect_def hold_count_def split: option.splits\<close>)
qed

lemma Object_Wait_effect:
  assumes ok: "object_ok cfg obj" and seen: "seen_ok cfg t lw obj"
    and mid: "monitors obj mid = None" "fits 28 mid"
  shows "wait_effect cfg t obj (Object_Wait cfg weak mid t waiting ms ns lw obj)"
proof (cases "lock_view (gc_bits cfg) lw")
  case (VThin k c)
  note st = lock_view_state(2) [OF VThin] lock_view_accessors(1) [OF VThin]
  show ?thesis
  proof (cases "k = t")
    case True
    then have v0: "view cfg obj = VThin t c" using seen VThin by (simp add: seen_ok_def)
    then obtain obj' where o': "Inflate cfg weak mid t (\<lambda>_. False) (Some t) 0 obj = Some obj'" "silent cfg obj obj'"
      using Inflate_thin [OF ok v0 mid, of 0 t "\<lambda>_. False" weak] by auto
    then have "same_lock cfg t obj obj'" using v0 by (auto intro: silent_same_lock)
    then show ?thesis using st True o' by (simp add: Object_Wait_def wait_effect_def)
  qed (use seen VThin st in \<open>simp add: Object_Wait_def wait_effect_def seen_ok_def\<close>)
next
  case (VFat m)
  then show ?thesis using wait_fat [OF ok] seen by (simp add: seen_ok_def)
qed (use seen lock_view_state(1,4) in \<open>auto simp: seen_ok_def Object_Wait_def wait_effect_def\<close>)

lemma Notify_cases:
  assumes "monitor_ok mon"
  shows "(if all then NotifyAll t mon else Notify t mon) = None \<longleftrightarrow> owner mon \<noteq> Some t"
    "(if all then NotifyAll t mon else Notify t mon) = Some mon' \<Longrightarrow>
      monitor_change t mon mon' \<and> num_waiters mon' = num_waiters mon \<and> owner mon' = owner mon \<and>
      lock_count mon' = lock_count mon"
  using assms by (auto simp: NotifyAll_def Notify_def monitor_change_def monitor_ok_def split: if_splits list.splits option.splits)

lemma DoNotify_effect:
  assumes ok: "object_ok cfg obj" and seen: "seen_ok cfg t lw obj"
  shows "\<exists>b obj'. DoNotify cfg t all lw obj = Some (b, obj') \<and> same_lock cfg t obj obj' \<and> (b \<longleftrightarrow> holds_of cfg obj t > 0)"
proof (cases "lock_view (gc_bits cfg) lw")
  case (VFat m)
  note st = lock_view_state(3) [OF VFat] lock_view_accessors(2) [OF VFat]
  have v0: "view cfg obj = VFat m" using seen VFat by (simp add: seen_ok_def)
  obtain mon where mon: "monitors obj m = Some mon" "monitor_ok mon" and
    h: "lock_holder cfg obj = map_option (\<lambda>t. (t, unat (lock_count mon) + 1)) (owner mon)"
    "waiters cfg obj = num_waiters mon"
    using fat_seen [OF ok v0] by metis
  show ?thesis
  proof (cases "if all then NotifyAll t mon else Notify t mon")
    case None
    then show ?thesis using st mon h ok Notify_cases(1) [OF mon(2), of all t]
      by (auto simp: DoNotify_def hold_count_def split: option.splits)
  next
    case (Some mon')
    note c = Notify_cases(2) [OF mon(2) Some]
    have "same_lock cfg t obj (put_monitor m mon' obj)"
      using c fat_put [OF ok v0 mon(1), of t mon'] h by (simp add: same_lock_def)
    moreover have "owner mon = Some t" using Notify_cases(1) [OF mon(2), of all t] Some by auto
    ultimately show ?thesis using st mon(1) Some h by (auto simp: DoNotify_def hold_count_def)
  qed
next
  case (VThin k c)
  then have "holds_of cfg obj t > 0 \<longleftrightarrow> k = t"
    using seen by (auto simp: seen_ok_def lock_holder_def hold_count_def split: if_splits)
  then show ?thesis using ok lock_view_state(2) [OF VThin] lock_view_accessors(1) [OF VThin]
    by (simp add: DoNotify_def)
qed (use seen ok lock_view_state(1,4) in \<open>auto simp: seen_ok_def DoNotify_def\<close>)

end
