(* ===== verification/MonitorSystem.thy ===== *)
theory MonitorSystem
  imports MonitorThread
begin

text \<open>
  Several threads using the monitor of one object.  Every thread is at a program point of one of the operations of
  \<^verbatim>\<open>runtime/monitor.cc\<close> or of \<open>Object::IdentityHashCode\<close>; a step lets one thread read the lock word, act on the
  lock word it has read, suspend another owner, take the mutex of a monitor or wake up, or lets the garbage
  collector change its bits of the lock word or deflate the monitor.  The ghost fields count the entries minus the
  exits of each thread and collect the hash codes returned.
\<close>

section \<open>Threads\<close>

datatype monitor_op = OpEnter bool nat | OpExit | OpHash | OpWait int int | OpNotify bool

text \<open>\<open>Idle\<close>: in none of the operations.  \<open>Runs\<close>: at the head of the loop.  \<open>Seen\<close>: has read the lock word, and
  cannot be suspended before it acts.  \<open>Suspending\<close>: in \<open>InflateThinLocked\<close>, waiting for the suspension of the
  owner.  \<open>Blocked\<close>, \<open>Acquired\<close>: in \<open>Lock\<close>, before and after it has the mutex, with the recursion count to
  restore where \<open>Wait\<close> has called it.  \<open>Waiting\<close>: asleep in \<open>Wait\<close>.\<close>

datatype thread_pc =
    Idle
  | Runs monitor_op
  | Seen monitor_op u32
  | Suspending monitor_op u32 u32
  | Blocked u32 "u32 option"
  | Acquired u32 "u32 option"
  | Waiting u32 u32

record system =
  object :: object_state
  pcs :: "u32 \<Rightarrow> thread_pc"
  held :: "u32 \<Rightarrow> nat"
  hashes :: "u32 set"

fun safe_point :: "thread_pc \<Rightarrow> bool" where
  "safe_point (Seen op lw) = False"
| "safe_point _ = True"

fun is_waiting :: "thread_pc \<Rightarrow> bool" where
  "is_waiting (Waiting m prev) = True"
| "is_waiting _ = False"

definition goes_to :: "u32 \<Rightarrow> thread_pc \<Rightarrow> object_state \<Rightarrow> system \<Rightarrow> system" where
  "goes_to t p obj s = s\<lparr>object := obj, pcs := (pcs s)(t := p)\<rparr>"

definition sets_held :: "u32 \<Rightarrow> nat \<Rightarrow> system \<Rightarrow> system" where
  "sets_held t n s = s\<lparr>held := (held s)(t := n)\<rparr>"

fun act :: "config \<Rightarrow> bool \<Rightarrow> u32 \<Rightarrow> u32 \<Rightarrow> monitor_op \<Rightarrow> u32 \<Rightarrow> system \<Rightarrow> system option" where
  "act cfg ok mid t (OpEnter trylock c) lw s =
     (case MonitorEnter cfg ok mid t trylock c lw (object s) of
        None \<Rightarrow> None
      | Some (Entered obj) \<Rightarrow> Some (sets_held t (held s t + 1) (goes_to t Idle obj s))
      | Some (NotEntered obj) \<Rightarrow> Some (goes_to t Idle obj s)
      | Some (EnterAgain c' obj) \<Rightarrow> Some (goes_to t (Runs (OpEnter trylock c')) obj s)
      | Some (EnterSuspend c' k) \<Rightarrow> Some (goes_to t (Suspending (OpEnter trylock c') k 0) (object s) s)
      | Some (EnterBlocked m obj) \<Rightarrow> Some (goes_to t (Blocked m None) obj s))"
| "act cfg ok mid t OpExit lw s =
     (case MonitorExit cfg ok t (\<lambda>u. is_waiting (pcs s u)) lw (object s) of
        None \<Rightarrow> None
      | Some (Exited True obj) \<Rightarrow> Some (sets_held t (held s t - 1) (goes_to t Idle obj s))
      | Some (Exited False obj) \<Rightarrow> Some (goes_to t Idle obj s)
      | Some (ExitAgain obj) \<Rightarrow> Some (goes_to t (Runs OpExit) obj s))"
| "act cfg ok mid t OpHash lw s =
     (case IdentityHashCode cfg ok mid t lw (object s) of
        None \<Rightarrow> None
      | Some (Hashed h obj) \<Rightarrow> Some ((goes_to t Idle obj s)\<lparr>hashes := insert h (hashes s)\<rparr>)
      | Some (HashAgain obj) \<Rightarrow> Some (goes_to t (Runs OpHash) obj s)
      | Some (HashSuspend k h obj) \<Rightarrow> Some (goes_to t (Suspending OpHash k h) obj s))"
| "act cfg ok mid t (OpWait ms ns) lw s =
     (case Object_Wait cfg ok mid t (\<lambda>u. is_waiting (pcs s u)) ms ns lw (object s) of
        None \<Rightarrow> None
      | Some (WaitThrows e) \<Rightarrow> Some (goes_to t Idle (object s) s)
      | Some (WaitAgain obj) \<Rightarrow> Some (goes_to t (Runs (OpWait ms ns)) obj s)
      | Some (WaitSleeps m prev obj) \<Rightarrow> Some (sets_held t 0 (goes_to t (Waiting m prev) obj s)))"
| "act cfg ok mid t (OpNotify notify_all) lw s =
     (case DoNotify cfg t notify_all lw (object s) of
        None \<Rightarrow> None
      | Some (b, obj) \<Rightarrow> Some (goes_to t Idle obj s))"

text \<open>The end of \<open>Lock\<close>, and of \<open>Wait\<close> where \<open>Wait\<close> has called it.\<close>

fun after_lock :: "u32 \<Rightarrow> u32 option \<Rightarrow> monitor \<Rightarrow> monitor" where
  "after_lock t None mon = mon"
| "after_lock t (Some prev) mon = Wait_finish t prev mon"

fun count_after_lock :: "u32 option \<Rightarrow> nat" where
  "count_after_lock None = 1"
| "count_after_lock (Some prev) = unat prev + 1"

definition fresh_monitor :: "u32 \<Rightarrow> object_state \<Rightarrow> bool" where
  "fresh_monitor mid obj \<longleftrightarrow> monitors obj mid = None \<and> mid \<le> kMaxMonitorId"

definition valid_thread_id :: "u32 \<Rightarrow> bool" where
  "valid_thread_id t \<longleftrightarrow> t \<noteq> kInvalidThreadId \<and> t \<le> kThinLockMaxOwner"

inductive monitor_step :: "config \<Rightarrow> system \<Rightarrow> system \<Rightarrow> bool" for cfg where
  call: "pcs s t = Idle \<Longrightarrow> valid_thread_id t \<Longrightarrow> monitor_step cfg s (goes_to t (Runs op) (object s) s)"
| read: "pcs s t = Runs op \<Longrightarrow> monitor_step cfg s (goes_to t (Seen op (lock_word (object s))) (object s) s)"
| act: "pcs s t = Seen op lw \<Longrightarrow> fresh_monitor mid (object s) \<Longrightarrow> act cfg ok mid t op lw s = Some s' \<Longrightarrow>
    monitor_step cfg s s'"
| suspend: "pcs s t = Suspending op k h \<Longrightarrow> fresh_monitor mid (object s) \<Longrightarrow> got \<longrightarrow> safe_point (pcs s k) \<Longrightarrow>
    InflateThinLocked_suspended cfg ok mid t k got h (object s) = Some obj \<Longrightarrow>
    monitor_step cfg s (goes_to t (Runs op) obj s)"
| acquire: "pcs s t = Blocked m prev \<Longrightarrow> monitors (object s) m = Some mon \<Longrightarrow> Lock_acquire t mon = Some mon' \<Longrightarrow>
    monitor_step cfg s (goes_to t (Acquired m prev) (put_monitor m mon' (object s)) s)"
| acquired: "pcs s t = Acquired m prev \<Longrightarrow> monitors (object s) m = Some mon \<Longrightarrow>
    monitor_step cfg s (sets_held t (count_after_lock prev)
      (goes_to t Idle (put_monitor m (after_lock t prev (Lock_finish t mon)) (object s)) s))"
| wake: "pcs s t = Waiting m prev \<Longrightarrow> monitors (object s) m = Some mon \<Longrightarrow> Lock_enter t mon = Some (True, mon') \<Longrightarrow>
    monitor_step cfg s (sets_held t (unat prev + 1)
      (goes_to t Idle (put_monitor m (Wait_finish t prev mon') (object s)) s))"
| wake_blocked: "pcs s t = Waiting m prev \<Longrightarrow> monitors (object s) m = Some mon \<Longrightarrow>
    Lock_enter t mon = Some (False, mon') \<Longrightarrow>
    monitor_step cfg s (goes_to t (Blocked m (Some prev)) (put_monitor m mon' (object s)) s)"
| read_barrier: "gUseReadBarrier cfg \<Longrightarrow>
    monitor_step cfg s (s\<lparr>object := SetLockWord (SetReadBarrierState (lock_word (object s)) rb) (object s)\<rparr>)"
| mark_bit: "gUseReadBarrier cfg \<Longrightarrow> b \<le> 1 \<Longrightarrow>
    monitor_step cfg s (s\<lparr>object := SetLockWord (SetMarkBitState (lock_word (object s)) b) (object s)\<rparr>)"
| deflate: "(\<And>t. safe_point (pcs s t)) \<Longrightarrow> Deflate cfg (object s) = Some (b, obj) \<Longrightarrow>
    monitor_step cfg s (s\<lparr>object := obj\<rparr>)"

text \<open>A new object has an empty lock word but for the bits of the collector.\<close>

definition initial_system :: "config \<Rightarrow> system \<Rightarrow> bool" where
  "initial_system cfg s \<longleftrightarrow>
     (\<exists>gc \<le> 3. lock_word (object s) = FromDefault gc \<and> (gc_bits cfg \<or> gc = 0)) \<and>
     pcs s = (\<lambda>_. Idle) \<and> held s = (\<lambda>_. 0) \<and> hashes s = {}"

definition reachable_system :: "config \<Rightarrow> system \<Rightarrow> bool" where
  "reachable_system cfg s \<longleftrightarrow> (\<exists>s0. initial_system cfg s0 \<and> (monitor_step cfg)\<^sup>*\<^sup>* s0 s)"

section \<open>The invariant\<close>

text \<open>How often a thread is counted by \<open>num_waiters_\<close>.\<close>

fun weight :: "thread_pc \<Rightarrow> nat" where
  "weight (Blocked m None) = 1"
| "weight (Blocked m (Some prev)) = 2"
| "weight (Acquired m None) = 1"
| "weight (Acquired m (Some prev)) = 2"
| "weight (Waiting m prev) = 1"
| "weight _ = 0"

fun pc_knows :: "config \<Rightarrow> u32 \<Rightarrow> thread_pc \<Rightarrow> object_state \<Rightarrow> bool" where
  "pc_knows cfg t Idle obj = True"
| "pc_knows cfg t (Runs op) obj = True"
| "pc_knows cfg t (Seen op lw) obj = seen_ok cfg t lw obj"
| "pc_knows cfg t (Suspending op k h) obj = (k \<noteq> t \<and> h \<le> kMaxHash)"
| "pc_knows cfg t (Blocked m prev) obj = (view cfg obj = VFat m \<and> holds_of cfg obj t = 0)"
| "pc_knows cfg t (Acquired m prev) obj =
     (view cfg obj = VFat m \<and> (\<exists>mon. fat_monitor cfg obj = Some mon \<and> monitor_lock mon = Some t \<and> owner mon = None))"
| "pc_knows cfg t (Waiting m prev) obj = (view cfg obj = VFat m \<and> holds_of cfg obj t = 0)"

definition pc_ok :: "config \<Rightarrow> u32 \<Rightarrow> thread_pc \<Rightarrow> object_state \<Rightarrow> bool" where
  "pc_ok cfg t p obj \<longleftrightarrow> pc_knows cfg t p obj \<and> (p \<noteq> Idle \<longrightarrow> valid_thread_id t)"

definition system_inv :: "config \<Rightarrow> system \<Rightarrow> bool" where
  "system_inv cfg s \<longleftrightarrow>
     object_ok cfg (object s) \<and> (\<forall>t. pc_ok cfg t (pcs s t) (object s)) \<and>
     waiters cfg (object s) = (\<Sum>t \<in> UNIV. weight (pcs s t)) \<and>
     (\<forall>t. held s t = holds_of cfg (object s) t) \<and>
     (\<forall>h \<in> hashes s. object_hash cfg (object s) = Some h)"

lemma pc_ok_stable:
  assumes "pc_ok cfg u p obj" "frame cfg u obj obj'" "safe_point p \<or> keeps_thin cfg u obj obj'"
  shows "pc_ok cfg u p obj'"
  using assms seen_ok_stable
  by (cases p) (auto simp: pc_ok_def frame_def)

lemma weight_upd:
  fixes p :: "u32 \<Rightarrow> thread_pc"
  shows "(\<Sum>u \<in> UNIV. weight ((p(t := q)) u)) + weight (p t) = (\<Sum>u \<in> UNIV. weight (p u)) + weight q"
proof -
  have "(\<Sum>u \<in> UNIV. weight ((p(t := q)) u)) = weight q + (\<Sum>u \<in> UNIV - {t}. weight ((p(t := q)) u))"
    by (subst sum.remove [of UNIV t]) simp_all
  moreover have "(\<Sum>u \<in> UNIV. weight (p u)) = weight (p t) + (\<Sum>u \<in> UNIV - {t}. weight (p u))"
    by (subst sum.remove [of UNIV t]) simp_all
  moreover have "(\<Sum>u \<in> UNIV - {t}. weight ((p(t := q)) u)) = (\<Sum>u \<in> UNIV - {t}. weight (p u))"
    by (rule sum.cong) auto
  ultimately show ?thesis by simp
qed

text \<open>A step of thread \<open>t\<close> keeps the invariant if its own program point and its own count fit the new object.\<close>

lemma inv_thread:
  assumes inv: "system_inv cfg s"
    and ok: "object_ok cfg obj" and hash: "\<And>h. object_hash cfg (object s) = Some h \<Longrightarrow> object_hash cfg obj = Some h"
    and fr: "\<And>u. u \<noteq> t \<Longrightarrow> frame cfg u (object s) obj \<and> (safe_point (pcs s u) \<or> keeps_thin cfg u (object s) obj)"
    and p: "pc_ok cfg t p obj" and n: "n = holds_of cfg obj t"
    and w: "waiters cfg obj + weight (pcs s t) = waiters cfg (object s) + weight p"
  shows "system_inv cfg (sets_held t n (goes_to t p obj s))"
proof -
  have "pc_ok cfg u (((pcs s)(t := p)) u) obj" for u
    using p inv fr [of u] pc_ok_stable [of cfg u "pcs s u" "object s" obj] by (auto simp: system_inv_def)
  moreover have "((held s)(t := n)) u = holds_of cfg obj u" for u
    using n inv fr [of u] by (auto simp: system_inv_def frame_def)
  moreover have "waiters cfg obj = (\<Sum>u \<in> UNIV. weight (((pcs s)(t := p)) u))"
    using w inv weight_upd [of "pcs s" t p] by (simp add: system_inv_def)
  ultimately show ?thesis
    using inv ok hash by (auto simp: system_inv_def sets_held_def goes_to_def)
qed

lemma sets_held_same: "sets_held t (held s t) (goes_to t p obj s) = goes_to t p obj s"
  by (simp add: sets_held_def goes_to_def)

lemma inv_by_thread:
  assumes "system_inv cfg s" "by_thread cfg t (object s) obj" "pc_ok cfg t p obj"
    and "waiters cfg obj + weight (pcs s t) = waiters cfg (object s) + weight p"
    and "n = holds_of cfg obj t"
  shows "system_inv cfg (sets_held t n (goes_to t p obj s))"
  using assms inv_thread [of cfg s obj t p n] by (auto simp: by_thread_def)

lemma inv_same_lock:
  assumes inv: "system_inv cfg s" and "same_lock cfg t (object s) obj" "pc_ok cfg t p obj" "weight p = weight (pcs s t)"
  shows "system_inv cfg (goes_to t p obj s)"
proof -
  have "held s t = holds_of cfg obj t" using assms by (simp add: system_inv_def same_lock_def)
  then have "system_inv cfg (sets_held t (held s t) (goes_to t p obj s))"
    using assms by (intro inv_by_thread) (simp_all add: same_lock_def)
  then show ?thesis by (simp only: sets_held_same)
qed

lemmas inv_parts = system_inv_def [THEN iffD1, THEN conjunct1] system_inv_def [THEN iffD1, THEN conjunct2, THEN conjunct1, rule_format]
  system_inv_def [THEN iffD1, THEN conjunct2, THEN conjunct2, THEN conjunct2, THEN conjunct1, rule_format]

lemma weight_le: "system_inv cfg s \<Longrightarrow> weight (pcs s t) \<le> waiters cfg (object s)"
  using member_le_sum [of t UNIV "\<lambda>u. weight (pcs s u)"] by (simp add: system_inv_def)

lemma pc_ok_simps [simp]:
  "pc_ok cfg t Idle obj" "valid_thread_id t \<Longrightarrow> pc_ok cfg t (Runs op) obj"
  by (simp_all add: pc_ok_def)

lemma act_enter_inv:
  assumes inv: "system_inv cfg s" and pc: "pcs s t = Seen (OpEnter trylock c) lw" and fresh: "fresh_monitor mid (object s)"
    and a: "act cfg weak mid t (OpEnter trylock c) lw s = Some s'"
  shows "system_inv cfg s'"
proof -
  have t: "valid_thread_id t" and seen: "seen_ok cfg t lw (object s)"
    using inv_parts(2) [OF inv, of t] pc by (simp_all add: pc_ok_def)
  have h: "held s t = holds_of cfg (object s) t" using inv by (simp add: system_inv_def)
  obtain r where r: "MonitorEnter cfg weak mid t trylock c lw (object s) = Some r" using a by (auto split: option.splits)
  have e: "enter_effect cfg t (object s) (Some r)"
    using MonitorEnter_effect [OF inv_parts(1) [OF inv] seen, of mid weak trylock c] t fresh r
    by (simp add: valid_thread_id_def fresh_monitor_def fits_28_le kMaxMonitorId_def)
  show ?thesis
  proof (cases r)
    case (Entered obj)
    then show ?thesis using a r e inv_by_thread [OF inv, of t obj Idle] pc h
      by (auto simp: enter_effect_def hold_count_def)
  next
    case (EnterBlocked m obj)
    then have "system_inv cfg (sets_held t (held s t) (goes_to t (Blocked m None) obj s))"
      using e pc h t by (intro inv_by_thread [OF inv]) (simp_all add: enter_effect_def pc_ok_def)
    then show ?thesis using a r EnterBlocked by (simp add: sets_held_same)
  next
    case (EnterSuspend c' k)
    then have "pc_ok cfg t (Suspending (OpEnter trylock c') k 0) (object s)"
      using e t by (simp add: pc_ok_def enter_effect_def)
    then show ?thesis using a r EnterSuspend inv_same_lock [OF inv same_lock_refl [OF inv_parts(1) [OF inv]]] pc by auto
  qed (use a r e pc t inv_same_lock [OF inv] in \<open>auto simp: enter_effect_def\<close>)
qed

lemma act_exit_inv:
  assumes inv: "system_inv cfg s" and pc: "pcs s t = Seen OpExit lw"
    and a: "act cfg weak mid t OpExit lw s = Some s'"
  shows "system_inv cfg s'"
proof -
  have t: "valid_thread_id t" and seen: "seen_ok cfg t lw (object s)"
    using inv_parts(2) [OF inv, of t] pc by (simp_all add: pc_ok_def)
  have h: "held s t = holds_of cfg (object s) t" using inv by (simp add: system_inv_def)
  let ?w = "\<lambda>u. is_waiting (pcs s u)"
  obtain r where r: "MonitorExit cfg weak t ?w lw (object s) = Some r" using a by (auto split: option.splits)
  have e: "exit_effect cfg t (object s) (Some r)"
    using MonitorExit_effect [OF inv_parts(1) [OF inv] seen, of weak ?w] t r by (simp add: valid_thread_id_def)
  show ?thesis
  proof (cases r)
    case (Exited b obj)
    have "system_inv cfg (sets_held t (if b then held s t - 1 else held s t) (goes_to t Idle obj s))"
      using e Exited pc h by (intro inv_by_thread [OF inv])
        (auto simp: exit_effect_def hold_count_def release_def split: option.splits if_splits)
    then show ?thesis using a r Exited by (cases b) (simp_all add: sets_held_same)
  qed (use a r e pc t inv_same_lock [OF inv] in \<open>auto simp: exit_effect_def\<close>)
qed

lemma act_hash_inv:
  assumes inv: "system_inv cfg s" and pc: "pcs s t = Seen OpHash lw" and fresh: "fresh_monitor mid (object s)"
    and a: "act cfg weak mid t OpHash lw s = Some s'"
  shows "system_inv cfg s'"
proof -
  have t: "valid_thread_id t" and seen: "seen_ok cfg t lw (object s)"
    using inv_parts(2) [OF inv, of t] pc by (simp_all add: pc_ok_def)
  obtain r where r: "IdentityHashCode cfg weak mid t lw (object s) = Some r" using a by (auto split: option.splits)
  have e: "hash_effect cfg t (object s) (Some r)"
    using IdentityHashCode_effect [OF inv_parts(1) [OF inv] seen, of mid weak] fresh r
    by (simp add: fresh_monitor_def fits_28_le kMaxMonitorId_def)
  show ?thesis
  proof (cases r)
    case (Hashed h obj)
    then have "system_inv cfg (goes_to t Idle obj s)" "object_hash cfg obj = Some h"
      using e pc inv_same_lock [OF inv] by (simp_all add: hash_effect_def)
    then show ?thesis using a r Hashed by (auto simp: system_inv_def goes_to_def)
  next
    case (HashSuspend k h obj)
    then have "pc_ok cfg t (Suspending OpHash k h) obj" using e t by (simp add: pc_ok_def hash_effect_def)
    then show ?thesis using a r e HashSuspend inv_same_lock [OF inv] pc by (auto simp: hash_effect_def)
  qed (use a r e pc t inv_same_lock [OF inv] in \<open>auto simp: hash_effect_def\<close>)
qed

lemma act_wait_inv:
  assumes inv: "system_inv cfg s" and pc: "pcs s t = Seen (OpWait ms ns) lw" and fresh: "fresh_monitor mid (object s)"
    and a: "act cfg weak mid t (OpWait ms ns) lw s = Some s'"
  shows "system_inv cfg s'"
proof -
  have t: "valid_thread_id t" and seen: "seen_ok cfg t lw (object s)"
    using inv_parts(2) [OF inv, of t] pc by (simp_all add: pc_ok_def)
  let ?w = "\<lambda>u. is_waiting (pcs s u)"
  obtain r where r: "Object_Wait cfg weak mid t ?w ms ns lw (object s) = Some r" using a by (auto split: option.splits)
  have e: "wait_effect cfg t (object s) (Some r)"
    using Object_Wait_effect [OF inv_parts(1) [OF inv] seen, of mid weak ?w ms ns] fresh r
    by (simp add: fresh_monitor_def fits_28_le kMaxMonitorId_def)
  show ?thesis
  proof (cases r)
    case (WaitSleeps m prev obj)
    then show ?thesis using a r e pc t inv_by_thread [OF inv, of t obj "Waiting m prev" 0]
      by (simp add: wait_effect_def hold_count_def pc_ok_def)
  next
    case (WaitThrows x)
    then show ?thesis using a r pc inv_same_lock [OF inv same_lock_refl [OF inv_parts(1) [OF inv]], of t Idle] by simp
  qed (use a r e pc t inv_same_lock [OF inv] in \<open>auto simp: wait_effect_def\<close>)
qed

lemma act_notify_inv:
  assumes inv: "system_inv cfg s" and pc: "pcs s t = Seen (OpNotify n) lw"
    and a: "act cfg weak mid t (OpNotify n) lw s = Some s'"
  shows "system_inv cfg s'"
proof -
  have seen: "seen_ok cfg t lw (object s)"
    using inv_parts(2) [OF inv, of t] pc by (simp add: pc_ok_def)
  from DoNotify_effect [OF inv_parts(1) [OF inv] seen, of n] a show ?thesis
    using inv_same_lock [OF inv, of t _ Idle] pc by auto
qed

lemma suspended_effect:
  assumes ok: "object_ok cfg obj" and mid: "fresh_monitor mid obj" and h: "h \<le> kMaxHash"
  shows "\<exists>obj'. InflateThinLocked_suspended cfg weak mid t k got h obj = Some obj' \<and> silent cfg obj obj' \<and>
    (got \<and> (\<exists>c. view cfg obj = VThin k c) \<or> obj' = obj)"
proof (cases "got \<and> GetLockState (gc_bits cfg) (lock_word obj) = kThinLocked \<and> ThinLockOwner (lock_word obj) = k")
  case True
  then have "view cfg obj = VThin k (ThinLockCount (lock_word obj))"
    using lock_view_GetLockState(2) by (simp add: view_def)
  then show ?thesis
    using True Inflate_thin [OF ok, of k _ mid h t "\<lambda>u. u = k" weak] mid h
    by (auto simp: InflateThinLocked_suspended_def fresh_monitor_def fits_28_le kMaxMonitorId_def)
next
  case False
  have "silent cfg obj obj" using no_change [of obj obj cfg] ok by (simp add: silent_def)
  then show ?thesis using False by (auto simp: InflateThinLocked_suspended_def)
qed

lemma suspend_inv:
  assumes inv: "system_inv cfg s" and pc: "pcs s t = Suspending op k h" and mid: "fresh_monitor mid (object s)"
    and safe: "got \<longrightarrow> safe_point (pcs s k)"
    and a: "InflateThinLocked_suspended cfg weak mid t k got h (object s) = Some obj"
  shows "system_inv cfg (goes_to t (Runs op) obj s)"
proof -
  have t: "valid_thread_id t" "h \<le> kMaxHash"
    using inv_parts(2) [OF inv, of t] pc by (simp_all add: pc_ok_def)
  from suspended_effect [OF inv_parts(1) [OF inv] mid t(2), of weak t k got] a
  have obj: "silent cfg (object s) obj" "got \<and> (\<exists>c. view cfg (object s) = VThin k c) \<or> obj = object s" by auto
  have kt: "safe_point (pcs s u) \<or> keeps_thin cfg u (object s) obj" for u
  proof (cases "obj = object s")
    case False
    with obj(2) obtain c where "got" "view cfg (object s) = VThin k c" by blast
    then show ?thesis using safe by (cases "u = k") (simp_all add: keeps_thin_def)
  qed (simp add: keeps_thin_def)
  have "system_inv cfg (sets_held t (held s t) (goes_to t (Runs op) obj s))"
    using obj(1) inv_parts(3) [OF inv] pc t(1) kt
    by (intro inv_thread [OF inv]) (auto simp: silent_def frame_def)
  then show ?thesis by (simp only: sets_held_same)
qed

lemma fat_knows:
  assumes inv: "system_inv cfg s" and v: "view cfg (object s) = VFat m" and m: "monitors (object s) m = Some mon"
  shows "fat_monitor cfg (object s) = Some mon" "monitor_ok mon" "num_waiters mon = waiters cfg (object s)"
    "lock_holder cfg (object s) = map_option (\<lambda>t. (t, unat (lock_count mon) + 1)) (owner mon)"
  using inv_parts(1) [OF inv] v m by (auto simp: object_defs)

lemma holds_0_owner:
  assumes "lock_holder cfg obj = map_option (\<lambda>t. (t, unat (lock_count mon) + 1)) (owner mon)"
  shows "holds_of cfg obj t = 0 \<longleftrightarrow> owner mon \<noteq> Some t"
  using assms by (cases "owner mon") (auto simp: hold_count_def)

lemma acquire_inv:
  assumes inv: "system_inv cfg s" and pc: "pcs s t = Blocked m prev" and m: "monitors (object s) m = Some mon"
    and a: "Lock_acquire t mon = Some mon'"
  shows "system_inv cfg (goes_to t (Acquired m prev) (put_monitor m mon' (object s)) s)"
proof -
  have t: "valid_thread_id t" and v: "view cfg (object s) = VFat m"
    using inv_parts(2) [OF inv, of t] pc by (simp_all add: pc_ok_def)
  note k = fat_knows [OF inv v m]
  have mon': "monitor_lock mon = None" "mon' = mon\<lparr>monitor_lock := Some t\<rparr>" "owner mon = None" "lock_count mon = 0"
    using a k(2) by (auto simp: Lock_acquire_def monitor_ok_def split: if_splits option.splits)
  have ch: "monitor_change t mon mon'" using mon' k(2) by (simp add: monitor_change_def monitor_ok_def)
  note p = fat_put [OF inv_parts(1) [OF inv] v m ch]
  have "weight (Acquired m prev) = weight (Blocked m prev)" by (cases prev) simp_all
  moreover have "same_lock cfg t (object s) (put_monitor m mon' (object s))"
    using p k mon' by (simp add: same_lock_def)
  moreover have "pc_ok cfg t (Acquired m prev) (put_monitor m mon' (object s))"
    using p t mon' by (simp add: pc_ok_def fat_monitor_def put_monitor_def)
  ultimately show ?thesis using inv_same_lock [OF inv] pc by metis
qed

lemma acquired_inv:
  assumes inv: "system_inv cfg s" and pc: "pcs s t = Acquired m prev" and m: "monitors (object s) m = Some mon"
  shows "system_inv cfg (sets_held t (count_after_lock prev)
    (goes_to t Idle (put_monitor m (after_lock t prev (Lock_finish t mon)) (object s)) s))"
proof -
  have t: "valid_thread_id t" and v: "view cfg (object s) = VFat m"
    using inv_parts(2) [OF inv, of t] pc by (simp_all add: pc_ok_def)
  note k = fat_knows [OF inv v m]
  have mon: "monitor_lock mon = Some t" "owner mon = None" "lock_count mon = 0"
    using inv_parts(2) [OF inv, of t] pc k by (auto simp: pc_ok_def monitor_ok_def)
  define mon' where "mon' = after_lock t prev (Lock_finish t mon)"
  have mon': "owner mon' = Some t" "unat (lock_count mon') + 1 = count_after_lock prev"
    "num_waiters mon' = num_waiters mon - weight (Acquired m prev)"
    "monitor_lock mon' = Some t" "hash_code mon' = hash_code mon" "has_obj mon' = has_obj mon"
    using mon by (cases prev; simp add: mon'_def Lock_finish_def Wait_finish_def)+
  have ch: "monitor_change t mon mon'"
    using mon mon' k(2) t by (auto simp: monitor_change_def monitor_ok_def valid_thread_id_def)
  note p = fat_put [OF inv_parts(1) [OF inv] v m ch]
  show ?thesis unfolding mon'_def [symmetric]
    using p mon' k pc weight_le [OF inv, of t] by (intro inv_by_thread [OF inv]) (simp_all add: hold_count_def)
qed

lemma wake_cases:
  assumes inv: "system_inv cfg s" and pc: "pcs s t = Waiting m prev" and m: "monitors (object s) m = Some mon"
  obtains (gets) mon' where "Lock_enter t mon = Some (True, mon')" "mon' = mon\<lparr>monitor_lock := Some t, owner := Some t\<rparr>"
      "owner mon = None" "monitor_lock mon = None" "lock_count mon = 0"
    | (blocks) mon' where "Lock_enter t mon = Some (False, mon')" "mon' = mon\<lparr>num_waiters := num_waiters mon + 1\<rparr>"
      "owner mon \<noteq> Some t"
proof -
  have v: "view cfg (object s) = VFat m" and h: "holds_of cfg (object s) t = 0"
    using inv_parts(2) [OF inv, of t] pc by (simp_all add: pc_ok_def)
  note k = fat_knows [OF inv v m]
  have o: "owner mon \<noteq> Some t" using h holds_0_owner [OF k(4)] by simp
  show thesis
  proof (cases "monitor_lock mon")
    case None
    then have "owner mon = None" "lock_count mon = 0" using k(2) by (auto simp: monitor_ok_def split: option.splits)
    with None show thesis by (intro gets) (simp_all add: Lock_enter_def TryLock_def)
  next
    case (Some u)
    with o show thesis by (intro blocks) (simp_all add: Lock_enter_def TryLock_def)
  qed
qed

lemma wake_inv:
  assumes inv: "system_inv cfg s" and pc: "pcs s t = Waiting m prev" and m: "monitors (object s) m = Some mon"
    and a: "Lock_enter t mon = Some (True, mon')"
  shows "system_inv cfg (sets_held t (unat prev + 1)
    (goes_to t Idle (put_monitor m (Wait_finish t prev mon') (object s)) s))"
proof -
  have t: "valid_thread_id t" and v: "view cfg (object s) = VFat m"
    using inv_parts(2) [OF inv, of t] pc by (simp_all add: pc_ok_def)
  note k = fat_knows [OF inv v m]
  obtain m1: "mon' = mon\<lparr>monitor_lock := Some t, owner := Some t\<rparr>" "owner mon = None" "monitor_lock mon = None"
    using a by (cases rule: wake_cases [OF inv pc m]) auto
  have ch: "monitor_change t mon (Wait_finish t prev mon')"
    using m1 k(2) t by (auto simp: monitor_change_def monitor_ok_def valid_thread_id_def Wait_finish_def)
  note p = fat_put [OF inv_parts(1) [OF inv] v m ch]
  show ?thesis
    using p m1 k pc weight_le [OF inv, of t]
    by (intro inv_by_thread [OF inv]) (simp_all add: hold_count_def Wait_finish_def)
qed

lemma wake_blocked_inv:
  assumes inv: "system_inv cfg s" and pc: "pcs s t = Waiting m prev" and m: "monitors (object s) m = Some mon"
    and a: "Lock_enter t mon = Some (False, mon')"
  shows "system_inv cfg (goes_to t (Blocked m (Some prev)) (put_monitor m mon' (object s)) s)"
proof -
  have t: "valid_thread_id t" and v: "view cfg (object s) = VFat m"
    using inv_parts(2) [OF inv, of t] pc by (simp_all add: pc_ok_def)
  note k = fat_knows [OF inv v m]
  obtain m1: "mon' = mon\<lparr>num_waiters := num_waiters mon + 1\<rparr>" "owner mon \<noteq> Some t"
    using a by (cases rule: wake_cases [OF inv pc m]) auto
  have ch: "monitor_change t mon mon'"
    using m1 k(2) by (auto simp: monitor_change_def monitor_ok_def split: option.splits)
  note p = fat_put [OF inv_parts(1) [OF inv] v m ch]
  have "system_inv cfg (sets_held t (held s t)
      (goes_to t (Blocked m (Some prev)) (put_monitor m mon' (object s)) s))"
    using p m1 k pc t holds_0_owner [OF k(4)] inv_parts(3) [OF inv]
    by (intro inv_by_thread [OF inv]) (simp_all add: pc_ok_def)
  then show ?thesis by (simp only: sets_held_same)
qed

lemma gc_inv:
  assumes inv: "system_inv cfg s" and rb: "gUseReadBarrier cfg"
    and w: "take_bit 28 w = take_bit 28 (lock_word (object s))" "drop_bit 30 w = drop_bit 30 (lock_word (object s))"
  shows "system_inv cfg (s\<lparr>object := SetLockWord w (object s)\<rparr>)"
proof -
  define obj where "obj = SetLockWord w (object s)"
  have "view cfg obj = view cfg (object s)"
    using lock_view_gc_change [OF w] rb by (simp add: view_def obj_def SetLockWord_def gc_bits_def)
  then have c: "object_ok cfg obj" "frame cfg u (object s) obj" "keeps_thin cfg u (object s) obj"
    "lock_holder cfg obj = lock_holder cfg (object s)" "object_hash cfg obj = object_hash cfg (object s)"
    "waiters cfg obj = waiters cfg (object s)" for u
    using gc_change [of cfg obj "object s"] inv_parts(1) [OF inv] rb by (simp_all add: obj_def SetLockWord_def)
  then have "pc_ok cfg u (pcs s u) obj" for u using pc_ok_stable inv_parts(2) [OF inv] by blast
  then show ?thesis using c inv unfolding obj_def [symmetric] by (simp add: system_inv_def)
qed

lemma Deflate_effect:
  assumes ok: "object_ok cfg obj"
  obtains b obj' where "Deflate cfg obj = Some (b, obj')" "object_ok cfg obj'"
    "lock_holder cfg obj' = lock_holder cfg obj" "waiters cfg obj' = waiters cfg obj"
    "object_hash cfg obj' = object_hash cfg obj" "obj' = obj \<or> waiters cfg obj = 0"
proof (cases "GetLockState (gc_bits cfg) (lock_word obj) = kFatLocked")
  case False
  then show thesis using that [of True obj] ok by (simp add: Deflate_def)
next
  case True
  define m where "m = FatLockMonitor (lock_word obj)"
  have v: "view cfg obj = VFat m" using True lock_view_GetLockState(3) by (simp add: view_def m_def)
  obtain mon where mon: "monitors obj m = Some mon" "monitor_ok mon" and
    h: "lock_holder cfg obj = map_option (\<lambda>t. (t, unat (lock_count mon) + 1)) (owner mon)"
    "waiters cfg obj = num_waiters mon"
    using fat_seen [OF ok v] by metis
  show thesis
  proof (cases "num_waiters mon > 0 \<or> monitor_lock mon \<noteq> None")
    case True
    then show thesis using that [of False obj] ok mon \<open>GetLockState _ _ = _\<close> by (auto simp: Deflate_def m_def Let_def)
  next
    case idle: False
    define lw where "lw = lock_word obj"
    have gc: "gc_bits cfg \<or> GCState lw = 0" using ok by (simp add: object_ok_def lw_def)
    obtain w where w: "(if HasHashCode mon then FromHashCode (hash_code mon) (GCState lw) else Some (FromDefault (GCState lw))) = Some w"
      "lock_view (gc_bits cfg) w = (if HasHashCode mon then VHash (hash_code mon) else VUnlocked)" "GCState w = GCState lw"
    proof (cases "HasHashCode mon")
      case True
      obtain w where w: "FromHashCode (hash_code mon) (GCState lw) = Some w"
        using mon(2) by (auto simp: FromHashCode_def monitor_ok_def)
      then show thesis using that True FromHashCode_view [OF w GCState_fits] by simp
    qed (use that FromDefault_view [OF GCState_fits gc] in simp)
    define obj' where "obj' = put_monitor m (mon\<lparr>has_obj := False\<rparr>) (SetLockWord w obj)"
    have e: "Deflate cfg obj = Some (True, obj')"
      using idle True mon w(1) by (simp add: Deflate_def m_def lw_def obj'_def Let_def split: if_splits)
    have v': "view cfg obj' = (if HasHashCode mon then VHash (hash_code mon) else VUnlocked)"
      using w by (simp add: view_def obj'_def put_monitor_def SetLockWord_def)
    have none: "owner mon = None" using mon(2) idle by (auto simp: monitor_ok_def split: option.splits)
    show thesis
      using e that [of True obj'] v v' w gc h idle none mon
      by (auto simp: object_defs HasHashCode_def obj'_def put_monitor_def SetLockWord_def)
  qed
qed

lemma deflate_inv:
  assumes inv: "system_inv cfg s" and safe: "\<And>t. safe_point (pcs s t)" and d: "Deflate cfg (object s) = Some (b, obj)"
  shows "system_inv cfg (s\<lparr>object := obj\<rparr>)"
proof -
  have e: "object_ok cfg obj" "lock_holder cfg obj = lock_holder cfg (object s)"
    "waiters cfg obj = waiters cfg (object s)" "object_hash cfg obj = object_hash cfg (object s)"
    "obj = object s \<or> waiters cfg (object s) = 0"
    by (rule Deflate_effect [OF inv_parts(1) [OF inv]]; use d in simp)+
  have "pc_ok cfg t (pcs s t) obj" for t
  proof (cases "obj = object s")
    case False
    then have "weight (pcs s t) = 0" using e weight_le [OF inv, of t] by simp
    then have "pc_ok cfg t (pcs s t) obj \<longleftrightarrow> pc_ok cfg t (pcs s t) (object s)"
      using safe [of t] by (cases "pcs s t" rule: weight.cases) (simp_all add: pc_ok_def)
    then show ?thesis using inv_parts(2) [OF inv] by blast
  qed (use inv_parts(2) [OF inv] in simp)
  then show ?thesis using e inv by (simp add: system_inv_def)
qed

lemma act_inv:
  assumes "system_inv cfg s" "pcs s t = Seen op lw" "fresh_monitor mid (object s)" "act cfg weak mid t op lw s = Some s'"
  shows "system_inv cfg s'"
proof (cases op)
  case (OpEnter trylock c)
  then show ?thesis using act_enter_inv [OF assms(1) _ assms(3)] assms(2,4) by blast
next
  case OpExit
  then show ?thesis using act_exit_inv [OF assms(1)] assms(2,4) by blast
next
  case OpHash
  then show ?thesis using act_hash_inv [OF assms(1) _ assms(3)] assms(2,4) by blast
next
  case (OpWait ms ns)
  then show ?thesis using act_wait_inv [OF assms(1) _ assms(3)] assms(2,4) by blast
next
  case (OpNotify n)
  then show ?thesis using act_notify_inv [OF assms(1)] assms(2,4) by blast
qed

lemma initial_object:
  assumes "initial_system cfg s"
  shows "view cfg (object s) = VUnlocked" "gc_bits cfg \<or> GCState (lock_word (object s)) = 0"
proof -
  obtain gc where gc: "gc \<le> 3" "lock_word (object s) = FromDefault gc" "gc_bits cfg \<or> gc = 0"
    using assms by (auto simp: initial_system_def)
  have "fits 2 gc" using gc(1) by (simp add: fits_unat word_le_nat_alt)
  then show "view cfg (object s) = VUnlocked" "gc_bits cfg \<or> GCState (lock_word (object s)) = 0"
    using FromDefault_view [OF _ gc(3)] gc by (simp_all add: view_def)
qed

lemma initial_inv: "initial_system cfg s \<Longrightarrow> system_inv cfg s"
  using initial_object [of cfg s] by (auto simp: system_inv_def initial_system_def object_defs hold_count_def)

lemma fits_1: "(b :: u32) \<le> 1 \<Longrightarrow> fits 1 b"
  by (simp add: fits_unat word_le_nat_alt)

lemma step_inv: "monitor_step cfg s s' \<Longrightarrow> system_inv cfg s \<Longrightarrow> system_inv cfg s'"
proof (induction rule: monitor_step.induct)
  case (call s t op)
  then show ?case using inv_same_lock [OF call(3) same_lock_refl [OF inv_parts(1) [OF call(3)]], of t "Runs op"] by simp
next
  case (read s t op)
  then have "valid_thread_id t" using inv_parts(2) [OF read(2), of t] by (simp add: pc_ok_def)
  then show ?case
    using read inv_same_lock [OF read(2) same_lock_refl [OF inv_parts(1) [OF read(2)]], of t "Seen op (lock_word (object s))"]
      seen_ok_read [OF inv_parts(1) [OF read(2)]] by (simp add: pc_ok_def)
next
  case (read_barrier s rb)
  then show ?case using gc_inv SetReadBarrierState_fields by simp
next
  case (mark_bit b s)
  then show ?case using gc_inv SetMarkBitState_fields [OF fits_1] by simp
qed (blast intro: act_inv suspend_inv acquire_inv acquired_inv wake_inv wake_blocked_inv deflate_inv)+

section \<open>Refinement of a reentrant lock\<close>

text \<open>The promise of a Java monitor: at most one holder with its number of entries, and for every thread in
  \<open>wait\<close> the number of entries it gets back.\<close>

record lock_state =
  holder :: "(u32 \<times> nat) option"
  released :: "u32 \<Rightarrow> nat option"

inductive lock_spec :: "lock_state \<Rightarrow> lock_state \<Rightarrow> bool" where
  enter: "holder l = None \<Longrightarrow> lock_spec l (l\<lparr>holder := Some (t, 1)\<rparr>)"
| reenter: "holder l = Some (t, n) \<Longrightarrow> lock_spec l (l\<lparr>holder := Some (t, n + 1)\<rparr>)"
| exit: "holder l = Some (t, n) \<Longrightarrow> n > 1 \<Longrightarrow> lock_spec l (l\<lparr>holder := Some (t, n - 1)\<rparr>)"
| last_exit: "holder l = Some (t, 1) \<Longrightarrow> lock_spec l (l\<lparr>holder := None\<rparr>)"
| waits: "holder l = Some (t, n) \<Longrightarrow> released l t = None \<Longrightarrow>
    lock_spec l (l\<lparr>holder := None, released := (released l)(t := Some n)\<rparr>)"
| resumes: "holder l = None \<Longrightarrow> released l t = Some n \<Longrightarrow>
    lock_spec l (l\<lparr>holder := Some (t, n), released := (released l)(t := None)\<rparr>)"

fun released_at :: "thread_pc \<Rightarrow> nat option" where
  "released_at (Waiting m prev) = Some (unat prev + 1)"
| "released_at (Blocked m (Some prev)) = Some (unat prev + 1)"
| "released_at (Acquired m (Some prev)) = Some (unat prev + 1)"
| "released_at _ = None"

definition lock_of :: "config \<Rightarrow> system \<Rightarrow> lock_state" where
  "lock_of cfg s = \<lparr>holder = lock_holder cfg (object s), released = (\<lambda>t. released_at (pcs s t))\<rparr>"

definition lock_refl :: "lock_state \<Rightarrow> lock_state \<Rightarrow> bool" where
  "lock_refl l l' \<longleftrightarrow> l' = l \<or> lock_spec l l'"

lemma lock_of_simps:
  "holder (lock_of cfg s) = lock_holder cfg (object s)" "released (lock_of cfg s) t = released_at (pcs s t)"
  "lock_of cfg (sets_held u n s) = lock_of cfg s" "lock_of cfg (s\<lparr>hashes := hs\<rparr>) = lock_of cfg s"
  by (simp_all add: lock_of_def sets_held_def)

lemma lock_of_goes_to:
  "lock_of cfg (goes_to t p obj s) =
     (lock_of cfg s)\<lparr>holder := lock_holder cfg obj, released := (released (lock_of cfg s))(t := released_at p)\<rparr>"
  by (auto simp: lock_of_def goes_to_def)

lemma lock_of_goes_to_holder:
  "released_at p = released_at (pcs s t) \<Longrightarrow>
     lock_of cfg (goes_to t p obj s) = (lock_of cfg s)\<lparr>holder := lock_holder cfg obj\<rparr>"
  by (auto simp: lock_of_def goes_to_def)

lemma lock_refl_unchanged:
  assumes "lock_holder cfg obj = lock_holder cfg (object s)" "released_at p = released_at (pcs s t)"
  shows "lock_refl (lock_of cfg s) (lock_of cfg (goes_to t p obj s))"
  using assms by (simp add: lock_refl_def lock_of_goes_to_holder lock_of_simps(1) [symmetric])

lemma lock_refl_same:
  assumes "same_lock cfg t (object s) obj" "released_at p = released_at (pcs s t)"
  shows "lock_refl (lock_of cfg s) (lock_of cfg (goes_to t p obj s))"
  using assms by (simp add: lock_refl_unchanged same_lock_def)

lemma lock_refl_holder:
  assumes "released_at p = released_at (pcs s t)" "lock_holder cfg obj = l"
    and "lock_spec (lock_of cfg s) ((lock_of cfg s)\<lparr>holder := l\<rparr>)"
  shows "lock_refl (lock_of cfg s) (lock_of cfg (goes_to t p obj s))"
  using assms by (simp add: lock_refl_def lock_of_goes_to_holder)

lemma act_enter_refines:
  assumes inv: "system_inv cfg s" and pc: "pcs s t = Seen (OpEnter trylock c) lw" and fresh: "fresh_monitor mid (object s)"
    and a: "act cfg weak mid t (OpEnter trylock c) lw s = Some s'"
  shows "lock_refl (lock_of cfg s) (lock_of cfg s')"
proof -
  have t: "valid_thread_id t" and seen: "seen_ok cfg t lw (object s)"
    using inv_parts(2) [OF inv, of t] pc by (simp_all add: pc_ok_def)
  obtain r where r: "MonitorEnter cfg weak mid t trylock c lw (object s) = Some r" using a by (auto split: option.splits)
  have e: "enter_effect cfg t (object s) (Some r)"
    using MonitorEnter_effect [OF inv_parts(1) [OF inv] seen, of mid weak trylock c] t fresh r
    by (simp add: valid_thread_id_def fresh_monitor_def fits_28_le kMaxMonitorId_def)
  show ?thesis
  proof (cases r)
    case (Entered obj)
    define l where "l = lock_of cfg s"
    have h: "lock_holder cfg obj = Some (t, hold_count (holder l) t + 1)" "holder l = None \<or> hold_count (holder l) t > 0"
      using e Entered by (auto simp: enter_effect_def lock_of_def l_def)
    then have "lock_spec l (l\<lparr>holder := Some (t, hold_count (holder l) t + 1)\<rparr>)"
      using lock_spec.enter [of l t] lock_spec.reenter [of l t]
      by (auto simp: hold_count_def split: option.splits if_splits)
    then show ?thesis
      using a r Entered lock_refl_holder [of Idle s t cfg obj, OF _ h(1)] pc by (auto simp: lock_of_simps(3) l_def)
  next
    case (EnterBlocked m obj)
    then show ?thesis using a r e pc lock_refl_unchanged [of cfg obj s _ t] by (auto simp: enter_effect_def)
  next
    case (EnterSuspend c' k)
    then show ?thesis using a r pc lock_refl_unchanged [of cfg "object s" s _ t] by auto
  qed (use a r e pc in \<open>auto simp: enter_effect_def intro: lock_refl_same\<close>)
qed

lemma act_exit_refines:
  assumes inv: "system_inv cfg s" and pc: "pcs s t = Seen OpExit lw"
    and a: "act cfg weak mid t OpExit lw s = Some s'"
  shows "lock_refl (lock_of cfg s) (lock_of cfg s')"
proof -
  have t: "valid_thread_id t" and seen: "seen_ok cfg t lw (object s)"
    using inv_parts(2) [OF inv, of t] pc by (simp_all add: pc_ok_def)
  let ?w = "\<lambda>u. is_waiting (pcs s u)"
  obtain r where r: "MonitorExit cfg weak t ?w lw (object s) = Some r" using a by (auto split: option.splits)
  have e: "exit_effect cfg t (object s) (Some r)"
    using MonitorExit_effect [OF inv_parts(1) [OF inv] seen, of weak ?w] t r by (simp add: valid_thread_id_def)
  show ?thesis
  proof (cases r)
    case (Exited b obj)
    define l where "l = lock_of cfg s"
    have h: "lock_holder cfg obj = (if b then release (holder l) else holder l)" "b \<longleftrightarrow> hold_count (holder l) t > 0"
      using e Exited by (auto simp: exit_effect_def lock_of_def l_def)
    have "lock_refl l (lock_of cfg (goes_to t Idle obj s))"
    proof (cases b)
      case True
      then obtain n where n: "holder l = Some (t, n)" "n > 0"
        using h(2) by (auto simp: hold_count_def split: option.splits if_splits)
      then have "lock_spec l (l\<lparr>holder := release (holder l)\<rparr>)"
        using lock_spec.exit [OF n(1)] lock_spec.last_exit [of l t] by (cases "n = 1") (auto simp: release_def)
      then show ?thesis unfolding l_def using True h(1) pc by (intro lock_refl_holder) (simp_all add: l_def)
    next
      case False
      then show ?thesis using h pc lock_refl_unchanged [of cfg obj s Idle t] by (simp add: l_def lock_of_simps(1))
    qed
    then show ?thesis using a r Exited by (cases b) (auto simp: lock_of_simps(3) l_def)
  qed (use a r e pc in \<open>auto simp: exit_effect_def intro: lock_refl_same\<close>)
qed

lemma act_hash_refines:
  assumes inv: "system_inv cfg s" and pc: "pcs s t = Seen OpHash lw" and fresh: "fresh_monitor mid (object s)"
    and a: "act cfg weak mid t OpHash lw s = Some s'"
  shows "lock_refl (lock_of cfg s) (lock_of cfg s')"
proof -
  have seen: "seen_ok cfg t lw (object s)" using inv_parts(2) [OF inv, of t] pc by (simp add: pc_ok_def)
  obtain r where r: "IdentityHashCode cfg weak mid t lw (object s) = Some r" using a by (auto split: option.splits)
  have e: "hash_effect cfg t (object s) (Some r)"
    using IdentityHashCode_effect [OF inv_parts(1) [OF inv] seen, of mid weak] fresh r
    by (simp add: fresh_monitor_def fits_28_le kMaxMonitorId_def)
  show ?thesis
    using a r e pc lock_refl_same [of cfg t s]
    by (cases r) (auto simp: hash_effect_def lock_of_simps(4))
qed

lemma act_wait_refines:
  assumes inv: "system_inv cfg s" and pc: "pcs s t = Seen (OpWait ms ns) lw" and fresh: "fresh_monitor mid (object s)"
    and a: "act cfg weak mid t (OpWait ms ns) lw s = Some s'"
  shows "lock_refl (lock_of cfg s) (lock_of cfg s')"
proof -
  have seen: "seen_ok cfg t lw (object s)" using inv_parts(2) [OF inv, of t] pc by (simp add: pc_ok_def)
  let ?w = "\<lambda>u. is_waiting (pcs s u)"
  obtain r where r: "Object_Wait cfg weak mid t ?w ms ns lw (object s) = Some r" using a by (auto split: option.splits)
  have e: "wait_effect cfg t (object s) (Some r)"
    using Object_Wait_effect [OF inv_parts(1) [OF inv] seen, of mid weak ?w ms ns] fresh r
    by (simp add: fresh_monitor_def fits_28_le kMaxMonitorId_def)
  show ?thesis
  proof (cases r)
    case (WaitSleeps m prev obj)
    then have "lock_spec (lock_of cfg s) (lock_of cfg (goes_to t (Waiting m prev) obj s))"
      using e pc lock_spec.waits [of "lock_of cfg s" t "unat prev + 1"]
      by (simp add: wait_effect_def lock_of_goes_to lock_of_simps)
    then show ?thesis using a r WaitSleeps by (auto simp: lock_refl_def lock_of_simps(3))
  next
    case (WaitThrows x)
    then show ?thesis using a r pc lock_refl_unchanged [of cfg "object s" s Idle t] by auto
  qed (use a r e pc lock_refl_same [of cfg t s] in \<open>auto simp: wait_effect_def\<close>)
qed

lemma act_refines:
  assumes "system_inv cfg s" "pcs s t = Seen op lw" "fresh_monitor mid (object s)" "act cfg weak mid t op lw s = Some s'"
  shows "lock_refl (lock_of cfg s) (lock_of cfg s')"
proof (cases op)
  case (OpEnter trylock c)
  then show ?thesis using act_enter_refines [OF assms(1) _ assms(3)] assms(2,4) by blast
next
  case OpExit
  then show ?thesis using act_exit_refines [OF assms(1)] assms(2,4) by blast
next
  case OpHash
  then show ?thesis using act_hash_refines [OF assms(1) _ assms(3)] assms(2,4) by blast
next
  case (OpWait ms ns)
  then show ?thesis using act_wait_refines [OF assms(1) _ assms(3)] assms(2,4) by blast
next
  case (OpNotify n)
  have "seen_ok cfg t lw (object s)" using inv_parts(2) [OF assms(1), of t] assms(2) by (simp add: pc_ok_def)
  from DoNotify_effect [OF inv_parts(1) [OF assms(1)] this, of n] assms(2,4) show ?thesis
    using OpNotify lock_refl_same [of cfg t s _ Idle] by auto
qed

lemma lock_refl_object:
  "lock_holder cfg obj = lock_holder cfg (object s) \<Longrightarrow> lock_refl (lock_of cfg s) (lock_of cfg (s\<lparr>object := obj\<rparr>))"
  by (simp add: lock_refl_def lock_of_def)

lemma put_refines:
  assumes inv: "system_inv cfg s" and v: "view cfg (object s) = VFat m" and m: "monitors (object s) m = Some mon"
  shows "owner mon' = owner mon \<Longrightarrow> lock_count mon' = lock_count mon \<Longrightarrow> released_at p = released_at (pcs s t) \<Longrightarrow>
      lock_refl (lock_of cfg s) (lock_of cfg (goes_to t p (put_monitor m mon' (object s)) s))"
    and "owner mon = None \<Longrightarrow> owner mon' = Some t \<Longrightarrow>
      (released_at (pcs s t) = Some (unat (lock_count mon') + 1) \<or> released_at (pcs s t) = None \<and> lock_count mon' = 0) \<Longrightarrow>
      lock_refl (lock_of cfg s) (lock_of cfg (goes_to t Idle (put_monitor m mon' (object s)) s))"
proof -
  note k = fat_knows [OF inv v m]
  have l: "lock_holder cfg (put_monitor m mon' (object s)) = map_option (\<lambda>t. (t, unat (lock_count mon') + 1)) (owner mon')"
    using v by (simp add: lock_holder_def view_def put_monitor_def)
  show "lock_refl (lock_of cfg s) (lock_of cfg (goes_to t p (put_monitor m mon' (object s)) s))"
    if "owner mon' = owner mon" "lock_count mon' = lock_count mon" "released_at p = released_at (pcs s t)"
    using that l k(4) by (intro lock_refl_unchanged) simp_all
  assume o: "owner mon = None" "owner mon' = Some t" and
    r: "released_at (pcs s t) = Some (unat (lock_count mon') + 1) \<or> released_at (pcs s t) = None \<and> lock_count mon' = 0"
  have h: "holder (lock_of cfg s) = None" using k(4) o by (simp add: lock_of_simps)
  show "lock_refl (lock_of cfg s) (lock_of cfg (goes_to t Idle (put_monitor m mon' (object s)) s))"
    using r
  proof
    assume "released_at (pcs s t) = Some (unat (lock_count mon') + 1)"
    then show ?thesis using lock_spec.resumes [OF h, of t] l o by (simp add: lock_refl_def lock_of_goes_to lock_of_simps)
  next
    assume "released_at (pcs s t) = None \<and> lock_count mon' = 0"
    then show ?thesis using lock_spec.enter [OF h, of t] l o by (intro lock_refl_holder) simp_all
  qed
qed

lemma gc_lock_holder:
  assumes "gUseReadBarrier cfg" "take_bit 28 w = take_bit 28 (lock_word obj)" "drop_bit 30 w = drop_bit 30 (lock_word obj)"
  shows "lock_holder cfg (SetLockWord w obj) = lock_holder cfg obj"
  using assms lock_view_gc_change [OF assms(2,3)]
  by (simp add: lock_holder_def view_def SetLockWord_def gc_bits_def split: lock_view.split)

lemma step_refines: "monitor_step cfg s s' \<Longrightarrow> system_inv cfg s \<Longrightarrow> lock_refl (lock_of cfg s) (lock_of cfg s')"
proof (induction rule: monitor_step.induct)
  case (call s t op)
  then show ?case by (intro lock_refl_unchanged) simp_all
next
  case (read s t op)
  then show ?case by (intro lock_refl_unchanged) simp_all
next
  case (suspend s t op k h mid got ok obj)
  then have "h \<le> kMaxHash" using inv_parts(2) [of cfg s t] by (simp add: pc_ok_def)
  then have "silent cfg (object s) obj"
    using suspended_effect [OF inv_parts(1) [OF suspend(5)] suspend(2), of h ok t k got] suspend(4) by auto
  then show ?case using suspend(1) by (intro lock_refl_unchanged) (simp_all add: silent_def)
next
  case (acquire s t m prev mon mon')
  have "view cfg (object s) = VFat m" using inv_parts(2) [OF acquire(4), of t] acquire(1) by (simp add: pc_ok_def)
  moreover have "owner mon' = owner mon" "lock_count mon' = lock_count mon"
    using acquire(3) by (auto simp: Lock_acquire_def split: if_splits)
  moreover have "released_at (Acquired m prev) = released_at (Blocked m prev)" by (cases prev) simp_all
  ultimately show ?case using put_refines(1) [OF acquire(4) _ acquire(2)] acquire(1) by metis
next
  case (acquired s t m prev mon)
  have v: "view cfg (object s) = VFat m" using inv_parts(2) [OF acquired(3), of t] acquired(1) by (simp add: pc_ok_def)
  then have "owner mon = None" "lock_count mon = 0"
    using inv_parts(2) [OF acquired(3), of t] acquired(1) fat_knows [OF acquired(3) v acquired(2)]
    by (auto simp: pc_ok_def monitor_ok_def)
  then show ?case using put_refines(2) [OF acquired(3) v acquired(2), of "after_lock t prev (Lock_finish t mon)" t] acquired(1)
    unfolding lock_of_simps by (cases prev) (simp_all add: Lock_finish_def Wait_finish_def)
next
  case (wake s t m prev mon mon')
  have v: "view cfg (object s) = VFat m" using inv_parts(2) [OF wake(4), of t] wake(1) by (simp add: pc_ok_def)
  obtain m1: "mon' = mon\<lparr>monitor_lock := Some t, owner := Some t\<rparr>" "owner mon = None"
    using wake(3) by (cases rule: wake_cases [OF wake(4,1,2)]) auto
  then show ?case using put_refines(2) [OF wake(4) v wake(2), of "Wait_finish t prev mon'" t] wake(1)
    unfolding lock_of_simps by (simp add: Wait_finish_def)
next
  case (wake_blocked s t m prev mon mon')
  have v: "view cfg (object s) = VFat m" using inv_parts(2) [OF wake_blocked(4), of t] wake_blocked(1) by (simp add: pc_ok_def)
  obtain m1: "mon' = mon\<lparr>num_waiters := num_waiters mon + 1\<rparr>"
    using wake_blocked(3) by (cases rule: wake_cases [OF wake_blocked(4,1,2)]) auto
  then show ?case using put_refines(1) [OF wake_blocked(4) v wake_blocked(2)] wake_blocked(1) by simp
next
  case (read_barrier s rb)
  then show ?case by (intro lock_refl_object gc_lock_holder SetReadBarrierState_fields)
next
  case (mark_bit b s)
  then show ?case by (intro lock_refl_object gc_lock_holder SetMarkBitState_fields fits_1)
next
  case (deflate s b obj)
  have "lock_holder cfg obj = lock_holder cfg (object s)"
    by (rule Deflate_effect [OF inv_parts(1) [OF deflate(3)]]) (use deflate(2) in simp)
  then show ?case by (rule lock_refl_object)
qed (rule act_refines)

section \<open>Simulation\<close>

text \<open>A system whose steps keep an invariant and are, seen through \<open>abs\<close>, steps of a specification or nothing.\<close>

locale simulation =
  fixes init :: "'s \<Rightarrow> bool" and step :: "'s \<Rightarrow> 's \<Rightarrow> bool" and inv :: "'s \<Rightarrow> bool"
    and spec_init :: "'a \<Rightarrow> bool" and spec_step :: "'a \<Rightarrow> 'a \<Rightarrow> bool" and abs :: "'s \<Rightarrow> 'a"
  assumes init_inv: "init s \<Longrightarrow> inv s"
    and step_inv: "inv s \<Longrightarrow> step s s' \<Longrightarrow> inv s'"
    and init_abs: "init s \<Longrightarrow> spec_init (abs s)"
    and step_abs: "inv s \<Longrightarrow> step s s' \<Longrightarrow> abs s' = abs s \<or> spec_step (abs s) (abs s')"
begin

lemma reaches_inv: "step\<^sup>*\<^sup>* s s' \<Longrightarrow> inv s \<Longrightarrow> inv s'"
  by (induction rule: rtranclp_induct) (auto intro: step_inv)

lemma reaches_abs: "step\<^sup>*\<^sup>* s s' \<Longrightarrow> inv s \<Longrightarrow> spec_step\<^sup>*\<^sup>* (abs s) (abs s')"
proof (induction rule: rtranclp_induct)
  case (step y z)
  then have "inv y" using reaches_inv by blast
  then show ?case using step step_abs [of y z] by (auto intro: rtranclp.rtrancl_into_rtrancl)
qed simp

lemma simulates: "init s \<Longrightarrow> step\<^sup>*\<^sup>* s s' \<Longrightarrow> inv s' \<and> spec_init (abs s) \<and> spec_step\<^sup>*\<^sup>* (abs s) (abs s')"
  using init_inv reaches_inv reaches_abs init_abs by blast

end

definition free_lock :: lock_state where
  "free_lock = \<lparr>holder = None, released = (\<lambda>_. None)\<rparr>"

interpretation monitor: simulation "initial_system cfg" "monitor_step cfg" "system_inv cfg"
  "\<lambda>l. l = free_lock" lock_spec "lock_of cfg" for cfg
proof unfold_locales
  fix s s'
  show "initial_system cfg s \<Longrightarrow> system_inv cfg s" by (rule initial_inv)
  show "system_inv cfg s \<Longrightarrow> monitor_step cfg s s' \<Longrightarrow> system_inv cfg s'" using step_inv by blast
  show "initial_system cfg s \<Longrightarrow> lock_of cfg s = free_lock"
    using initial_object(1) [of cfg s]
    by (simp add: lock_of_def free_lock_def lock_holder_def initial_system_def)
  show "system_inv cfg s \<Longrightarrow> monitor_step cfg s s' \<Longrightarrow> lock_of cfg s' = lock_of cfg s \<or> lock_spec (lock_of cfg s) (lock_of cfg s')"
    using step_refines by (auto simp: lock_refl_def)
qed

lemma reachable_inv: "reachable_system cfg s \<Longrightarrow> system_inv cfg s"
  using monitor.simulates by (auto simp: reachable_system_def)

end
