(* ===== verification/MonitorSafety.thy ===== *)
theory MonitorSafety
  imports MonitorSystem
begin

text \<open>
  The properties of lock words and monitors, with a run of two threads on which they are instantiated.
\<close>

section \<open>A run\<close>

definition run_config :: config where
  "run_config = \<lparr>gUseReadBarrier = True, gUseUserfaultfd = False, max_spins = 50\<rparr>"

definition run_object :: "u32 \<Rightarrow> u32 \<Rightarrow> object_state" where
  "run_object lw sd = \<lparr>lock_word = lw, monitors = (\<lambda>_. None), monitor_list = [], hash_code_seed = sd\<rparr>"

definition run_system :: "u32 \<Rightarrow> u32 \<Rightarrow> thread_pc \<Rightarrow> thread_pc \<Rightarrow> nat \<Rightarrow> u32 set \<Rightarrow> system" where
  "run_system lw sd p1 p2 n hs =
     \<lparr>object = run_object lw sd, pcs = (\<lambda>_. Idle)(1 := p1, 2 := p2), held = (\<lambda>_. 0)(1 := n), hashes = hs\<rparr>"

lemma reachable_step: "reachable_system cfg s \<Longrightarrow> monitor_step cfg s s' \<Longrightarrow> reachable_system cfg s'"
  unfolding reachable_system_def by (blast intro: rtranclp.rtrancl_into_rtrancl)

lemma run_goes_to:
  "goes_to 1 p (run_object lw' sd') (run_system lw sd p1 p2 n hs) = run_system lw' sd' p p2 n hs"
  "goes_to 2 p (run_object lw' sd') (run_system lw sd p1 p2 n hs) = run_system lw' sd' p1 p n hs"
  "sets_held 1 m (run_system lw sd p1 p2 n hs) = run_system lw sd p1 p2 m hs"
  by (auto simp: goes_to_def sets_held_def run_system_def fun_upd_twist)

lemma run_fields [simp]:
  "object (run_system lw sd p1 p2 n hs) = run_object lw sd" "pcs (run_system lw sd p1 p2 n hs) 1 = p1"
  "pcs (run_system lw sd p1 p2 n hs) 2 = p2" "held (run_system lw sd p1 p2 n hs) 1 = n"
  "held (run_system lw sd p1 p2 n hs) 2 = 0" "hashes (run_system lw sd p1 p2 n hs) = hs"
  "lock_word (run_object lw sd) = lw" "monitors (run_object lw sd) m = None"
  by (simp_all add: run_system_def run_object_def)

lemma run_threads [simp]: "valid_thread_id 1" "valid_thread_id 2" "fresh_monitor 7 (run_object lw sd)"
  by (simp_all add: valid_thread_id_def fresh_monitor_def kInvalidThreadId_def kThinLockMaxOwner_def
      kThinLockOwnerMask_def kMaxMonitorId_def kMaxHash_def kHashMask_def layout)

lemma run_calls:
  "reachable_system cfg (run_system lw sd Idle p2 n hs) \<Longrightarrow> reachable_system cfg (run_system lw sd (Runs op) p2 n hs)"
  "reachable_system cfg (run_system lw sd p1 Idle n hs) \<Longrightarrow> reachable_system cfg (run_system lw sd p1 (Runs op) n hs)"
  "reachable_system cfg (run_system lw sd (Runs op) p2 n hs) \<Longrightarrow> reachable_system cfg (run_system lw sd (Seen op lw) p2 n hs)"
  "reachable_system cfg (run_system lw sd p1 (Runs op) n hs) \<Longrightarrow> reachable_system cfg (run_system lw sd p1 (Seen op lw) n hs)"
  using monitor_step.call [of "run_system lw sd Idle p2 n hs" 1 cfg op] monitor_step.call [of "run_system lw sd p1 Idle n hs" 2 cfg op]
    monitor_step.read [of "run_system lw sd (Runs op) p2 n hs" 1 op cfg] monitor_step.read [of "run_system lw sd p1 (Runs op) n hs" 2 op cfg]
  by (auto simp: run_goes_to intro: reachable_step)

lemma run_start: "reachable_system run_config (run_system 0 42 Idle Idle 0 {})"
proof -
  have "initial_system run_config (run_system 0 42 Idle Idle 0 {})"
    unfolding initial_system_def
    by (auto simp: run_system_def run_object_def FromDefault_def fun_upd_idem intro!: exI [of _ 0])
  then show ?thesis unfolding reachable_system_def by blast
qed

lemma run_enter: "act run_config True 7 1 (OpEnter False 0) 0 (run_system 0 42 p p2 n hs) = Some (run_system 1 42 Idle p2 (n + 1) hs)"
proof -
  have "MonitorEnter run_config True 7 1 False 0 0 (run_object 0 42) = Some (Entered (run_object 1 42))"
    by (simp add: MonitorEnter_def GetLockState_def FromThinLockId_def CasLockWord_def run_config_def gc_bits_def
        run_object_def GCState_def layout kThinLockMaxOwner_def kThinLockOwnerMask_def kThinLockMaxCount_def
        kThinLockCountMask_def kStateThinOrUnlocked_def)
  then show ?thesis by (simp add: run_goes_to)
qed

lemma run_hash:
  "act run_config True 7 1 OpHash 0 (run_system 0 42 p p2 n hs) =
     Some (run_system 0x8000002a (42 * 1103515245 + 12345) Idle p2 n (insert 42 hs))"
proof -
  have "GenerateIdentityHashCode 42 = (42, 42 * 1103515245 + 12345)"
    by (subst GenerateIdentityHashCode.simps) (simp add: kHashMask_def layout)
  then have "IdentityHashCode run_config True 7 1 0 (run_object 0 42) =
      Some (Hashed 42 (run_object 0x8000002a (42 * 1103515245 + 12345)))"
    by (simp add: IdentityHashCode_def GetLockState_def FromHashCode_def CasLockWord_def run_config_def gc_bits_def
        run_object_def GCState_def layout kMaxHash_def kHashMask_def kStateHash_def LockWord_GetHashCode_def)
  then show ?thesis by (simp add: run_goes_to) (simp add: run_system_def)
qed

lemma run_entered: "reachable_system run_config (run_system 1 42 Idle Idle 1 {})"
  and run_hashed: "reachable_system run_config (run_system 0x8000002a (42 * 1103515245 + 12345) Idle Idle 0 {42})"
proof -
  have seen: "reachable_system run_config (run_system 0 42 (Seen op 0) Idle 0 {})" for op
    by (intro run_calls run_start)
  show "reachable_system run_config (run_system 1 42 Idle Idle 1 {})"
    using reachable_step [OF seen monitor_step.act [OF _ _ run_enter]] by simp
  show "reachable_system run_config (run_system 0x8000002a (42 * 1103515245 + 12345) Idle Idle 0 {42})"
    using reachable_step [OF seen monitor_step.act [OF _ _ run_hash]] by simp
qed

section \<open>Lock words\<close>

text \<open>C27.  Every constructor of a lock word is inverted by the accessors: the state, the payload and the two GC bits
  of a thin, hash, fat or empty lock word are those it was made from, in both configurations of the GC bits, and
  an 8-byte aligned forwarding address below 4 GiB is read back unchanged.\<close>

theorem lock_word_roundtrip:
  assumes "gc \<le> 3" "g \<or> gc = 0"
  shows "(t \<noteq> kInvalidThreadId \<and> t \<le> kThinLockMaxOwner \<and> c \<le> kThinLockMaxCount \<longrightarrow>
      (\<exists>w. FromThinLockId t c gc = Some w \<and> GetLockState g w = kThinLocked \<and> ThinLockOwner w = t \<and>
        ThinLockCount w = c \<and> GCState w = gc)) \<and>
    (h \<le> kMaxHash \<longrightarrow> (\<exists>w. FromHashCode h gc = Some w \<and> GetLockState g w = kHashCode \<and>
        LockWord_GetHashCode w = h \<and> GCState w = gc)) \<and>
    (m \<le> kMaxMonitorId \<longrightarrow> GetLockState g (FromMonitor m gc) = kFatLocked \<and>
        FatLockMonitor (FromMonitor m gc) = m \<and> GCState (FromMonitor m gc) = gc) \<and>
    GetLockState g (FromDefault gc) = kUnlocked \<and> GCState (FromDefault gc) = gc \<and>
    (unat target < 2 ^ 32 \<and> target AND 7 = 0 \<longrightarrow>
        GetLockState g (FromForwardingAddress target) = kForwardingAddress \<and>
        ForwardingAddress (FromForwardingAddress target) = target)"
proof (intro conjI impI)
  have gc: "fits 2 gc" using assms(1) by (simp add: fits_unat word_le_nat_alt)
  show "\<exists>w. FromThinLockId t c gc = Some w \<and> GetLockState g w = kThinLocked \<and> ThinLockOwner w = t \<and>
        ThinLockCount w = c \<and> GCState w = gc"
    if t: "t \<noteq> kInvalidThreadId \<and> t \<le> kThinLockMaxOwner \<and> c \<le> kThinLockMaxCount"
  proof -
    obtain w where w: "FromThinLockId t c gc = Some w" using t by (simp add: FromThinLockId_def)
    have v: "lock_view g w = VThin t c" "GCState w = gc"
      using FromThinLockId_view [OF w gc] t by (simp_all add: kInvalidThreadId_def)
    then show ?thesis using w lock_view_state(2) [OF v(1)] lock_view_accessors(1) [OF v(1)] by blast
  qed
  show "\<exists>w. FromHashCode h gc = Some w \<and> GetLockState g w = kHashCode \<and> LockWord_GetHashCode w = h \<and> GCState w = gc"
    if h: "h \<le> kMaxHash"
  proof -
    obtain w where w: "FromHashCode h gc = Some w" using h by (simp add: FromHashCode_def)
    then show ?thesis using FromHashCode_view [OF w gc] lock_view_state(4) lock_view_accessors(3) by blast
  qed
  show "GetLockState g (FromMonitor m gc) = kFatLocked" "FatLockMonitor (FromMonitor m gc) = m"
    "GCState (FromMonitor m gc) = gc" if "m \<le> kMaxMonitorId"
    using that FromMonitor_view [OF _ gc, of m] lock_view_state(3) [of g] lock_view_accessors(2) [of g]
    by (auto simp: fits_28_le kMaxMonitorId_def)
  show "GetLockState g (FromDefault gc) = kUnlocked" "GCState (FromDefault gc) = gc"
    using FromDefault_view [OF gc assms(2)] lock_view_state(1) by blast+
  have "take_bit 3 target = 0" if "unat target < 2 ^ 32 \<and> target AND 7 = 0"
    using that by (simp add: take_bit_eq_mask mask_eq_exp_minus_1)
  then show "GetLockState g (FromForwardingAddress target) = kForwardingAddress"
    "ForwardingAddress (FromForwardingAddress target) = target" if "unat target < 2 ^ 32 \<and> target AND 7 = 0"
    using that ForwardingAddress_roundtrip [of target] by (simp_all add: fits_unat)
qed

theorem lock_word_roundtrip_witness:
  "(\<exists>w. FromThinLockId 0xffff 0xfff 1 = Some w \<and> ThinLockOwner w = 0xffff \<and> ThinLockCount w = 0xfff \<and> GCState w = 1)
   \<and> ForwardingAddress (FromForwardingAddress 0xfffffff8) = 0xfffffff8"
  using lock_word_roundtrip [where gc = 1 and g = True and t = "0xffff" and c = "0xfff" and target = "0xfffffff8"]
  by (auto simp: kInvalidThreadId_def kThinLockMaxOwner_def kThinLockOwnerMask_def kThinLockMaxCount_def
      kThinLockCountMask_def layout)

text \<open>The collector's updates of a lock word touch one bit each: setting the read barrier state or the mark bit
  leaves the state, the payload and the other GC bit as they were, and is read back.\<close>

theorem gc_bits_are_independent:
  assumes "b \<le> 1"
  shows "lock_view True (SetReadBarrierState v b) = lock_view True v \<and> ReadBarrierState (SetReadBarrierState v b) = b \<and>
    MarkBitState (SetReadBarrierState v b) = MarkBitState v \<and>
    lock_view True (SetMarkBitState v b) = lock_view True v \<and> MarkBitState (SetMarkBitState v b) = b \<and>
    ReadBarrierState (SetMarkBitState v b) = ReadBarrierState v \<and>
    LockWord_Equal False (SetMarkBitState (SetReadBarrierState v b) b) v"
proof -
  have b: "fits 1 b" using assms by (rule fits_1)
  note r = SetReadBarrierState_fields [of _ b] and m = SetMarkBitState_fields [OF b]
  have "LockWord_Equal False w v" if "take_bit 28 w = take_bit 28 v" "drop_bit 30 w = drop_bit 30 v" for w
    using that lock_word_eq_iff [of "GetValueWithoutGCState w" "GetValueWithoutGCState v"]
    by (simp add: LockWord_Equal_def GetValueWithoutGCState_fields)
  then show ?thesis
    using lock_view_gc_change [OF r(1,2)] lock_view_gc_change [OF m(1,2)] r m fits_take_bit [OF b] by simp
qed

theorem gc_bits_are_independent_witness:
  "ReadBarrierState (SetReadBarrierState 0x40000005 1) = 1 \<and>
   lock_view True (SetReadBarrierState 0x40000005 1) = lock_view True 0x40000005"
  using gc_bits_are_independent [of 1 "0x40000005"] by simp

text \<open>Generating an identity hash code ends, after at most two updates of the seed, and gives a non-zero
  value that fits the 28 hash bits of a lock word.\<close>

theorem GenerateIdentityHashCode_fits:
  "fst (GenerateIdentityHashCode seed) \<noteq> 0 \<and> fst (GenerateIdentityHashCode seed) \<le> kMaxHash \<and>
   (\<exists>w. FromHashCode (fst (GenerateIdentityHashCode seed)) 0 = Some w) \<and>
   (snd (GenerateIdentityHashCode seed) = seed * 1103515245 + 12345 \<or>
    snd (GenerateIdentityHashCode seed) = (seed * 1103515245 + 12345) * 1103515245 + 12345)"
proof -
  have "snd (GenerateIdentityHashCode seed) =
      (if seed AND kHashMask = 0 then (seed * 1103515245 + 12345) * 1103515245 + 12345 else seed * 1103515245 + 12345)"
    using GenerateIdentityHashCode.simps [of seed] GenerateIdentityHashCode.simps [of "seed * 1103515245 + 12345"]
    by (auto simp: Let_def hash_seed_step split: if_splits)
  then show ?thesis using GenerateIdentityHashCode_range [of seed] by (simp add: FromHashCode_def)
qed

section \<open>Monitors\<close>

lemma reachable_held: "reachable_system cfg s \<Longrightarrow> held s t = holds_of cfg (object s) t"
  using inv_parts(3) [OF reachable_inv] .

lemma reachable_seen:
  assumes "reachable_system cfg s" "pcs s t = Seen op lw"
  shows "object_ok cfg (object s)" "seen_ok cfg t lw (object s)" "t \<noteq> kInvalidThreadId" "t \<le> kThinLockMaxOwner"
  using inv_parts(1) [OF reachable_inv [OF assms(1)]] inv_parts(2) [OF reachable_inv [OF assms(1)], of t] assms(2)
  by (simp_all add: pc_ok_def valid_thread_id_def)

lemma no_abort_effects:
  "\<not> exit_effect cfg t obj None" "\<not> hash_effect cfg t obj None" "\<not> wait_effect cfg t obj None"
  by (simp_all add: exit_effect_def hash_effect_def wait_effect_def)

lemma fresh_fits: "fresh_monitor mid obj \<Longrightarrow> monitors obj mid = None \<and> fits 28 mid"
  by (simp add: fresh_monitor_def fits_28_le kMaxMonitorId_def)

text \<open>C2.  Mutual exclusion with exact counts.  In every state that any interleaving of the monitor operations of any
  number of threads, of inflation, deflation and of the collector can reach, a thread whose entries exceed its exits
  is the owner the lock word or the monitor records, the recorded recursion count is its number of entries minus
  its exits, and no other thread holds the lock.\<close>

theorem monitor_mutual_exclusion:
  assumes "reachable_system cfg s" "held s t > 0"
  shows "GetLockOwnerThreadId cfg (object s) = Some t \<and> lock_holder cfg (object s) = Some (t, held s t) \<and>
    (\<forall>u. u \<noteq> t \<longrightarrow> held s u = 0)"
proof -
  note h = reachable_held [OF assms(1)]
  obtain n where l: "lock_holder cfg (object s) = Some (t, n)"
    using assms(2) h [of t] by (auto simp: hold_count_def split: option.splits if_splits)
  then have "GetLockOwnerThreadId cfg (object s) = Some t"
    by (auto simp: lock_holder_def view_def lock_view_def GetLockOwnerThreadId_def GetOwnerThreadId_def Let_def
        split: LockState.splits option.splits)
  then show ?thesis using l h by (simp add: hold_count_def)
qed

theorem monitor_mutual_exclusion_witness:
  "GetLockOwnerThreadId run_config (object (run_system 1 42 Idle Idle 1 {})) = Some 1 \<and>
   held (run_system 1 42 Idle Idle 1 {}) 2 = 0"
  using monitor_mutual_exclusion [OF run_entered, of 1] by simp



text \<open>C6.  No abort: in a reachable state a thread that has read the lock word, however stale the value has become, acts
  without hitting a CHECK or a fatal message, unless it enters the monitor for the 2^32-th time; in particular
  inflation never finds an unlocked lock word.  Neither the inflation of a suspended owner's lock, nor a
  deflation, nor the end of a wait aborts.\<close>

theorem monitor_no_abort:
  assumes "reachable_system cfg s" "fresh_monitor mid (object s)" "held s t < 2 ^ 32"
  shows "(\<forall>op lw. pcs s t = Seen op lw \<longrightarrow> (\<exists>s'. act cfg weak mid t op lw s = Some s')) \<and>
    (\<forall>op k h. pcs s t = Suspending op k h \<longrightarrow>
      (\<exists>obj. InflateThinLocked_suspended cfg weak mid t k got h (object s) = Some obj)) \<and>
    (\<forall>m prev mon. pcs s t = Waiting m prev \<and> monitors (object s) m = Some mon \<longrightarrow> Lock_enter t mon \<noteq> None) \<and>
    Deflate cfg (object s) \<noteq> None"
proof (intro conjI allI impI)
  note inv = reachable_inv [OF assms(1)]
  fix op lw
  assume pc: "pcs s t = Seen op lw"
  note sn = reachable_seen [OF assms(1) pc] and f = fresh_fits [OF assms(2), THEN conjunct1] fresh_fits [OF assms(2), THEN conjunct2]
  show "\<exists>s'. act cfg weak mid t op lw s = Some s'"
  proof (cases op)
    case (OpEnter trylock c)
    have "MonitorEnter cfg weak mid t trylock c lw (object s) \<noteq> None"
      using MonitorEnter_effect [OF sn f, of weak trylock c] assms(3) reachable_held [OF assms(1), of t]
      by (cases "MonitorEnter cfg weak mid t trylock c lw (object s)") (simp_all add: enter_effect_def)
    then show ?thesis using OpEnter by (auto split: option.splits enter_outcome.splits)
  next
    case OpExit
    have "MonitorExit cfg weak t (\<lambda>u. is_waiting (pcs s u)) lw (object s) \<noteq> None"
      using MonitorExit_effect [OF sn] no_abort_effects(1) by metis
    then show ?thesis using OpExit by (auto split: option.splits exit_outcome.splits bool.splits)
  next
    case OpHash
    have "IdentityHashCode cfg weak mid t lw (object s) \<noteq> None"
      using IdentityHashCode_effect [OF sn(1,2) f] no_abort_effects(2) by metis
    then show ?thesis using OpHash by (auto split: option.splits hash_outcome.splits)
  next
    case (OpWait ms ns)
    have "Object_Wait cfg weak mid t (\<lambda>u. is_waiting (pcs s u)) ms ns lw (object s) \<noteq> None"
      using Object_Wait_effect [OF sn(1,2) f] no_abort_effects(3) by metis
    then show ?thesis using OpWait by (auto split: option.splits object_wait_outcome.splits)
  next
    case (OpNotify n)
    then show ?thesis using DoNotify_effect [OF sn(1,2), of n] by auto
  qed
next
  fix op k h
  assume "pcs s t = Suspending op k h"
  then have "h \<le> kMaxHash" using inv_parts(2) [OF reachable_inv [OF assms(1)], of t] by (simp add: pc_ok_def)
  then show "\<exists>obj. InflateThinLocked_suspended cfg weak mid t k got h (object s) = Some obj"
    using suspended_effect [OF inv_parts(1) [OF reachable_inv [OF assms(1)]] assms(2)] by blast
next
  fix m prev mon
  assume w: "pcs s t = Waiting m prev \<and> monitors (object s) m = Some mon"
  show "Lock_enter t mon \<noteq> None"
    by (rule wake_cases [OF reachable_inv [OF assms(1)] w [THEN conjunct1] w [THEN conjunct2]]) simp_all
next
  show "Deflate cfg (object s) \<noteq> None"
    by (rule Deflate_effect [OF inv_parts(1) [OF reachable_inv [OF assms(1)]]]) simp
qed

theorem monitor_no_abort_witness:
  "\<exists>s'. act run_config False 7 2 OpExit 1 (run_system 1 42 Idle (Seen OpExit 1) 1 {}) = Some s'"
proof -
  have "reachable_system run_config (run_system 1 42 Idle (Seen OpExit 1) 1 {})" by (intro run_calls run_entered)
  from monitor_no_abort [OF this, of 7 2 False] show ?thesis by simp
qed





end
