(* ===== verification/HashSet.thy ===== *)
theory HashSet
  imports Prelude "HOL-Library.Multiset"
begin

text \<open>
  The open-addressing hash set (\<^verbatim>\<open>libartbase/base/hash_set.h\<close>): linear probing, erasure by shifting back, growth
  by reinsertion.  The function objects of the template are a parameter \<open>F\<close>; the conversions of \<open>double\<close> results
  to \<open>size_t\<close> are a parameter \<open>fp\<close>, so that nothing depends on how they round.  A loop of the source that may not
  end is a partial function.  \<open>size_t\<close> values are bounded by the memory and are natural numbers; the number of
  buckets is the length of \<open>data\<close>.
\<close>

section \<open>State\<close>

record 'a set_fns =
  hashfn :: "'a \<Rightarrow> nat"
  pred :: "'a \<Rightarrow> 'a \<Rightarrow> bool"
  IsEmpty :: "'a \<Rightarrow> bool"
  MakeEmpty :: 'a

text \<open>\<open>fp_times n f\<close> is \<open>static_cast<size_t>(n * f)\<close>, \<open>fp_over n f\<close> is \<open>static_cast<size_t>(n / f)\<close>, \<open>fp_over_mean n f g\<close> is
  \<open>static_cast<size_t>(n / ((f + g) * 0.5))\<close> and \<open>fp_load_exceeds n m f\<close> is \<open>double(n) / double(m) > f\<close>.\<close>

record 'd fp_ops =
  fp_times :: "nat \<Rightarrow> 'd \<Rightarrow> nat"
  fp_over :: "nat \<Rightarrow> 'd \<Rightarrow> nat"
  fp_over_mean :: "nat \<Rightarrow> 'd \<Rightarrow> 'd \<Rightarrow> nat"
  fp_load_exceeds :: "nat \<Rightarrow> nat \<Rightarrow> 'd \<Rightarrow> bool"

record ('a, 'd) hash_set =
  num_elements :: nat
  elements_until_expand :: nat
  owns_data :: bool
  data :: "'a list"
  min_load_factor :: 'd
  max_load_factor :: 'd

definition kMinBuckets :: nat where "kMinBuckets = 1000"

definition NumBuckets :: "('a, 'd) hash_set \<Rightarrow> nat" where
  "NumBuckets hs = length (data hs)"

definition HashSet_size :: "('a, 'd) hash_set \<Rightarrow> nat" where
  "HashSet_size hs = num_elements hs"

definition HashSet_empty :: "('a, 'd) hash_set \<Rightarrow> bool" where
  "HashSet_empty hs \<longleftrightarrow> HashSet_size hs = 0"

definition HashSet_new :: "'d \<Rightarrow> 'd \<Rightarrow> ('a, 'd) hash_set" where
  "HashSet_new min_load max_load =
     \<lparr>num_elements = 0, elements_until_expand = 0, owns_data = False, data = [],
      min_load_factor = min_load, max_load_factor = max_load\<rparr>"

definition HashSet_buffer :: "'a set_fns \<Rightarrow> 'd fp_ops \<Rightarrow> 'd \<Rightarrow> 'd \<Rightarrow> nat \<Rightarrow> ('a, 'd) hash_set" where
  "HashSet_buffer F fp min_load max_load buffer_size =
     \<lparr>num_elements = 0, elements_until_expand = fp_times fp buffer_size max_load, owns_data = False,
      data = replicate buffer_size (MakeEmpty F), min_load_factor = min_load, max_load_factor = max_load\<rparr>"

definition HashSet_clear :: "('a, 'd) hash_set \<Rightarrow> ('a, 'd) hash_set" where
  "HashSet_clear hs = hs\<lparr>owns_data := False, data := [], num_elements := 0, elements_until_expand := 0\<rparr>"

text \<open>The copying and the moving constructor and the exchange; moving leaves the source empty, and the assignments
  go through a temporary whose old contents are destroyed.\<close>

definition HashSet_copy :: "('a, 'd) hash_set \<Rightarrow> ('a, 'd) hash_set" where
  "HashSet_copy other =
     \<lparr>num_elements = num_elements other, elements_until_expand = elements_until_expand other, owns_data = True,
      data = data other, min_load_factor = min_load_factor other, max_load_factor = max_load_factor other\<rparr>"

definition HashSet_move :: "('a, 'd) hash_set \<Rightarrow> ('a, 'd) hash_set \<times> ('a, 'd) hash_set" where
  "HashSet_move other =
     (other, other\<lparr>num_elements := 0, elements_until_expand := 0, owns_data := False, data := []\<rparr>)"

definition HashSet_swap :: "('a, 'd) hash_set \<Rightarrow> ('a, 'd) hash_set \<Rightarrow> ('a, 'd) hash_set \<times> ('a, 'd) hash_set" where
  "HashSet_swap this other =
     (this\<lparr>data := data other, num_elements := num_elements other,
           elements_until_expand := elements_until_expand other, min_load_factor := min_load_factor other,
           max_load_factor := max_load_factor other, owns_data := owns_data other\<rparr>,
      other\<lparr>data := data this, num_elements := num_elements this,
            elements_until_expand := elements_until_expand this, min_load_factor := min_load_factor this,
            max_load_factor := max_load_factor this, owns_data := owns_data this\<rparr>)"

definition HashSet_assign :: "('a, 'd) hash_set \<Rightarrow> ('a, 'd) hash_set \<Rightarrow> ('a, 'd) hash_set" where
  "HashSet_assign this other = snd (HashSet_swap (HashSet_copy other) this)"

definition HashSet_move_assign :: "('a, 'd) hash_set \<Rightarrow> ('a, 'd) hash_set \<Rightarrow> ('a, 'd) hash_set \<times> ('a, 'd) hash_set" where
  "HashSet_move_assign this other =
     (let (temp, other') = HashSet_move other in (snd (HashSet_swap temp this), other'))"

section \<open>Probing\<close>

definition IndexForHash :: "nat \<Rightarrow> nat \<Rightarrow> nat" where
  "IndexForHash num_buckets hash = (if num_buckets = 0 then 0 else hash mod num_buckets)"

definition NextIndex :: "nat \<Rightarrow> nat \<Rightarrow> nat" where
  "NextIndex num_buckets index = (if index + 1 \<ge> num_buckets then 0 else index + 1)"

text \<open>The loop of \<open>FindIndexImpl\<close>: \<open>match\<close> is the comparison with the key, the flag of the result tells whether a
  matching slot or an empty one was found.\<close>

partial_function (option) FindIndexImpl ::
  "('a \<Rightarrow> bool) \<Rightarrow> ('a \<Rightarrow> bool) \<Rightarrow> 'a list \<Rightarrow> nat \<Rightarrow> (bool \<times> nat) option" where
  "FindIndexImpl is_empty match d index =
     (if is_empty (d ! index) then Some (False, index)
      else if match (d ! index) then Some (True, index)
      else FindIndexImpl is_empty match d (NextIndex (length d) index))"

definition FindIndex :: "'a set_fns \<Rightarrow> ('a \<Rightarrow> bool) \<Rightarrow> nat \<Rightarrow> ('a, 'd) hash_set \<Rightarrow> nat option" where
  "FindIndex F match hash hs =
     (if NumBuckets hs = 0 then Some 0
      else case FindIndexImpl (IsEmpty F) match (data hs) (IndexForHash (NumBuckets hs) hash) of
        None \<Rightarrow> None
      | Some (found, index) \<Rightarrow> Some (if found then index else NumBuckets hs))"

definition HashSet_find :: "'a set_fns \<Rightarrow> 'a \<Rightarrow> ('a, 'd) hash_set \<Rightarrow> nat option" where
  "HashSet_find F key hs = FindIndex F (\<lambda>slot. pred F slot key) (hashfn F key) hs"

partial_function (option) FirstAvailableSlot :: "('a \<Rightarrow> bool) \<Rightarrow> 'a list \<Rightarrow> nat \<Rightarrow> nat option" where
  "FirstAvailableSlot is_empty d index =
     (if is_empty (d ! index) then Some index
      else FirstAvailableSlot is_empty d (NextIndex (length d) index))"

function NextNonEmptySlot :: "('a \<Rightarrow> bool) \<Rightarrow> 'a list \<Rightarrow> nat \<Rightarrow> nat" where
  "NextNonEmptySlot is_empty d index =
     (let index' = index + 1
      in if index' < length d \<and> is_empty (d ! index') then NextNonEmptySlot is_empty d index' else index')"
  by auto
termination
  by (relation "measure (\<lambda>(_, d, index). length d - index)") auto

declare NextNonEmptySlot.simps [simp del]

section \<open>Growing\<close>

fun reinsert :: "'a set_fns \<Rightarrow> 'a list \<Rightarrow> 'a list \<Rightarrow> 'a list option" where
  "reinsert F [] new_data = Some new_data"
| "reinsert F (element # rest) new_data =
     (if IsEmpty F element then reinsert F rest new_data
      else case FirstAvailableSlot (IsEmpty F) new_data (IndexForHash (length new_data) (hashfn F element)) of
        None \<Rightarrow> None
      | Some slot \<Rightarrow> reinsert F rest (new_data[slot := element]))"

definition Resize :: "'a set_fns \<Rightarrow> 'd fp_ops \<Rightarrow> nat \<Rightarrow> ('a, 'd) hash_set \<Rightarrow> ('a, 'd) hash_set option" where
  "Resize F fp new_size hs =
     (let n = (if new_size < kMinBuckets then kMinBuckets else new_size)
      in case reinsert F (data hs) (replicate n (MakeEmpty F)) of
           None \<Rightarrow> None
         | Some d \<Rightarrow>
             Some (hs\<lparr>data := d, owns_data := True,
                      elements_until_expand := fp_times fp n (max_load_factor hs)\<rparr>))"

definition Expand :: "'a set_fns \<Rightarrow> 'd fp_ops \<Rightarrow> ('a, 'd) hash_set \<Rightarrow> ('a, 'd) hash_set option" where
  "Expand F fp hs = Resize F fp (fp_over fp (HashSet_size hs) (min_load_factor hs)) hs"

definition maybe_expand :: "'a set_fns \<Rightarrow> 'd fp_ops \<Rightarrow> ('a, 'd) hash_set \<Rightarrow> ('a, 'd) hash_set option" where
  "maybe_expand F fp hs = (if num_elements hs \<ge> elements_until_expand hs then Expand F fp hs else Some hs)"

text \<open>The result of an insertion is the index of the element, whether it was inserted, and the set.\<close>

definition InsertWithHash ::
  "'a set_fns \<Rightarrow> 'd fp_ops \<Rightarrow> 'a \<Rightarrow> nat \<Rightarrow> ('a, 'd) hash_set \<Rightarrow> (nat \<times> bool \<times> ('a, 'd) hash_set) option" where
  "InsertWithHash F fp element hash hs =
     (case maybe_expand F fp hs of
        None \<Rightarrow> None
      | Some hs1 \<Rightarrow>
          (case FindIndexImpl (IsEmpty F) (\<lambda>slot. pred F slot element) (data hs1) (IndexForHash (NumBuckets hs1) hash) of
             None \<Rightarrow> None
           | Some (True, index) \<Rightarrow> Some (index, False, hs1)
           | Some (False, index) \<Rightarrow>
               Some (index, True, hs1\<lparr>data := (data hs1)[index := element], num_elements := num_elements hs1 + 1\<rparr>)))"

definition HashSet_insert ::
  "'a set_fns \<Rightarrow> 'd fp_ops \<Rightarrow> 'a \<Rightarrow> ('a, 'd) hash_set \<Rightarrow> (nat \<times> bool \<times> ('a, 'd) hash_set) option" where
  "HashSet_insert F fp element hs = InsertWithHash F fp element (hashfn F element) hs"

definition PutWithHash ::
  "'a set_fns \<Rightarrow> 'd fp_ops \<Rightarrow> 'a \<Rightarrow> nat \<Rightarrow> ('a, 'd) hash_set \<Rightarrow> ('a, 'd) hash_set option" where
  "PutWithHash F fp element hash hs =
     (case maybe_expand F fp hs of
        None \<Rightarrow> None
      | Some hs1 \<Rightarrow>
          (case FindIndexImpl (IsEmpty F) (\<lambda>_. False) (data hs1) (IndexForHash (NumBuckets hs1) hash) of
             None \<Rightarrow> None
           | Some (_, index) \<Rightarrow>
               Some (hs1\<lparr>data := (data hs1)[index := element], num_elements := num_elements hs1 + 1\<rparr>)))"

definition ShrinkToMaximumLoad :: "'a set_fns \<Rightarrow> 'd fp_ops \<Rightarrow> ('a, 'd) hash_set \<Rightarrow> ('a, 'd) hash_set option" where
  "ShrinkToMaximumLoad F fp hs = Resize F fp (fp_over fp (HashSet_size hs) (max_load_factor hs)) hs"

partial_function (option) reserve_buckets :: "'d fp_ops \<Rightarrow> 'd \<Rightarrow> nat \<Rightarrow> nat \<Rightarrow> nat option" where
  "reserve_buckets fp max_load n num_buckets =
     (if fp_times fp num_buckets max_load \<le> n + 1 then reserve_buckets fp max_load n (num_buckets + 1)
      else Some num_buckets)"

definition HashSet_reserve :: "'a set_fns \<Rightarrow> 'd fp_ops \<Rightarrow> nat \<Rightarrow> ('a, 'd) hash_set \<Rightarrow> ('a, 'd) hash_set option" where
  "HashSet_reserve F fp n hs =
     (case reserve_buckets fp (max_load_factor hs) n (fp_over fp n (max_load_factor hs)) of
        None \<Rightarrow> None
      | Some num_buckets \<Rightarrow> if num_buckets > NumBuckets hs then Resize F fp num_buckets hs else Some hs)"

definition SetLoadFactor ::
  "'a set_fns \<Rightarrow> 'd fp_ops \<Rightarrow> 'd \<Rightarrow> 'd \<Rightarrow> ('a, 'd) hash_set \<Rightarrow> ('a, 'd) hash_set option" where
  "SetLoadFactor F fp min_load max_load hs =
     (let hs1 = hs\<lparr>min_load_factor := min_load, max_load_factor := max_load,
                   elements_until_expand := fp_times fp (NumBuckets hs) max_load\<rparr>
      in if fp_load_exceeds fp (HashSet_size hs1) (NumBuckets hs1) max_load
         then Resize F fp (fp_over_mean fp (HashSet_size hs1) min_load max_load) hs1 else Some hs1)"

section \<open>Erasing\<close>

partial_function (option) erase_loop :: "'a set_fns \<Rightarrow> 'a list \<Rightarrow> nat \<Rightarrow> nat \<Rightarrow> bool \<Rightarrow> ('a list \<times> bool) option" where
  "erase_loop F d empty_index index filled =
     (let next_index = NextIndex (length d) index;
          next_element = d ! next_index
      in if IsEmpty F next_element then Some (d[empty_index := MakeEmpty F], filled)
         else let next_ideal_index = IndexForHash (length d) (hashfn F next_element);
                  unwrapped_next_index = (if next_index < empty_index then next_index + length d else next_index);
                  unwrapped_next_ideal_index =
                    (if next_ideal_index < empty_index then next_ideal_index + length d else next_ideal_index)
              in if unwrapped_next_ideal_index \<le> empty_index \<or> unwrapped_next_ideal_index > unwrapped_next_index
                 then erase_loop F (d[empty_index := next_element]) next_index next_index True
                 else erase_loop F d empty_index next_index filled)"

text \<open>The result of an erasure is the index of the returned iterator and the set.\<close>

definition HashSet_erase :: "'a set_fns \<Rightarrow> nat \<Rightarrow> ('a, 'd) hash_set \<Rightarrow> (nat \<times> ('a, 'd) hash_set) option" where
  "HashSet_erase F index hs =
     (case erase_loop F (data hs) index index False of
        None \<Rightarrow> None
      | Some (d, filled) \<Rightarrow>
          Some (if filled then index else NextNonEmptySlot (IsEmpty F) d index,
                hs\<lparr>data := d, num_elements := num_elements hs - 1\<rparr>))"

section \<open>Iteration and checking\<close>

definition begin_index :: "'a set_fns \<Rightarrow> ('a, 'd) hash_set \<Rightarrow> nat" where
  "begin_index F hs =
     (if NumBuckets hs \<noteq> 0 \<and> IsEmpty F (data hs ! 0) then NextNonEmptySlot (IsEmpty F) (data hs) 0 else 0)"

definition end_index :: "('a, 'd) hash_set \<Rightarrow> nat" where
  "end_index hs = NumBuckets hs"

definition TotalProbeDistance :: "'a set_fns \<Rightarrow> ('a, 'd) hash_set \<Rightarrow> nat" where
  "TotalProbeDistance F hs =
     (\<Sum>i \<leftarrow> [0..<NumBuckets hs].
        if IsEmpty F (data hs ! i) then 0
        else let ideal_location = IndexForHash (NumBuckets hs) (hashfn F (data hs ! i))
             in if ideal_location > i then i + NumBuckets hs - ideal_location else i - ideal_location)"

text \<open>The number of errors; \<open>None\<close> where the search for a slot does not end.\<close>

fun Verify_loop :: "'a set_fns \<Rightarrow> 'a list \<Rightarrow> nat list \<Rightarrow> nat option" where
  "Verify_loop F d [] = Some 0"
| "Verify_loop F d (i # rest) =
     (if IsEmpty F (d ! i) then Verify_loop F d rest
      else case FirstAvailableSlot (IsEmpty F) (d[i := MakeEmpty F]) (IndexForHash (length d) (hashfn F (d ! i))) of
        None \<Rightarrow> None
      | Some first_slot \<Rightarrow>
          map_option (\<lambda>errors. if i \<noteq> first_slot then errors + 1 else errors) (Verify_loop F d rest))"

definition Verify :: "'a set_fns \<Rightarrow> ('a, 'd) hash_set \<Rightarrow> nat option" where
  "Verify F hs = Verify_loop F (data hs) [0..<NumBuckets hs]"

end
