(* ===== verification/HashSetProbe.thy ===== *)
theory HashSetProbe
  imports HashSet
begin

text \<open>
  The loops of the hash set: cyclic distances between buckets, the probe invariant, termination and result of
  the searches, and the correctness of erasure by shifting back.
\<close>

section \<open>Cyclic distances\<close>

definition cdist :: "nat \<Rightarrow> nat \<Rightarrow> nat \<Rightarrow> nat" where
  "cdist n a b = (if a \<le> b then b - a else b + n - a)"

text \<open>\<open>q\<close> is met on the way from \<open>a\<close> to \<open>b\<close>, \<open>b\<close> excluded.\<close>

definition on_path :: "nat \<Rightarrow> nat \<Rightarrow> nat \<Rightarrow> nat \<Rightarrow> bool" where
  "on_path n a q b \<longleftrightarrow> q < n \<and> cdist n a q < cdist n a b"

lemma cdist_less: "a < n \<Longrightarrow> b < n \<Longrightarrow> cdist n a b < n"
  by (auto simp: cdist_def)

lemma cdist_0_iff: "a < n \<Longrightarrow> b < n \<Longrightarrow> cdist n a b = 0 \<longleftrightarrow> a = b"
  by (auto simp: cdist_def)

lemma cdist_inj: "a < n \<Longrightarrow> b < n \<Longrightarrow> c < n \<Longrightarrow> cdist n a b = cdist n a c \<longleftrightarrow> b = c"
  by (auto simp: cdist_def split: if_splits)

text \<open>All distances in terms of the distances from one base.\<close>

lemma cdist_base:
  "s < n \<Longrightarrow> a < n \<Longrightarrow> b < n \<Longrightarrow>
     cdist n a b = (if cdist n s a \<le> cdist n s b then cdist n s b - cdist n s a else n + cdist n s b - cdist n s a)"
  by (auto simp: cdist_def split: if_splits)

lemma NextIndex_less: "0 < n \<Longrightarrow> NextIndex n i < n"
  by (simp add: NextIndex_def)

lemma cdist_NextIndex:
  "a < n \<Longrightarrow> i < n \<Longrightarrow> cdist n a (NextIndex n i) = (if cdist n a i + 1 = n then 0 else cdist n a i + 1)"
  by (auto simp: cdist_def NextIndex_def split: if_splits)

lemma cdist_from_NextIndex:
  "i < n \<Longrightarrow> b < n \<Longrightarrow> i \<noteq> b \<Longrightarrow> cdist n (NextIndex n i) b + 1 = cdist n i b"
  by (auto simp: cdist_def NextIndex_def split: if_splits)

lemma on_path_NextIndex:
  "i < n \<Longrightarrow> b < n \<Longrightarrow> i \<noteq> b \<Longrightarrow> on_path n i q b \<longleftrightarrow> q = i \<or> on_path n (NextIndex n i) q b"
  using cdist_from_NextIndex [of i n b] cdist_from_NextIndex [of i n q]
  by (auto simp: on_path_def cdist_def NextIndex_def split: if_splits)

lemma IndexForHash_less: "0 < n \<Longrightarrow> IndexForHash n h < n"
  by (simp add: IndexForHash_def)

section \<open>Searching\<close>

lemma first_empty:
  assumes "g < length d" "is_empty (d ! g)" "i < length d"
  obtains f where "f < length d" "is_empty (d ! f)" "\<And>q. on_path (length d) i q f \<Longrightarrow> \<not> is_empty (d ! q)"
proof -
  let ?P = "\<lambda>g. g < length d \<and> is_empty (d ! g)"
  obtain f where f: "?P f" "\<And>g. ?P g \<Longrightarrow> cdist (length d) i f \<le> cdist (length d) i g"
    using ex_has_least_nat [of ?P g "cdist (length d) i"] assms by blast
  then show thesis using that [of f] by (auto simp: on_path_def not_le [symmetric])
qed

lemma FindIndexImpl_result:
  assumes "i < length d" "f < length d" "is_empty (d ! f)" "\<And>q. on_path (length d) i q f \<Longrightarrow> \<not> is_empty (d ! q)"
  shows "(\<exists>q. on_path (length d) i q f \<and> match (d ! q) \<and> FindIndexImpl is_empty match d i = Some (True, q)) \<or>
    (\<forall>q. on_path (length d) i q f \<longrightarrow> \<not> match (d ! q)) \<and> FindIndexImpl is_empty match d i = Some (False, f)"
  using assms(1,4)
proof (induction "cdist (length d) i f" arbitrary: i)
  case 0
  then have "i = f" using assms(2) cdist_0_iff by metis
  then show ?case using assms(2,3) by (simp add: FindIndexImpl.simps on_path_def cdist_def)
next
  case (Suc k)
  have nf: "i \<noteq> f" using Suc(2) assms(2) by (auto simp: cdist_def)
  note on = on_path_NextIndex [OF Suc(3) assms(2) nf]
  let ?i = "NextIndex (length d) i"
  have i: "?i < length d" "k = cdist (length d) ?i f"
    using Suc(2) cdist_from_NextIndex [OF Suc(3) assms(2) nf] NextIndex_less [of "length d" i] Suc(3) by linarith+
  have ne: "\<not> is_empty (d ! i)" using Suc(4) on by blast
  show ?case
  proof (cases "match (d ! i)")
    case True
    then show ?thesis using ne on by (subst (1 2) FindIndexImpl.simps) auto
  next
    case False
    have "FindIndexImpl is_empty match d i = FindIndexImpl is_empty match d ?i"
      using ne False by (subst FindIndexImpl.simps) simp
    then show ?thesis using Suc(1) [OF i(2,1)] Suc(4) on False by auto
  qed
qed

lemma FirstAvailableSlot_result:
  assumes "i < length d" "f < length d" "is_empty (d ! f)" "\<And>q. on_path (length d) i q f \<Longrightarrow> \<not> is_empty (d ! q)"
  shows "FirstAvailableSlot is_empty d i = Some f"
  using assms(1,4)
proof (induction "cdist (length d) i f" arbitrary: i)
  case 0
  then have "i = f" using assms(2) cdist_0_iff by metis
  then show ?case using assms(3) by (simp add: FirstAvailableSlot.simps)
next
  case (Suc k)
  have nf: "i \<noteq> f" using Suc(2) assms(2) by (auto simp: cdist_def)
  note on = on_path_NextIndex [OF Suc(3) assms(2) nf]
  let ?i = "NextIndex (length d) i"
  have i: "?i < length d" "k = cdist (length d) ?i f"
    using Suc(2) cdist_from_NextIndex [OF Suc(3) assms(2) nf] NextIndex_less [of "length d" i] Suc(3) by linarith+
  have "\<not> is_empty (d ! i)" using Suc(4) on by blast
  then have "FirstAvailableSlot is_empty d i = FirstAvailableSlot is_empty d ?i"
    by (subst FirstAvailableSlot.simps) simp
  then show ?case using Suc(1) [OF i(2,1)] Suc(4) on by simp
qed

text \<open>A search in a table without an empty or matching slot does not end.\<close>

lemma FindIndexImpl_full:
  assumes "\<And>i. i < length d \<Longrightarrow> \<not> is_empty (d ! i) \<and> \<not> match (d ! i)" "i < length d"
  shows "FindIndexImpl is_empty match d i = None"
proof -
  have "\<not> (i < length d \<and> (\<forall>i < length d. \<not> is_empty (d ! i) \<and> \<not> match (d ! i)))"
    if "FindIndexImpl is_empty match d i = Some r" for r
    using that
  proof (rule FindIndexImpl.raw_induct
      [where P = "\<lambda>e m d i r. \<not> (i < length d \<and> (\<forall>i < length d. \<not> e (d ! i) \<and> \<not> m (d ! i)))", rotated])
    fix rec e m and d :: "'a list" and i r
    assume "\<And>e m d i r. rec e m d i = Some r \<Longrightarrow> \<not> (i < length d \<and> (\<forall>i < length d. \<not> e (d ! i) \<and> \<not> m (d ! i)))"
      and "(if e (d ! i) then Some (False, i) else if m (d ! i) then Some (True, i) else rec e m d (NextIndex (length d) i)) = Some r"
    then show "\<not> (i < length d \<and> (\<forall>i < length d. \<not> e (d ! i) \<and> \<not> m (d ! i)))"
      using NextIndex_less [of "length d" i] by (metis gr_zeroI not_less_zero)
  qed
  then show ?thesis using assms by (cases "FindIndexImpl is_empty match d i") auto
qed

section \<open>The probe invariant\<close>

definition ideal :: "'a set_fns \<Rightarrow> nat \<Rightarrow> 'a \<Rightarrow> nat" where
  "ideal F n x = IndexForHash n (hashfn F x)"

text \<open>No empty slot between the ideal index of an element and its slot.\<close>

definition probe_ok :: "'a set_fns \<Rightarrow> 'a list \<Rightarrow> bool" where
  "probe_ok F d \<longleftrightarrow>
     (\<forall>i < length d. \<not> IsEmpty F (d ! i) \<longrightarrow>
        (\<forall>q. on_path (length d) (ideal F (length d) (d ! i)) q i \<longrightarrow> \<not> IsEmpty F (d ! q)))"

definition contents :: "'a set_fns \<Rightarrow> 'a list \<Rightarrow> 'a multiset" where
  "contents F d = filter_mset (\<lambda>x. \<not> IsEmpty F x) (mset d)"

lemma ideal_less: "i < n \<Longrightarrow> ideal F n x < n"
  by (auto simp: ideal_def IndexForHash_def)

lemma has_empty_slot:
  assumes "size (contents F d) < length d"
  obtains g where "g < length d" "IsEmpty F (d ! g)"
proof -
  have "\<exists>x \<in> set d. IsEmpty F x"
  proof (rule ccontr)
    assume "\<not> ?thesis"
    then have "contents F d = mset d" by (simp add: contents_def filter_mset_eq_conv)
    then show False using assms by simp
  qed
  then show thesis using that by (metis in_set_conv_nth)
qed

lemma find_result:
  assumes ok: "probe_ok F d" and free: "size (contents F d) < length d" and m: "\<And>x. match x \<Longrightarrow> hashfn F x = h"
  obtains (found) i where "FindIndexImpl (IsEmpty F) match d (IndexForHash (length d) h) = Some (True, i)"
      "i < length d" "\<not> IsEmpty F (d ! i)" "match (d ! i)"
  | (absent) i where "FindIndexImpl (IsEmpty F) match d (IndexForHash (length d) h) = Some (False, i)"
      "i < length d" "IsEmpty F (d ! i)" "\<And>j. j < length d \<Longrightarrow> \<not> IsEmpty F (d ! j) \<Longrightarrow> \<not> match (d ! j)"
      "\<And>q. on_path (length d) (IndexForHash (length d) h) q i \<Longrightarrow> \<not> IsEmpty F (d ! q)"
proof -
  let ?n = "length d" and ?s = "IndexForHash (length d) h"
  obtain g where g: "g < ?n" "IsEmpty F (d ! g)" using has_empty_slot [OF free] .
  then have s: "?s < ?n" by (auto simp: IndexForHash_def)
  obtain f where f: "f < ?n" "IsEmpty F (d ! f)" "\<And>q. on_path ?n ?s q f \<Longrightarrow> \<not> IsEmpty F (d ! q)"
    using first_empty [where is_empty = "IsEmpty F", OF g s] by blast
  from FindIndexImpl_result [where is_empty = "IsEmpty F" and match = match, OF s f] show thesis
  proof
    assume "\<exists>q. on_path ?n ?s q f \<and> match (d ! q) \<and> FindIndexImpl (IsEmpty F) match d ?s = Some (True, q)"
    then show thesis using found f(3) by (auto simp: on_path_def)
  next
    assume a: "(\<forall>q. on_path ?n ?s q f \<longrightarrow> \<not> match (d ! q)) \<and> FindIndexImpl (IsEmpty F) match d ?s = Some (False, f)"
    have "\<not> match (d ! j)" if j: "j < ?n" "\<not> IsEmpty F (d ! j)" for j
    proof
      assume mj: "match (d ! j)"
      then have "ideal F ?n (d ! j) = ?s" using m by (simp add: ideal_def)
      then have "\<not> on_path ?n ?s f j" using ok j f(2) by (auto simp: probe_ok_def)
      moreover have "cdist ?n ?s j \<noteq> cdist ?n ?s f" using cdist_inj [OF s j(1) f(1)] j(2) f(2) by auto
      ultimately have "on_path ?n ?s j f" using j(1) f(1) by (auto simp: on_path_def)
      then show False using a mj by blast
    qed
    then show thesis using absent [of f] a f by blast
  qed
qed

lemma contents_update:
  assumes "i < length d" "IsEmpty F (d ! i)" "\<not> IsEmpty F x"
  shows "contents F (d[i := x]) = add_mset x (contents F d)"
  using assms by (simp add: contents_def mset_update filter_diff_mset)

lemma probe_ok_put:
  assumes ok: "probe_ok F d" and i: "i < length d" "IsEmpty F (d ! i)" and x: "\<not> IsEmpty F x"
    and path: "\<And>q. on_path (length d) (ideal F (length d) x) q i \<Longrightarrow> \<not> IsEmpty F (d ! q)"
  shows "probe_ok F (d[i := x])"
  unfolding probe_ok_def
proof (intro allI impI)
  fix j q
  assume j: "j < length (d[i := x])" "\<not> IsEmpty F (d[i := x] ! j)"
    and q: "on_path (length (d[i := x])) (ideal F (length (d[i := x])) (d[i := x] ! j)) q j"
  have "q = i \<or> \<not> IsEmpty F (d ! q)"
  proof (cases "j = i")
    case True
    then show ?thesis using path [of q] q i(1) by simp
  next
    case False
    then show ?thesis using ok [unfolded probe_ok_def, rule_format, of j q] j q by simp
  qed
  then show "\<not> IsEmpty F (d[i := x] ! q)" using x i by (cases "q = i") auto
qed

section \<open>Reinsertion\<close>

lemma reinsert_result:
  assumes "probe_ok F d" "size (contents F d) + size (contents F xs) \<le> length d"
  shows "\<exists>d'. reinsert F xs d = Some d' \<and> length d' = length d \<and> probe_ok F d' \<and> contents F d' = contents F d + contents F xs"
  using assms
proof (induction xs arbitrary: d)
  case Nil
  then show ?case by (simp add: contents_def)
next
  case (Cons x xs)
  show ?case
  proof (cases "IsEmpty F x")
    case True
    then show ?thesis using Cons by (simp add: contents_def)
  next
    case False
    then have c: "contents F (x # xs) = add_mset x (contents F xs)" by (simp add: contents_def)
    let ?s = "IndexForHash (length d) (hashfn F x)"
    obtain g where g: "g < length d" "IsEmpty F (d ! g)" using has_empty_slot [of F d] Cons(3) c by auto
    then have s: "?s < length d" by (auto simp: IndexForHash_def)
    obtain f where f: "f < length d" "IsEmpty F (d ! f)" "\<And>q. on_path (length d) ?s q f \<Longrightarrow> \<not> IsEmpty F (d ! q)"
      using first_empty [where is_empty = "IsEmpty F", OF g s] by blast
    have "FirstAvailableSlot (IsEmpty F) d ?s = Some f" using FirstAvailableSlot_result [where is_empty = "IsEmpty F", OF s f] .
    moreover have "probe_ok F (d[f := x])"
      using probe_ok_put [OF Cons(2) f(1,2) False] f(3) by (simp add: ideal_def)
    ultimately show ?thesis
      using Cons(1) [of "d[f := x]"] Cons(3) False c contents_update [OF f(1,2) False] by auto
  qed
qed

section \<open>Erasure\<close>

lemma path_through:
  assumes "s < n" "a < n" "e < n" "f < n" "i < n"
    and "cdist n s e < cdist n s f" "on_path n a e i" "cdist n s f < cdist n s i \<or> cdist n s i < cdist n s e"
  shows "on_path n a f i"
  using assms cdist_less [OF assms(1,2)] cdist_less [OF assms(1,3)] cdist_less [OF assms(1,4)] cdist_less [OF assms(1,5)]
    cdist_base [OF assms(1,2,3)] cdist_base [OF assms(1,2,4)] cdist_base [OF assms(1,2,5)]
  by (auto simp: on_path_def split: if_splits)

lemma unwrapped: "a < n \<Longrightarrow> e < n \<Longrightarrow> (if a < e then a + n else a) = e + cdist n e a"
  by (auto simp: cdist_def)

lemma moves_iff:
  assumes "a < n" "e < n" "j < n" "e \<noteq> j"
  shows "cdist n e a = 0 \<or> cdist n e a > cdist n e j \<longleftrightarrow> on_path n a e j"
  using assms by (auto simp: on_path_def cdist_def split: if_splits)

text \<open>The loop of \<open>erase\<close>, with distances from the slot \<open>s\<close> where it started: \<open>e\<close> is the hole, the slots up to \<open>j\<close> have
  been considered, \<open>f\<close> is the next empty slot.\<close>

definition occupied_between :: "'a set_fns \<Rightarrow> nat \<Rightarrow> nat \<Rightarrow> 'a list \<Rightarrow> nat \<Rightarrow> bool" where
  "occupied_between F s f d j \<longleftrightarrow>
     (\<forall>q < length d. cdist (length d) s j < cdist (length d) s q \<longrightarrow> cdist (length d) s q < cdist (length d) s f \<longrightarrow>
        \<not> IsEmpty F (d ! q))"

definition probe_but :: "'a set_fns \<Rightarrow> 'a list \<Rightarrow> nat \<Rightarrow> bool" where
  "probe_but F d e \<longleftrightarrow>
     (\<forall>i < length d. i \<noteq> e \<longrightarrow> \<not> IsEmpty F (d ! i) \<longrightarrow>
        (\<forall>q. on_path (length d) (ideal F (length d) (d ! i)) q i \<longrightarrow> q \<noteq> e \<longrightarrow> \<not> IsEmpty F (d ! q)))"

definition not_across :: "'a set_fns \<Rightarrow> nat \<Rightarrow> 'a list \<Rightarrow> nat \<Rightarrow> nat \<Rightarrow> bool" where
  "not_across F s d e j \<longleftrightarrow>
     (\<forall>i < length d. \<not> IsEmpty F (d ! i) \<longrightarrow> cdist (length d) s e < cdist (length d) s i \<longrightarrow>
        cdist (length d) s i \<le> cdist (length d) s j \<longrightarrow> \<not> on_path (length d) (ideal F (length d) (d ! i)) e i)"

definition erase_inv :: "'a set_fns \<Rightarrow> nat \<Rightarrow> nat \<Rightarrow> 'a list \<Rightarrow> nat \<Rightarrow> nat \<Rightarrow> bool" where
  "erase_inv F s f d e j \<longleftrightarrow>
     s < length d \<and> e < length d \<and> j < length d \<and> f < length d \<and>
     cdist (length d) s e \<le> cdist (length d) s j \<and> cdist (length d) s j < cdist (length d) s f \<and> IsEmpty F (d ! f) \<and>
     occupied_between F s f d j \<and> probe_but F d e \<and> not_across F s d e j"

lemma erase_invD:
  assumes "erase_inv F s f d e j"
  shows "s < length d" "e < length d" "j < length d" "f < length d"
    "cdist (length d) s e \<le> cdist (length d) s j" "cdist (length d) s j < cdist (length d) s f" "IsEmpty F (d ! f)"
    and erase_occupied: "\<And>q. q < length d \<Longrightarrow> cdist (length d) s j < cdist (length d) s q \<Longrightarrow>
       cdist (length d) s q < cdist (length d) s f \<Longrightarrow> \<not> IsEmpty F (d ! q)"
    and erase_probe: "\<And>i q. i < length d \<Longrightarrow> i \<noteq> e \<Longrightarrow> \<not> IsEmpty F (d ! i) \<Longrightarrow>
       on_path (length d) (ideal F (length d) (d ! i)) q i \<Longrightarrow> q \<noteq> e \<Longrightarrow> \<not> IsEmpty F (d ! q)"
    and erase_not_across: "\<And>i. i < length d \<Longrightarrow> \<not> IsEmpty F (d ! i) \<Longrightarrow> cdist (length d) s e < cdist (length d) s i \<Longrightarrow>
       cdist (length d) s i \<le> cdist (length d) s j \<Longrightarrow> \<not> on_path (length d) (ideal F (length d) (d ! i)) e i"
proof -
  note p = assms [unfolded erase_inv_def]
  show "s < length d" "e < length d" "j < length d" "f < length d"
    "cdist (length d) s e \<le> cdist (length d) s j" "cdist (length d) s j < cdist (length d) s f" "IsEmpty F (d ! f)"
    using p by blast+
  have z: "occupied_between F s f d j" "probe_but F d e" "not_across F s d e j" using p by blast+
  show "\<And>q. q < length d \<Longrightarrow> cdist (length d) s j < cdist (length d) s q \<Longrightarrow>
       cdist (length d) s q < cdist (length d) s f \<Longrightarrow> \<not> IsEmpty F (d ! q)"
    using z(1) unfolding occupied_between_def by blast
  show "\<And>i q. i < length d \<Longrightarrow> i \<noteq> e \<Longrightarrow> \<not> IsEmpty F (d ! i) \<Longrightarrow>
       on_path (length d) (ideal F (length d) (d ! i)) q i \<Longrightarrow> q \<noteq> e \<Longrightarrow> \<not> IsEmpty F (d ! q)"
    using z(2) unfolding probe_but_def by metis
  show "\<And>i. i < length d \<Longrightarrow> \<not> IsEmpty F (d ! i) \<Longrightarrow> cdist (length d) s e < cdist (length d) s i \<Longrightarrow>
       cdist (length d) s i \<le> cdist (length d) s j \<Longrightarrow> \<not> on_path (length d) (ideal F (length d) (d ! i)) e i"
    using z(3) unfolding not_across_def by blast
qed

lemma erase_invI:
  assumes "s < n" "e < n" "j < n" "f < n" "length d = n" "cdist n s e \<le> cdist n s j" "cdist n s j < cdist n s f" "IsEmpty F (d ! f)"
    and occ: "\<And>q. q < n \<Longrightarrow> cdist n s j < cdist n s q \<Longrightarrow> cdist n s q < cdist n s f \<Longrightarrow> \<not> IsEmpty F (d ! q)"
    and pr: "\<And>i q. i < n \<Longrightarrow> i \<noteq> e \<Longrightarrow> \<not> IsEmpty F (d ! i) \<Longrightarrow> on_path n (ideal F n (d ! i)) q i \<Longrightarrow> q \<noteq> e \<Longrightarrow>
       \<not> IsEmpty F (d ! q)"
    and na: "\<And>i. i < n \<Longrightarrow> \<not> IsEmpty F (d ! i) \<Longrightarrow> cdist n s e < cdist n s i \<Longrightarrow> cdist n s i \<le> cdist n s j \<Longrightarrow>
       \<not> on_path n (ideal F n (d ! i)) e i"
  shows "erase_inv F s f d e j"
proof -
  have "occupied_between F s f d j" unfolding occupied_between_def assms(5) using occ by blast
  moreover have "probe_but F d e" unfolding probe_but_def assms(5) by (intro allI impI) (rule pr)
  moreover have "not_across F s d e j" unfolding not_across_def assms(5) using na by blast
  ultimately show ?thesis using assms(1-8) by (simp add: erase_inv_def)
qed

lemma erase_inv_end:
  assumes inv: "erase_inv F s f d e j" and f: "cdist (length d) s f = cdist (length d) s j + 1" and e: "IsEmpty F (MakeEmpty F)"
  shows "probe_ok F (d[e := MakeEmpty F])"
  unfolding probe_ok_def length_list_update
proof (intro allI impI)
  let ?n = "length d"
  fix i q
  assume i: "i < ?n" "\<not> IsEmpty F (d[e := MakeEmpty F] ! i)"
    and q: "on_path ?n (ideal F ?n (d[e := MakeEmpty F] ! i)) q i"
  have ie: "i \<noteq> e" "\<not> IsEmpty F (d ! i)" "d[e := MakeEmpty F] ! i = d ! i"
    using i e by (cases "i = e"; simp)+
  note A = erase_invD [OF inv]
  have qe: "q = e \<or> \<not> IsEmpty F (d ! q)" using erase_probe [OF inv i(1) ie(1,2)] q ie(3) by auto
  have "q \<noteq> e"
  proof
    assume "q = e"
    then have p: "on_path ?n (ideal F ?n (d ! i)) e i" using q ie by simp
    have neq: "cdist ?n s i \<noteq> cdist ?n s e" "cdist ?n s i \<noteq> cdist ?n s f"
      using cdist_inj [OF A(1) i(1) A(2)] cdist_inj [OF A(1) i(1) A(4)] A(7) ie by auto
    have "\<not> (cdist ?n s e < cdist ?n s i \<and> cdist ?n s i \<le> cdist ?n s j)"
      using erase_not_across [OF inv i(1) ie(2)] p by blast
    then have far: "cdist ?n s f < cdist ?n s i \<or> cdist ?n s i < cdist ?n s e" using neq f by linarith
    have "on_path ?n (ideal F ?n (d ! i)) f i"
      by (rule path_through [OF A(1) ideal_less [OF i(1)] A(2,4) i(1) _ p far]) (use A(5,6) in simp)
    moreover have "f \<noteq> e" using A(5,6) by auto
    ultimately show False using erase_probe [OF inv i(1) ie(1,2)] A(7) by blast
  qed
  then show "\<not> IsEmpty F (d[e := MakeEmpty F] ! q)" using qe by simp
qed

lemma erase_inv_skip:
  assumes inv: "erase_inv F s f d e j" and j': "j' < length d" "cdist (length d) s j' = cdist (length d) s j + 1"
    "cdist (length d) s j' < cdist (length d) s f"
    and stay: "\<not> on_path (length d) (ideal F (length d) (d ! j')) e j'"
  shows "erase_inv F s f d e j'"
proof (rule erase_invI [OF _ _ _ _ refl])
  note A = erase_invD [OF inv]
  show "\<not> on_path (length d) (ideal F (length d) (d ! i)) e i"
    if "i < length d" "\<not> IsEmpty F (d ! i)" "cdist (length d) s e < cdist (length d) s i"
      "cdist (length d) s i \<le> cdist (length d) s j'" for i
  proof (cases "i = j'")
    case False
    then have "cdist (length d) s i \<le> cdist (length d) s j"
      using that(4) j'(2) cdist_inj [OF A(1) that(1) j'(1)] by simp
    then show ?thesis using erase_not_across [OF inv] that by blast
  qed (use stay in simp)
  show "\<not> IsEmpty F (d ! q)" if "q < length d" "cdist (length d) s j' < cdist (length d) s q" "cdist (length d) s q < cdist (length d) s f" for q
    using erase_occupied [OF inv] that j'(2) by simp
  show "\<not> IsEmpty F (d ! q)" if "i < length d" "i \<noteq> e" "\<not> IsEmpty F (d ! i)"
    "on_path (length d) (ideal F (length d) (d ! i)) q i" "q \<noteq> e" for i q
    using erase_probe [OF inv that] .
qed (use erase_invD(1-7) [OF inv] j' in simp_all)

lemma erase_inv_move:
  assumes inv: "erase_inv F s f d e j" and j': "j' < length d" "cdist (length d) s j' = cdist (length d) s j + 1"
    "cdist (length d) s j' < cdist (length d) s f" "\<not> IsEmpty F (d ! j')"
    and move: "on_path (length d) (ideal F (length d) (d ! j')) e j'"
  shows "erase_inv F s f (d[e := d ! j']) j' j'"
proof (rule erase_invI [where n = "length d"])
  let ?n = "length d" and ?a = "ideal F (length d) (d ! j')"
  note A = erase_invD [OF inv]
  have fe: "f \<noteq> e" "j' \<noteq> e" using A(5,6) j'(2) by auto
  show "IsEmpty F (d[e := d ! j'] ! f)" using A(7) fe by simp
  show "\<not> IsEmpty F (d[e := d ! j'] ! q)"
    if i: "i < ?n" "i \<noteq> j'" "\<not> IsEmpty F (d[e := d ! j'] ! i)" and q: "on_path ?n (ideal F ?n (d[e := d ! j'] ! i)) q i" for i q
  proof (cases "q = e")
    case True
    then show ?thesis using A(2) j'(4) by simp
  next
    case q': False
    have "\<not> IsEmpty F (d ! q)"
    proof (cases "i = e")
      case True
      then have "on_path ?n ?a q e" using q A(2) by simp
      then have "on_path ?n ?a q j'" using move by (auto simp: on_path_def)
      then show ?thesis using erase_probe [OF inv j'(1) fe(2) j'(4) _ q'] by blast
    next
      case False
      then show ?thesis using erase_probe [OF inv i(1) False _ _ q'] i(3) q by simp
    qed
    then show ?thesis using q' by simp
  qed
  show "\<not> IsEmpty F (d[e := d ! j'] ! q)"
    if "q < ?n" "cdist ?n s j' < cdist ?n s q" "cdist ?n s q < cdist ?n s f" for q
    using that A(5) erase_occupied [OF inv that(1) _ that(3)] j'(2) by (cases "q = e") auto
qed (use erase_invD(1-7) [OF inv] j' in simp_all)

text \<open>What lies at or after the slot \<open>s\<close> where the loop started stays there, and that slot is filled when the loop says so.\<close>

lemma erase_move_drop:
  assumes "e < length d" "j < length d" "e \<noteq> j" "e < s \<Longrightarrow> j < s" "IsEmpty F E"
  shows "contents F (drop s (d[e := E])) \<subseteq># contents F (drop s (d[e := d ! j, j := E]))"
proof -
  consider "s \<le> e" "s \<le> j" | "s \<le> e" "j < s" | "e < s" "j < s" using assms(4) by linarith
  then show ?thesis
  proof cases
    case 1
    let ?D = "drop s d" and ?e = "e - s" and ?j = "j - s"
    have "?D[?e := d ! j, ?j := E] = ?D[?e := E, ?e := ?D[?e := E] ! ?j, ?j := ?D[?e := E] ! ?e]"
      using 1 assms(1-3) by simp
    then have "mset (?D[?e := d ! j, ?j := E]) = mset (?D[?e := E])"
      using mset_swap [of ?j "?D[?e := E]" ?e] 1 assms(1-3) by simp
    then show ?thesis using 1 by (simp add: drop_update_swap contents_def)
  next
    case 2
    then show ?thesis using assms by (simp add: drop_update_swap drop_update_cancel contents_def mset_update)
  qed (simp add: drop_update_cancel)
qed

definition filled_ok :: "'a set_fns \<Rightarrow> nat \<Rightarrow> 'a list \<Rightarrow> nat \<Rightarrow> bool \<Rightarrow> bool" where
  "filled_ok F s d e filled \<longleftrightarrow> (if filled then e \<noteq> s \<and> \<not> IsEmpty F (d ! s) else e = s)"

lemma erase_loop_result:
  assumes "erase_inv F s f d e j" "filled_ok F s d e filled" "IsEmpty F (MakeEmpty F)"
  shows "\<exists>d' fl. erase_loop F d e j filled = Some (d', fl) \<and> length d' = length d \<and> probe_ok F d' \<and>
    mset d' = mset (d[e := MakeEmpty F]) \<and> contents F (drop s (d[e := MakeEmpty F])) \<subseteq># contents F (drop s d') \<and>
    (filled \<longrightarrow> fl) \<and> (if fl then \<not> IsEmpty F (d' ! s) else d' = d[s := MakeEmpty F])"
  using assms(1,2)
proof (induction "cdist (length d) s f - cdist (length d) s j" arbitrary: d e j filled rule: less_induct)
  case less
  let ?n = "length d" and ?j = "NextIndex (length d) j"
  note A = erase_invD [OF less(2)]
  note n = A(1,3,4,2,6)
  have "0 < ?n" using n(1) by linarith
  then have j': "?j < ?n" "cdist ?n s ?j = cdist ?n s j + 1"
    using NextIndex_less [of ?n j] cdist_NextIndex [OF n(1,2)] cdist_less [OF n(1,3)] n(5) by auto
  show ?case
  proof (cases "cdist ?n s ?j = cdist ?n s f")
    case True
    then have "?j = f" using cdist_inj [OF n(1) j'(1) n(3)] by simp
    then have "erase_loop F d e j filled = Some (d[e := MakeEmpty F], filled)"
      using A(7) by (subst erase_loop.simps) simp
    then show ?thesis using erase_inv_end [OF less(2) _ assms(3)] True j'(2) less(3)
      by (auto simp: filled_ok_def split: if_splits)
  next
    case False
    then have lt: "cdist ?n s ?j < cdist ?n s f" using n j' by simp
    then have ne: "\<not> IsEmpty F (d ! ?j)" using erase_occupied [OF less(2)] j' by auto
    have closer: "cdist ?n s f - cdist ?n s ?j < cdist ?n s f - cdist ?n s j" using j'(2) lt by simp
    let ?a = "ideal F ?n (d ! ?j)"
    have a: "?a < ?n" by (rule ideal_less [OF n(1)])
    have ej: "e \<noteq> ?j" using A(5) j'(2) by auto
    have step: "erase_loop F d e j filled =
        (if on_path ?n ?a e ?j then erase_loop F (d[e := d ! ?j]) ?j ?j True else erase_loop F d e ?j filled)"
      using ne moves_iff [OF a n(4) j'(1) ej] unwrapped [OF a n(4)] unwrapped [OF j'(1) n(4)]
      by (subst erase_loop.simps) (simp add: Let_def ideal_def [symmetric])
    show ?thesis
    proof (cases "on_path ?n ?a e ?j")
      case True
      let ?d = "d[e := d ! ?j]" and ?L = "d[e := MakeEmpty F]"
      note inv' = erase_inv_move [OF less(2) j' lt ne True]
      have js: "?j \<noteq> s" using j'(2) by (auto simp: cdist_def)
      then have fl: "filled_ok F s ?d ?j True" using less(3) ne n(1) by (auto simp: filled_ok_def split: if_splits)
      have "?d[?j := MakeEmpty F] = ?L[e := ?L ! ?j, ?j := ?L ! e]"
        using ej n by simp
      then have "mset (?d[?j := MakeEmpty F]) = mset ?L"
        using mset_swap [of ?j ?L e] j'(1) n(4) by simp
      moreover have dr: "contents F (drop s ?L) \<subseteq># contents F (drop s (?d[?j := MakeEmpty F]))"
      proof (rule erase_move_drop [where F = F and E = "MakeEmpty F", OF n(4) j'(1) ej _ assms(3)])
        show "?j < s" if "e < s" using that A(5) j' n(1) by (simp add: cdist_def split: if_splits)
      qed
      moreover obtain d' where r: "erase_loop F ?d ?j ?j True = Some (d', True)" "length d' = ?n" "probe_ok F d'"
          "mset d' = mset (?d[?j := MakeEmpty F])" "contents F (drop s (?d[?j := MakeEmpty F])) \<subseteq># contents F (drop s d')"
          "\<not> IsEmpty F (d' ! s)"
        using less(1) [OF _ inv' fl] closer by auto
      ultimately show ?thesis using step True
        by (intro exI [of _ d'] exI [of _ True]) (simp add: subset_mset.order_trans [OF dr r(5)])
    next
      case False
      then show ?thesis using less(1) [OF closer erase_inv_skip [OF less(2) j' lt False] less(3)] step by simp
    qed
  qed
qed

text \<open>Erasing an occupied slot of a table with an empty slot: the loop ends, the probe invariant holds, exactly the
  element of that slot is gone and no element after it is moved before it.\<close>

lemma erase_result:
  assumes ok: "probe_ok F d" and free: "size (contents F d) < length d" and e: "IsEmpty F (MakeEmpty F)"
    and i: "i < length d" "\<not> IsEmpty F (d ! i)"
  obtains d' fl where "erase_loop F d i i False = Some (d', fl)" "length d' = length d" "probe_ok F d'"
    "contents F d' = contents F d - {#d ! i#}" "contents F (drop (Suc i) d) \<subseteq># contents F (drop i d')"
    "if fl then \<not> IsEmpty F (d' ! i) else d' = d[i := MakeEmpty F]"
proof -
  let ?n = "length d"
  obtain g where g: "g < ?n" "IsEmpty F (d ! g)" using has_empty_slot [OF free] .
  obtain f where f: "f < ?n" "IsEmpty F (d ! f)" "\<And>q. on_path ?n i q f \<Longrightarrow> \<not> IsEmpty F (d ! q)"
    using first_empty [where is_empty = "IsEmpty F", OF g i(1)] by blast
  have d0: "cdist ?n i i < cdist ?n i f" using f(2) i cdist_0_iff [OF i(1) f(1)] by (auto simp: cdist_def)
  have "erase_inv F i f d i i"
  proof (rule erase_invI [OF i(1) i(1) i(1) f(1) refl order_refl d0 f(2)])
    show "\<not> IsEmpty F (d ! q)" if "q < ?n" "cdist ?n i i < cdist ?n i q" "cdist ?n i q < cdist ?n i f" for q
      using f(3) that by (simp add: on_path_def)
    show "\<not> IsEmpty F (d ! q)"
      if "k < ?n" "\<not> IsEmpty F (d ! k)" "on_path ?n (ideal F ?n (d ! k)) q k" for k q
      using ok that unfolding probe_ok_def by blast
  qed auto
  then obtain d' fl where r: "erase_loop F d i i False = Some (d', fl)" "length d' = ?n" "probe_ok F d'"
    "mset d' = mset (d[i := MakeEmpty F])" "contents F (drop i (d[i := MakeEmpty F])) \<subseteq># contents F (drop i d')"
    "if fl then \<not> IsEmpty F (d' ! i) else d' = d[i := MakeEmpty F]"
    using erase_loop_result [OF _ _ e, of i f d i i False] by (auto simp: filled_ok_def)
  have "contents F d' = contents F (d[i := MakeEmpty F])" using r(4) by (simp add: contents_def)
  also have "\<dots> = contents F d - {#d ! i#}"
    using i e by (simp add: contents_def mset_update filter_diff_mset)
  finally have c: "contents F d' = contents F d - {#d ! i#}" .
  have "drop i (d[i := MakeEmpty F]) = MakeEmpty F # drop (Suc i) d"
    using i(1) by (simp add: drop_update_swap flip: Cons_nth_drop_Suc)
  then have "contents F (drop (Suc i) d) \<subseteq># contents F (drop i d')" using r(5) e by (simp add: contents_def)
  then show thesis using that [OF r(1-3) c _ r(6)] by blast
qed

end
