(* ===== verification/HashSetOps.thy ===== *)
theory HashSetOps
  imports HashSetProbe
begin

text \<open>
  The operations of the hash set against the multiset of its elements: what is assumed of the function objects and
  of the load factors, the invariant of the set, and what every operation returns and keeps.
\<close>

section \<open>Assumptions and invariant\<close>

definition fns_ok :: "'a set_fns \<Rightarrow> bool" where
  "fns_ok F \<longleftrightarrow>
     IsEmpty F (MakeEmpty F) \<and> equivp (pred F) \<and> (\<forall>x y. pred F x y \<longrightarrow> hashfn F x = hashfn F y)"

text \<open>The maximum load factor is below one, and growing to the minimum load factor makes room
  (\<open>DCHECK_LT(num_elements_, elements_until_expand_)\<close>).\<close>

definition load_ok :: "'d fp_ops \<Rightarrow> 'd \<Rightarrow> 'd \<Rightarrow> bool" where
  "load_ok fp min_load max_load \<longleftrightarrow>
     fp_times fp 0 max_load = 0 \<and> (\<forall>n > 0. fp_times fp n max_load < n) \<and>
     (\<forall>n. n < fp_times fp (max kMinBuckets (fp_over fp n min_load)) max_load)"

definition unique_elements :: "'a set_fns \<Rightarrow> 'a multiset \<Rightarrow> bool" where
  "unique_elements F M \<longleftrightarrow> (\<forall>x \<in># M. \<forall>y \<in># M - {#x#}. \<not> pred F x y)"

definition set_ok :: "'a set_fns \<Rightarrow> 'd fp_ops \<Rightarrow> ('a, 'd) hash_set \<Rightarrow> bool" where
  "set_ok F fp hs \<longleftrightarrow>
     probe_ok F (data hs) \<and> num_elements hs = size (contents F (data hs)) \<and>
     unique_elements F (contents F (data hs)) \<and> (data hs = [] \<or> num_elements hs < NumBuckets hs) \<and>
     elements_until_expand hs = fp_times fp (NumBuckets hs) (max_load_factor hs)"

definition elements :: "'a set_fns \<Rightarrow> ('a, 'd) hash_set \<Rightarrow> 'a multiset" where
  "elements F hs = contents F (data hs)"

lemma in_elements: "x \<in># elements F hs \<longleftrightarrow> (\<exists>i < NumBuckets hs. data hs ! i = x \<and> \<not> IsEmpty F (data hs ! i))"
  by (auto simp: elements_def contents_def NumBuckets_def in_set_conv_nth)

lemma unique_add:
  assumes "equivp (pred F)" "unique_elements F M" "\<And>y. y \<in># M \<Longrightarrow> \<not> pred F y x"
  shows "unique_elements F (add_mset x M)"
  unfolding unique_elements_def
proof (intro ballI)
  fix u v
  assume u: "u \<in># add_mset x M" and v: "v \<in># add_mset x M - {#u#}"
  have "\<not> pred F y x \<and> \<not> pred F x y" if "y \<in># M" for y
    using that assms(1,3) by (meson equivp_symp)
  then show "\<not> pred F u v"
    using u v assms(2) by (cases "u = x") (auto simp: unique_elements_def split: if_splits)
qed

lemma unique_diff: "unique_elements F M \<Longrightarrow> unique_elements F (M - N)"
  unfolding unique_elements_def by (metis diff_right_commute in_diffD)

lemma probe_ok_replicate: "IsEmpty F (MakeEmpty F) \<Longrightarrow> probe_ok F (replicate n (MakeEmpty F))"
  by (simp add: probe_ok_def)

lemma contents_replicate: "IsEmpty F (MakeEmpty F) \<Longrightarrow> contents F (replicate n (MakeEmpty F)) = {#}"
  by (simp add: contents_def filter_mset_eq_conv)

section \<open>Resizing\<close>

lemma Resize_result:
  assumes e: "IsEmpty F (MakeEmpty F)" and room: "size (elements F hs) \<le> max kMinBuckets m"
  obtains hs' where "Resize F fp m hs = Some hs'" "probe_ok F (data hs')" "elements F hs' = elements F hs"
    "NumBuckets hs' = max kMinBuckets m" "num_elements hs' = num_elements hs" "max_load_factor hs' = max_load_factor hs"
    "min_load_factor hs' = min_load_factor hs"
    "elements_until_expand hs' = fp_times fp (max kMinBuckets m) (max_load_factor hs)"
proof -
  let ?n = "max kMinBuckets m"
  obtain d' where d': "reinsert F (data hs) (replicate ?n (MakeEmpty F)) = Some d'" "length d' = ?n" "probe_ok F d'"
    "contents F d' = contents F (data hs)"
    using reinsert_result [OF probe_ok_replicate [OF e], of ?n "data hs"] room
    by (auto simp: contents_replicate [OF e] elements_def)
  have n: "(if m < kMinBuckets then kMinBuckets else m) = ?n" by simp
  show thesis
    using that [of "hs\<lparr>data := d', owns_data := True, elements_until_expand := fp_times fp ?n (max_load_factor hs)\<rparr>"] d'
    by (simp add: Resize_def n Let_def elements_def NumBuckets_def del: max.absorb_iff1 max.absorb_iff2)
qed

lemma set_ok_parts:
  assumes "set_ok F fp hs"
  shows "probe_ok F (data hs)" "num_elements hs = size (elements F hs)" "unique_elements F (elements F hs)"
    "NumBuckets hs = 0 \<or> size (elements F hs) < NumBuckets hs"
    "elements_until_expand hs = fp_times fp (NumBuckets hs) (max_load_factor hs)"
  using assms by (auto simp: set_ok_def elements_def NumBuckets_def)

lemma set_okI:
  assumes "probe_ok F (data hs)" "num_elements hs = size (elements F hs)" "unique_elements F (elements F hs)"
    "size (elements F hs) < NumBuckets hs" "elements_until_expand hs = fp_times fp (NumBuckets hs) (max_load_factor hs)"
  shows "set_ok F fp hs"
  using assms by (auto simp: set_ok_def elements_def NumBuckets_def)

lemma Resize_ok:
  assumes F: "fns_ok F" and ok: "set_ok F fp hs" and room: "size (elements F hs) < max kMinBuckets m"
  obtains hs' where "Resize F fp m hs = Some hs'" "set_ok F fp hs'" "elements F hs' = elements F hs"
    "NumBuckets hs' = max kMinBuckets m" "max_load_factor hs' = max_load_factor hs" "min_load_factor hs' = min_load_factor hs"
proof -
  have e: "IsEmpty F (MakeEmpty F)" using F by (simp add: fns_ok_def)
  obtain hs' where r: "Resize F fp m hs = Some hs'" "probe_ok F (data hs')" "elements F hs' = elements F hs"
    "NumBuckets hs' = max kMinBuckets m" "num_elements hs' = num_elements hs" "max_load_factor hs' = max_load_factor hs"
    "min_load_factor hs' = min_load_factor hs"
    "elements_until_expand hs' = fp_times fp (max kMinBuckets m) (max_load_factor hs)"
    using Resize_result [OF e, of hs m fp] room by (metis less_imp_le)
  have "set_ok F fp hs'" using r set_ok_parts [OF ok] room by (intro set_okI) simp_all
  then show thesis using that r by blast
qed

lemma maybe_expand_ok:
  assumes F: "fns_ok F" and L: "load_ok fp (min_load_factor hs) (max_load_factor hs)" and ok: "set_ok F fp hs"
  obtains hs' where "maybe_expand F fp hs = Some hs'" "set_ok F fp hs'" "elements F hs' = elements F hs"
    "size (elements F hs') + 1 < NumBuckets hs'" "max_load_factor hs' = max_load_factor hs"
    "min_load_factor hs' = min_load_factor hs"
proof (cases "num_elements hs \<ge> elements_until_expand hs")
  case False
  then have "num_elements hs < fp_times fp (NumBuckets hs) (max_load_factor hs)" using set_ok_parts(5) [OF ok] by simp
  moreover have "NumBuckets hs > 0" using calculation L by (cases "NumBuckets hs") (simp_all add: load_ok_def)
  then have "fp_times fp (NumBuckets hs) (max_load_factor hs) < NumBuckets hs" using L by (simp add: load_ok_def)
  ultimately show thesis using that [of hs] False ok set_ok_parts(2) [OF ok] by (simp add: maybe_expand_def)
next
  case True
  let ?n = "size (elements F hs)" and ?m = "fp_over fp (HashSet_size hs) (min_load_factor hs)"
  have n: "HashSet_size hs = ?n" using set_ok_parts(2) [OF ok] by (simp add: HashSet_size_def)
  have grow: "?n < fp_times fp (max kMinBuckets ?m) (max_load_factor hs)" using L n by (simp add: load_ok_def)
  moreover have "0 < max kMinBuckets ?m" by (simp add: kMinBuckets_def)
  then have "fp_times fp (max kMinBuckets ?m) (max_load_factor hs) < max kMinBuckets ?m" using L by (simp add: load_ok_def)
  ultimately have room: "?n + 1 < max kMinBuckets ?m" by simp
  then obtain hs' where "Resize F fp ?m hs = Some hs'" "set_ok F fp hs'" "elements F hs' = elements F hs"
    "NumBuckets hs' = max kMinBuckets ?m" "max_load_factor hs' = max_load_factor hs" "min_load_factor hs' = min_load_factor hs"
    using Resize_ok [OF F ok, of ?m] by (metis add_lessD1)
  then show thesis using that [of hs'] room True by (simp add: maybe_expand_def Expand_def)
qed

section \<open>Finding, inserting and erasing\<close>

lemma find_ok:
  assumes F: "fns_ok F" and ok: "set_ok F fp hs"
  obtains (found) i where "HashSet_find F x hs = Some i" "i < NumBuckets hs" "\<not> IsEmpty F (data hs ! i)" "pred F (data hs ! i) x"
  | (absent) "HashSet_find F x hs = Some (end_index hs)" "\<And>y. y \<in># elements F hs \<Longrightarrow> \<not> pred F y x"
proof (cases "NumBuckets hs = 0")
  case True
  then show thesis using absent by (auto simp: HashSet_find_def FindIndex_def end_index_def in_elements)
next
  case False
  then have free: "size (contents F (data hs)) < length (data hs)"
    using set_ok_parts(4) [OF ok] by (simp add: elements_def NumBuckets_def)
  have h: "pred F y x \<Longrightarrow> hashfn F y = hashfn F x" for y using F by (simp add: fns_ok_def)
  note d = HashSet_find_def FindIndex_def NumBuckets_def end_index_def
  show thesis
  proof (rule find_result [OF set_ok_parts(1) [OF ok] free h])
    fix i
    assume "FindIndexImpl (IsEmpty F) (\<lambda>y. pred F y x) (data hs) (IndexForHash (length (data hs)) (hashfn F x)) = Some (True, i)"
      "i < length (data hs)" "\<not> IsEmpty F (data hs ! i)" "pred F (data hs ! i) x"
    then show thesis using found False by (simp add: d)
  next
    fix i
    assume "FindIndexImpl (IsEmpty F) (\<lambda>y. pred F y x) (data hs) (IndexForHash (length (data hs)) (hashfn F x)) = Some (False, i)"
      "\<And>j. j < length (data hs) \<Longrightarrow> \<not> IsEmpty F (data hs ! j) \<Longrightarrow> \<not> pred F (data hs ! j) x"
    then show thesis using absent False by (auto simp: d in_elements)
  qed
qed

lemma put_ok:
  assumes F: "fns_ok F" and ok: "set_ok F fp hs" and i: "i < length (data hs)" "IsEmpty F (data hs ! i)"
    and x: "\<not> IsEmpty F x" and room: "size (elements F hs) + 1 < NumBuckets hs"
    and none: "\<And>y. y \<in># elements F hs \<Longrightarrow> \<not> pred F y x"
    and path: "\<And>q. on_path (length (data hs)) (ideal F (length (data hs)) x) q i \<Longrightarrow> \<not> IsEmpty F (data hs ! q)"
  defines "hs' \<equiv> hs\<lparr>data := (data hs)[i := x], num_elements := num_elements hs + 1\<rparr>"
  shows "set_ok F fp hs'" "elements F hs' = add_mset x (elements F hs)"
proof -
  show el: "elements F hs' = add_mset x (elements F hs)"
    using contents_update [OF i x] by (simp add: elements_def hs'_def)
  have "equivp (pred F)" using F by (simp add: fns_ok_def)
  then have "unique_elements F (elements F hs')" using el set_ok_parts(3) [OF ok] unique_add none by metis
  then show "set_ok F fp hs'"
    using el set_ok_parts [OF ok] probe_ok_put [OF set_ok_parts(1) [OF ok] i x path] room
    by (intro set_okI) (simp_all add: NumBuckets_def hs'_def)
qed

lemma insert_ok:
  assumes F: "fns_ok F" and L: "load_ok fp (min_load_factor hs) (max_load_factor hs)" and ok: "set_ok F fp hs"
    and x: "\<not> IsEmpty F x"
  obtains i b hs' where "HashSet_insert F fp x hs = Some (i, b, hs')" "set_ok F fp hs'" "i < NumBuckets hs'"
    "pred F (data hs' ! i) x" "b \<longleftrightarrow> (\<forall>y \<in># elements F hs. \<not> pred F y x)"
    "elements F hs' = (if b then add_mset x (elements F hs) else elements F hs)"
    "max_load_factor hs' = max_load_factor hs" "min_load_factor hs' = min_load_factor hs"
proof -
  obtain hs1 where m: "maybe_expand F fp hs = Some hs1" and ok1: "set_ok F fp hs1" and el: "elements F hs1 = elements F hs"
    and room: "size (elements F hs1) + 1 < NumBuckets hs1" and lf: "max_load_factor hs1 = max_load_factor hs"
    "min_load_factor hs1 = min_load_factor hs"
    using maybe_expand_ok [OF F L ok] by blast
  let ?d = "data hs1" and ?n = "length (data hs1)"
  have free: "size (contents F ?d) < ?n" using room by (simp add: elements_def NumBuckets_def)
  have eq: "equivp (pred F)" and h: "pred F y x \<Longrightarrow> hashfn F y = hashfn F x" for y using F by (simp_all add: fns_ok_def)
  show thesis
  proof (rule find_result [OF set_ok_parts(1) [OF ok1] free h])
    fix i
    assume r: "FindIndexImpl (IsEmpty F) (\<lambda>y. pred F y x) ?d (IndexForHash ?n (hashfn F x)) = Some (True, i)"
      "i < ?n" "\<not> IsEmpty F (?d ! i)" "pred F (?d ! i) x"
    then have "\<exists>y \<in># elements F hs. pred F y x" using el by (metis in_elements NumBuckets_def)
    then show thesis using that [of i False hs1] r m ok1 el lf
      by (auto simp: HashSet_insert_def InsertWithHash_def NumBuckets_def)
  next
    fix i
    assume r: "FindIndexImpl (IsEmpty F) (\<lambda>y. pred F y x) ?d (IndexForHash ?n (hashfn F x)) = Some (False, i)"
      "i < ?n" "IsEmpty F (?d ! i)" "\<And>j. j < ?n \<Longrightarrow> \<not> IsEmpty F (?d ! j) \<Longrightarrow> \<not> pred F (?d ! j) x"
      "\<And>q. on_path ?n (IndexForHash ?n (hashfn F x)) q i \<Longrightarrow> \<not> IsEmpty F (?d ! q)"
    let ?hs = "hs1\<lparr>data := ?d[i := x], num_elements := num_elements hs1 + 1\<rparr>"
    have none: "\<And>y. y \<in># elements F hs1 \<Longrightarrow> \<not> pred F y x" using r(4) by (auto simp: in_elements NumBuckets_def)
    have put: "set_ok F fp ?hs" "elements F ?hs = add_mset x (elements F hs1)"
      using put_ok [OF F ok1 r(2,3) x room none] r(5) by (auto simp: ideal_def)
    have "pred F x x" using eq by (simp add: equivp_reflp)
    then show thesis using that [of i True ?hs] r m el put lf none
      by (simp add: HashSet_insert_def InsertWithHash_def NumBuckets_def)
  qed
qed

lemma erase_ok:
  assumes F: "fns_ok F" and ok: "set_ok F fp hs" and i: "i < NumBuckets hs" "\<not> IsEmpty F (data hs ! i)"
  obtains k hs' where "HashSet_erase F i hs = Some (k, hs')" "set_ok F fp hs'"
    "elements F hs' = elements F hs - {#data hs ! i#}" "NumBuckets hs' = NumBuckets hs"
    "max_load_factor hs' = max_load_factor hs" "min_load_factor hs' = min_load_factor hs"
    "contents F (drop (Suc i) (data hs)) \<subseteq># contents F (drop i (data hs'))"
    "k = i \<and> \<not> IsEmpty F (data hs' ! i) \<or>
     k = NextNonEmptySlot (IsEmpty F) (data hs') i \<and> data hs' = (data hs)[i := MakeEmpty F]"
proof -
  have e: "IsEmpty F (MakeEmpty F)" using F by (simp add: fns_ok_def)
  have free: "size (contents F (data hs)) < length (data hs)"
    using set_ok_parts(4) [OF ok] i(1) by (auto simp: elements_def NumBuckets_def)
  obtain d' fl where r: "erase_loop F (data hs) i i False = Some (d', fl)" "length d' = length (data hs)" "probe_ok F d'"
    "contents F d' = contents F (data hs) - {#data hs ! i#}"
    "contents F (drop (Suc i) (data hs)) \<subseteq># contents F (drop i d')"
    "if fl then \<not> IsEmpty F (d' ! i) else d' = (data hs)[i := MakeEmpty F]"
    by (rule erase_result [OF set_ok_parts(1) [OF ok] free e i [unfolded NumBuckets_def]])
  let ?hs = "hs\<lparr>data := d', num_elements := num_elements hs - 1\<rparr>"
  have el: "elements F ?hs = elements F hs - {#data hs ! i#}" using r(4) by (simp add: elements_def)
  have "data hs ! i \<in># elements F hs" using i by (auto simp: in_elements)
  then obtain M where M: "elements F hs = add_mset (data hs ! i) M" by (blast dest: multi_member_split)
  then have "unique_elements F (elements F ?hs)" using unique_diff set_ok_parts(3) [OF ok] el by metis
  then have "set_ok F fp ?hs"
    using set_ok_parts [OF ok] r(2,3) el M i(1) by (intro set_okI) (auto simp: NumBuckets_def)
  then show thesis using that [of _ ?hs] r el by (simp add: HashSet_erase_def NumBuckets_def)
qed

end
