(* ===== verification/HashSetIter.thy ===== *)
theory HashSetIter
  imports HashSetOps
begin

text \<open>
  Iterating over the hash set and checking it: the loop from \<open>begin()\<close> to \<open>end()\<close>, erasing inside it, and \<open>Verify\<close>.
\<close>

section \<open>Iteration\<close>

text \<open>The elements a loop sees that advances an iterator from \<open>index\<close> until it equals \<open>end()\<close>.\<close>

function iterate :: "'a set_fns \<Rightarrow> ('a, 'd) hash_set \<Rightarrow> nat \<Rightarrow> 'a list" where
  "iterate F hs index =
     (if index < end_index hs
      then data hs ! index # iterate F hs (NextNonEmptySlot (IsEmpty F) (data hs) index) else [])"
  by auto

lemma NextNonEmptySlot_greater: "index < NextNonEmptySlot is_empty d index"
  by (induction is_empty d index rule: NextNonEmptySlot.induct) (subst NextNonEmptySlot.simps, fastforce simp: Let_def)

termination iterate
  by (relation "measure (\<lambda>(_, hs, index). end_index hs - index)")
    (use NextNonEmptySlot_greater in \<open>auto intro: diff_less_mono2\<close>)

declare iterate.simps [simp del]

lemma NextNonEmptySlot_result:
  assumes "index < length d"
  shows "filter (\<lambda>x. \<not> is_empty x) (drop (NextNonEmptySlot is_empty d index) d) = filter (\<lambda>x. \<not> is_empty x) (drop (Suc index) d)
    \<and> (NextNonEmptySlot is_empty d index = length d \<or>
       NextNonEmptySlot is_empty d index < length d \<and> \<not> is_empty (d ! NextNonEmptySlot is_empty d index))"
  using assms
proof (induction is_empty d index rule: NextNonEmptySlot.induct)
  case (1 is_empty d index)
  show ?case
  proof (cases "index + 1 < length d \<and> is_empty (d ! (index + 1))")
    case True
    then have "filter (\<lambda>x. \<not> is_empty x) (drop (Suc index) d) = filter (\<lambda>x. \<not> is_empty x) (drop (Suc (Suc index)) d)"
      by (simp flip: Cons_nth_drop_Suc)
    then show ?thesis using 1 True by (subst (1 2 3 4) NextNonEmptySlot.simps) simp
  next
    case False
    then have "NextNonEmptySlot is_empty d index = index + 1" by (subst NextNonEmptySlot.simps) auto
    then show ?thesis using False 1(2) by auto
  qed
qed

definition at_element :: "'a set_fns \<Rightarrow> ('a, 'd) hash_set \<Rightarrow> nat \<Rightarrow> bool" where
  "at_element F hs index \<longleftrightarrow> index = end_index hs \<or> index < end_index hs \<and> \<not> IsEmpty F (data hs ! index)"

lemma iterate_result:
  assumes "at_element F hs index"
  shows "iterate F hs index = filter (\<lambda>x. \<not> IsEmpty F x) (drop index (data hs))"
  using assms
proof (induction F hs index rule: iterate.induct)
  case (1 F hs index)
  show ?case
  proof (cases "index < end_index hs")
    case True
    then have i: "index < length (data hs)" "\<not> IsEmpty F (data hs ! index)"
      using 1(2) by (auto simp: end_index_def NumBuckets_def at_element_def)
    note nxt = NextNonEmptySlot_result [OF i(1), of "IsEmpty F"]
    then have "iterate F hs (NextNonEmptySlot (IsEmpty F) (data hs) index) =
        filter (\<lambda>x. \<not> IsEmpty F x) (drop (Suc index) (data hs))"
      using 1(1) [OF True] by (simp add: at_element_def end_index_def NumBuckets_def)
    then show ?thesis using i True by (subst iterate.simps) (simp flip: Cons_nth_drop_Suc)
  next
    case False
    then show ?thesis using 1(2)
      by (subst iterate.simps) (auto simp: at_element_def end_index_def NumBuckets_def)
  qed
qed

lemma begin_result:
  "at_element F hs (begin_index F hs) \<and>
   filter (\<lambda>x. \<not> IsEmpty F x) (drop (begin_index F hs) (data hs)) = filter (\<lambda>x. \<not> IsEmpty F x) (data hs)"
proof (cases "NumBuckets hs \<noteq> 0 \<and> IsEmpty F (data hs ! 0)")
  case True
  then have "0 < length (data hs)" by (simp add: NumBuckets_def)
  moreover have "filter (\<lambda>x. \<not> IsEmpty F x) (drop (Suc 0) (data hs)) = filter (\<lambda>x. \<not> IsEmpty F x) (data hs)"
    using True by (cases "data hs") auto
  ultimately show ?thesis using NextNonEmptySlot_result [of 0 "data hs" "IsEmpty F"] True
    by (simp add: begin_index_def at_element_def end_index_def NumBuckets_def)
next
  case False
  then show ?thesis by (auto simp: begin_index_def at_element_def end_index_def NumBuckets_def)
qed

lemma erase_iterate:
  assumes F: "fns_ok F" and ok: "set_ok F fp hs" and i: "i < NumBuckets hs" "\<not> IsEmpty F (data hs ! i)"
  obtains k hs' where "HashSet_erase F i hs = Some (k, hs')" "set_ok F fp hs'"
    "elements F hs' = elements F hs - {#data hs ! i#}" "at_element F hs' k"
    "mset (iterate F hs (NextNonEmptySlot (IsEmpty F) (data hs) i)) \<subseteq># mset (iterate F hs' k)"
proof (rule erase_ok [OF F ok i])
  fix k hs'
  assume r: "HashSet_erase F i hs = Some (k, hs')" "set_ok F fp hs'" "elements F hs' = elements F hs - {#data hs ! i#}"
    "NumBuckets hs' = NumBuckets hs" "contents F (drop (Suc i) (data hs)) \<subseteq># contents F (drop i (data hs'))"
    and k: "k = i \<and> \<not> IsEmpty F (data hs' ! i) \<or>
      k = NextNonEmptySlot (IsEmpty F) (data hs') i \<and> data hs' = (data hs)[i := MakeEmpty F]"
  note d = at_element_def end_index_def NumBuckets_def
  have i': "i < length (data hs)" "i < length (data hs')" using i(1) r(4) by (simp_all add: NumBuckets_def)
  note nxt = NextNonEmptySlot_result [OF i'(1), of "IsEmpty F"] NextNonEmptySlot_result [OF i'(2), of "IsEmpty F"]
  have rest: "iterate F hs (NextNonEmptySlot (IsEmpty F) (data hs) i) = filter (\<lambda>x. \<not> IsEmpty F x) (drop (Suc i) (data hs))"
    using nxt(1) iterate_result [of F hs] by (simp add: d)
  have k': "at_element F hs' k" using k i' nxt(2) by (auto simp: d)
  have "mset (filter (\<lambda>x. \<not> IsEmpty F x) (drop (Suc i) (data hs))) \<subseteq># mset (filter (\<lambda>x. \<not> IsEmpty F x) (drop k (data hs')))"
    using k
  proof
    assume "k = i \<and> \<not> IsEmpty F (data hs' ! i)"
    then show ?thesis using r(5) by (simp add: contents_def)
  next
    assume "k = NextNonEmptySlot (IsEmpty F) (data hs') i \<and> data hs' = (data hs)[i := MakeEmpty F]"
    then show ?thesis using nxt(2) by (simp add: drop_update_cancel)
  qed
  then show thesis using that [OF r(1-3) k'] rest iterate_result [OF k'] by simp
qed

section \<open>Verification\<close>

text \<open>Taking the element of a slot out, the first free slot from its ideal index on is that slot exactly when no slot
  before it was free.\<close>

lemma reinserts_iff:
  assumes "i < length d" "IsEmpty F E" "a < length d"
  obtains f where "FirstAvailableSlot (IsEmpty F) (d[i := E]) a = Some f"
    "f = i \<longleftrightarrow> (\<forall>q. on_path (length d) a q i \<longrightarrow> \<not> IsEmpty F (d ! q))"
proof -
  let ?d = "d[i := E]"
  obtain f where f: "f < length ?d" "IsEmpty F (?d ! f)" "\<And>q. on_path (length ?d) a q f \<Longrightarrow> \<not> IsEmpty F (?d ! q)"
    by (rule first_empty [where is_empty = "IsEmpty F" and d = ?d and g = i and i = a]) (use assms in auto)
  have s: "FirstAvailableSlot (IsEmpty F) ?d a = Some f"
    by (rule FirstAvailableSlot_result) (use f assms in auto)
  have "f = i" if free: "\<And>q. on_path (length d) a q i \<Longrightarrow> \<not> IsEmpty F (d ! q)"
  proof (rule ccontr)
    assume ne: "f \<noteq> i"
    then have "cdist (length d) a f \<noteq> cdist (length d) a i" using cdist_inj [of a "length d" f i] assms f by simp
    moreover have "\<not> on_path (length d) a f i" using free [of f] f(2) ne by auto
    ultimately have "on_path (length d) a i f" using f(1) assms(1) by (auto simp: on_path_def)
    then show False using f(3) [of i] assms by simp
  qed
  moreover have "\<not> IsEmpty F (d ! q)" if "f = i" "on_path (length d) a q i" for q
    using f(3) [of q] that by (cases "q = i") (auto simp: on_path_def)
  ultimately show thesis using that [OF s] by blast
qed

definition settled :: "'a set_fns \<Rightarrow> 'a list \<Rightarrow> nat \<Rightarrow> bool" where
  "settled F d i \<longleftrightarrow> (\<forall>q. on_path (length d) (ideal F (length d) (d ! i)) q i \<longrightarrow> \<not> IsEmpty F (d ! q))"

lemma probe_ok_settled: "probe_ok F d \<longleftrightarrow> (\<forall>i < length d. \<not> IsEmpty F (d ! i) \<longrightarrow> settled F d i)"
  by (simp add: probe_ok_def settled_def)

lemma Verify_loop_result:
  assumes "IsEmpty F (MakeEmpty F)" "\<forall>i \<in> set is. i < length d"
  shows "\<exists>n. Verify_loop F d is = Some n \<and> (n = 0 \<longleftrightarrow> (\<forall>i \<in> set is. \<not> IsEmpty F (d ! i) \<longrightarrow> settled F d i))"
  using assms(2)
proof (induction "is")
  case (Cons i "is")
  have i: "i < length d" using Cons(2) by simp
  obtain n where n: "Verify_loop F d is = Some n" "n = 0 \<longleftrightarrow> (\<forall>i \<in> set is. \<not> IsEmpty F (d ! i) \<longrightarrow> settled F d i)"
    using Cons by auto
  obtain f where "FirstAvailableSlot (IsEmpty F) (d[i := MakeEmpty F]) (ideal F (length d) (d ! i)) = Some f"
    "f = i \<longleftrightarrow> settled F d i"
    unfolding settled_def by (rule reinserts_iff [where F = F, OF i assms(1) ideal_less [OF i]])
  then show ?case using n by (auto simp: ideal_def)
qed simp

lemma Verify_result:
  assumes "IsEmpty F (MakeEmpty F)"
  shows "\<exists>n. Verify F hs = Some n \<and> (n = 0 \<longleftrightarrow> probe_ok F (data hs))"
proof -
  have "(\<forall>i \<in> set [0..<NumBuckets hs]. \<not> IsEmpty F (data hs ! i) \<longrightarrow> settled F (data hs) i) \<longleftrightarrow> probe_ok F (data hs)"
    by (auto simp: probe_ok_settled NumBuckets_def)
  then show ?thesis
    using Verify_loop_result [OF assms, of "[0..<NumBuckets hs]" "data hs"] by (simp add: Verify_def NumBuckets_def)
qed

end
