(* ===== verification/HashSetLoad.thy ===== *)
theory HashSetLoad
  imports HashSetOps
begin

text \<open>
  The operations of the hash set that depend on the load factors: reserving, shrinking, changing the factors and
  inserting what is known to be absent.
\<close>

section \<open>What is needed of the products and quotients\<close>

text \<open>Products with the maximum load factor grow with the number of buckets, without bound.\<close>

definition reserve_ok :: "'d fp_ops \<Rightarrow> 'd \<Rightarrow> bool" where
  "reserve_ok fp max_load \<longleftrightarrow>
     mono (\<lambda>n. fp_times fp n max_load) \<and> (\<forall>k. \<exists>n. k < fp_times fp n max_load)"

text \<open>The table that the maximum load factor asks for has an empty slot.\<close>

definition shrink_ok :: "'d fp_ops \<Rightarrow> 'd \<Rightarrow> bool" where
  "shrink_ok fp max_load \<longleftrightarrow> (\<forall>n. n < max kMinBuckets (fp_over fp n max_load))"

definition mean_ok :: "'d fp_ops \<Rightarrow> 'd \<Rightarrow> 'd \<Rightarrow> bool" where
  "mean_ok fp min_load max_load \<longleftrightarrow> (\<forall>n. n < max kMinBuckets (fp_over_mean fp n min_load max_load))"

lemma set_ok_size: "set_ok F fp hs \<Longrightarrow> HashSet_size hs = size (elements F hs)"
  by (simp add: HashSet_size_def set_ok_parts(2))

section \<open>Reserving\<close>

lemma reserve_buckets_result:
  assumes "reserve_ok fp mx"
  shows "\<exists>k \<ge> b. reserve_buckets fp mx n b = Some k \<and> n + 1 < fp_times fp k mx"
proof -
  obtain t where "n + 1 < fp_times fp t mx" using assms by (auto simp: reserve_ok_def)
  then show ?thesis
  proof (induction "t - b" arbitrary: b rule: less_induct)
    case less
    show ?case
    proof (cases "fp_times fp b mx \<le> n + 1")
      case True
      moreover have "fp_times fp t mx \<le> fp_times fp b mx" if "t \<le> b"
        using assms monoD [of "\<lambda>n. fp_times fp n mx", OF _ that] by (simp add: reserve_ok_def)
      ultimately have "\<not> t \<le> b" using less(2) by fastforce
      then have "\<exists>k \<ge> b + 1. reserve_buckets fp mx n (b + 1) = Some k \<and> n + 1 < fp_times fp k mx"
        using less(1) [of "b + 1"] less(2) by simp
      then show ?thesis using True by (subst reserve_buckets.simps) auto
    next
      case False
      then show ?thesis by (subst reserve_buckets.simps) auto
    qed
  qed
qed

lemma reserve_result:
  assumes F: "fns_ok F" and ok: "set_ok F fp hs" and R: "reserve_ok fp (max_load_factor hs)"
  obtains hs' where "HashSet_reserve F fp n hs = Some hs'" "set_ok F fp hs'" "elements F hs' = elements F hs"
    "n + 1 < elements_until_expand hs'" "max_load_factor hs' = max_load_factor hs" "min_load_factor hs' = min_load_factor hs"
proof -
  let ?mx = "max_load_factor hs"
  obtain k where k: "reserve_buckets fp ?mx n (fp_over fp n ?mx) = Some k" "n + 1 < fp_times fp k ?mx"
    using reserve_buckets_result [OF R] by blast
  have grow: "n + 1 < fp_times fp m ?mx" if "k \<le> m" for m
    using k(2) R monoD [of "\<lambda>n. fp_times fp n ?mx", OF _ that] by (simp add: reserve_ok_def)
  show thesis
  proof (cases "k > NumBuckets hs")
    case True
    then have room: "size (elements F hs) < max kMinBuckets k" using set_ok_parts(2,4) [OF ok]
      by (auto simp: in_elements NumBuckets_def elements_def contents_def kMinBuckets_def)
    show thesis
    proof (rule Resize_ok [OF F ok room])
      fix hs'
      assume r: "Resize F fp k hs = Some hs'" "set_ok F fp hs'" "elements F hs' = elements F hs"
        "NumBuckets hs' = max kMinBuckets k" "max_load_factor hs' = ?mx" "min_load_factor hs' = min_load_factor hs"
      then have "n + 1 < elements_until_expand hs'" using set_ok_parts(5) [OF r(2)] grow [of "max kMinBuckets k"] by simp
      then show thesis using that r k True by (simp add: HashSet_reserve_def)
    qed
  next
    case False
    then show thesis
      using that [of hs] ok k(1) set_ok_parts(5) [OF ok] grow [of "NumBuckets hs"] by (simp add: HashSet_reserve_def)
  qed
qed

section \<open>Shrinking and changing the load factors\<close>

lemma shrink_result:
  assumes F: "fns_ok F" and ok: "set_ok F fp hs" and S: "shrink_ok fp (max_load_factor hs)"
  obtains hs' where "ShrinkToMaximumLoad F fp hs = Some hs'" "set_ok F fp hs'" "elements F hs' = elements F hs"
    "NumBuckets hs' = max kMinBuckets (fp_over fp (HashSet_size hs) (max_load_factor hs))"
    "max_load_factor hs' = max_load_factor hs" "min_load_factor hs' = min_load_factor hs"
proof -
  have "size (elements F hs) < max kMinBuckets (fp_over fp (HashSet_size hs) (max_load_factor hs))"
    using S set_ok_size [OF ok] by (metis shrink_ok_def)
  then show thesis using Resize_ok [OF F ok] that by (metis ShrinkToMaximumLoad_def)
qed

lemma SetLoadFactor_result:
  assumes F: "fns_ok F" and ok: "set_ok F fp hs" and M: "mean_ok fp mn mx"
  obtains hs' where "SetLoadFactor F fp mn mx hs = Some hs'" "set_ok F fp hs'" "elements F hs' = elements F hs"
    "min_load_factor hs' = mn" "max_load_factor hs' = mx"
proof -
  let ?hs = "hs\<lparr>min_load_factor := mn, max_load_factor := mx, elements_until_expand := fp_times fp (NumBuckets hs) mx\<rparr>"
  have el: "elements F ?hs = elements F hs" by (simp add: elements_def)
  have ok1: "set_ok F fp ?hs" using ok by (auto simp: set_ok_def NumBuckets_def)
  show thesis
  proof (cases "fp_load_exceeds fp (HashSet_size ?hs) (NumBuckets ?hs) mx")
    case True
    have "size (elements F ?hs) < max kMinBuckets (fp_over_mean fp (HashSet_size ?hs) mn mx)"
      using M set_ok_size [OF ok1] by (metis mean_ok_def)
    then obtain hs' where "Resize F fp (fp_over_mean fp (HashSet_size ?hs) mn mx) ?hs = Some hs'" "set_ok F fp hs'"
      "elements F hs' = elements F ?hs" "max_load_factor hs' = max_load_factor ?hs" "min_load_factor hs' = min_load_factor ?hs"
      by (rule Resize_ok [OF F ok1])
    then have "Resize F fp (fp_over_mean fp (HashSet_size ?hs) mn mx) ?hs = Some hs'" "set_ok F fp hs'"
      "elements F hs' = elements F hs" "max_load_factor hs' = mx" "min_load_factor hs' = mn" using el by simp_all
    then show thesis using that [of hs'] True by (simp add: SetLoadFactor_def Let_def)
  next
    case False
    then show thesis using that [of ?hs] ok1 el by (simp add: SetLoadFactor_def Let_def)
  qed
qed

section \<open>Inserting an absent element\<close>

lemma Put_result:
  assumes F: "fns_ok F" and L: "load_ok fp (min_load_factor hs) (max_load_factor hs)" and ok: "set_ok F fp hs"
    and x: "\<not> IsEmpty F x" and absent: "\<And>y. y \<in># elements F hs \<Longrightarrow> \<not> pred F y x"
  obtains hs' where "PutWithHash F fp x (hashfn F x) hs = Some hs'" "set_ok F fp hs'"
    "elements F hs' = add_mset x (elements F hs)" "max_load_factor hs' = max_load_factor hs"
    "min_load_factor hs' = min_load_factor hs"
proof -
  obtain hs1 where m: "maybe_expand F fp hs = Some hs1" and ok1: "set_ok F fp hs1" and el: "elements F hs1 = elements F hs"
    and room: "size (elements F hs1) + 1 < NumBuckets hs1" and lf: "max_load_factor hs1 = max_load_factor hs"
    "min_load_factor hs1 = min_load_factor hs"
    using maybe_expand_ok [OF F L ok] by blast
  let ?d = "data hs1" and ?n = "length (data hs1)"
  have free: "size (contents F ?d) < ?n" using room by (simp add: elements_def NumBuckets_def)
  show thesis
  proof (rule find_result [OF set_ok_parts(1) [OF ok1] free, of "\<lambda>_. False" "hashfn F x"])
    fix i
    assume r: "FindIndexImpl (IsEmpty F) (\<lambda>_. False) ?d (IndexForHash ?n (hashfn F x)) = Some (False, i)"
      "i < ?n" "IsEmpty F (?d ! i)" "\<And>q. on_path ?n (IndexForHash ?n (hashfn F x)) q i \<Longrightarrow> \<not> IsEmpty F (?d ! q)"
    let ?hs = "hs1\<lparr>data := ?d[i := x], num_elements := num_elements hs1 + 1\<rparr>"
    have put: "set_ok F fp ?hs" "elements F ?hs = add_mset x (elements F hs1)"
      using put_ok [OF F ok1 r(2,3) x] r(4) room absent el by (auto simp: ideal_def)
    then show thesis using that [of ?hs] r m el lf by (simp add: PutWithHash_def NumBuckets_def)
  qed auto
qed

end
