(* ===== verification/DataHash.thy ===== *)
theory DataHash
  imports Prelude
begin

text \<open>
  The hash of a contiguous container (\<^verbatim>\<open>libartbase/base/data_hash.h\<close>): MurmurHash3 on the bytes, and the bytewise
  hash that is its alternative.  The 32-bit blocks are loaded little-endian, as on every supported target.
\<close>

definition kMurmur3Seed :: u32 where "kMurmur3Seed = 0"
definition kMurmur3C1 :: u32 where "kMurmur3C1 = 0xcc9e2d51"
definition kMurmur3C2 :: u32 where "kMurmur3C2 = 0x1b873593"
definition kMurmur3R1 :: nat where "kMurmur3R1 = 15"
definition kMurmur3R2 :: nat where "kMurmur3R2 = 13"
definition kMurmur3M :: u32 where "kMurmur3M = 5"
definition kMurmur3N :: u32 where "kMurmur3N = 0xe6546b64"

definition Murmur3Start :: u32 where
  "Murmur3Start = kMurmur3Seed"

definition Murmur3Update :: "u32 \<Rightarrow> u32 \<Rightarrow> u32" where
  "Murmur3Update hash block =
     (let k = block * kMurmur3C1;
          k = (push_bit kMurmur3R1 k OR drop_bit (32 - kMurmur3R1) k);
          k = k * kMurmur3C2;
          hash = hash XOR k
      in (push_bit kMurmur3R2 hash OR drop_bit (32 - kMurmur3R2) hash) * kMurmur3M + kMurmur3N)"

definition Murmur3UpdatePartial :: "u32 \<Rightarrow> u32 \<Rightarrow> u32" where
  "Murmur3UpdatePartial hash block =
     (let k = block * kMurmur3C1;
          k = (push_bit kMurmur3R1 k OR drop_bit (32 - kMurmur3R1) k);
          k = k * kMurmur3C2
      in hash XOR k)"

definition Murmur3Finish :: "u32 \<Rightarrow> u32 \<Rightarrow> u32" where
  "Murmur3Finish hash length_in_bytes =
     (let hash = hash XOR length_in_bytes;
          hash = hash XOR drop_bit 16 hash;
          hash = hash * 0x85ebca6b;
          hash = hash XOR drop_bit 13 hash;
          hash = hash * 0xc2b2ae35
      in hash XOR drop_bit 16 hash)"

text \<open>The blocks, then the switch over the bytes that are left.\<close>

fun Murmur3_loop :: "u32 \<Rightarrow> u8 list \<Rightarrow> u32" where
  "Murmur3_loop hash (b0 # b1 # b2 # b3 # rest) =
     Murmur3_loop (Murmur3Update hash
       (ucast b0 OR push_bit 8 (ucast b1) OR push_bit 16 (ucast b2) OR push_bit 24 (ucast b3))) rest"
| "Murmur3_loop hash [t0, t1, t2] =
     Murmur3UpdatePartial hash (((0 XOR push_bit 16 (ucast t2)) XOR push_bit 8 (ucast t1)) XOR ucast t0)"
| "Murmur3_loop hash [t0, t1] = Murmur3UpdatePartial hash ((0 XOR push_bit 8 (ucast t1)) XOR ucast t0)"
| "Murmur3_loop hash [t0] = Murmur3UpdatePartial hash (0 XOR ucast t0)"
| "Murmur3_loop hash [] = hash"

definition DataHash :: "u8 list \<Rightarrow> u32" where
  "DataHash array =
     (let length_in_bytes = of_nat (length array)
      in Murmur3Finish (Murmur3_loop Murmur3Start (take (unat length_in_bytes) array)) length_in_bytes)"

definition HashBytesStart :: u64 where "HashBytesStart = 0x811c9dc5"

definition HashBytesUpdate :: "u64 \<Rightarrow> u8 \<Rightarrow> u64" where
  "HashBytesUpdate hash v = (hash * 16777619) XOR ucast v"

definition HashBytesFinish :: "u64 \<Rightarrow> u64" where
  "HashBytesFinish hash =
     (let hash = hash + push_bit 13 hash;
          hash = hash XOR drop_bit 7 hash;
          hash = hash + push_bit 3 hash;
          hash = hash XOR drop_bit 17 hash
      in hash + push_bit 5 hash)"

definition HashBytes :: "u8 list \<Rightarrow> u64" where
  "HashBytes bytes = HashBytesFinish (foldl HashBytesUpdate HashBytesStart bytes)"

section \<open>The finalizer\<close>

text \<open>A right shift by at least half the width, added without carry, is its own inverse.\<close>

lemma drop_all: "32 \<le> k \<Longrightarrow> drop_bit k (x :: u32) = 0"
  unfolding word_unat_eq_iff unat_drop_bit_div using less_le_trans [OF unsigned_less [of x, where 'a = nat], of "2 ^ k"] power_increasing [of 32 k "2::nat"] by simp

lemma xor_cancel: "a XOR (a XOR b) = (b :: u32)"
  unfolding xor.assoc [symmetric] xor_self_eq xor.left_neutral ..

lemma xor_twice: "(x XOR a) XOR (a XOR b) = x XOR (b :: u32)"
  unfolding xor.assoc xor_cancel ..

lemma xor_shift_inverse:
  fixes x :: u32
  assumes "16 \<le> k"
  shows "(x XOR drop_bit k x) XOR drop_bit k (x XOR drop_bit k x) = x"
proof -
  have "drop_bit (k + k) x = 0" by (rule drop_all) (use assms in simp)
  then show ?thesis unfolding drop_bit_xor drop_bit_drop_bit xor_twice by simp
qed

lemma xor_shift_13_inverse:
  fixes x :: u32
  shows "(x XOR drop_bit 13 x) XOR drop_bit 13 (x XOR drop_bit 13 x) XOR drop_bit 26 (x XOR drop_bit 13 x) = x"
proof -
  have "(x XOR drop_bit 13 x) XOR drop_bit 13 (x XOR drop_bit 13 x) = x XOR drop_bit 26 x"
    unfolding drop_bit_xor drop_bit_drop_bit xor_twice by simp
  moreover have "drop_bit 26 (x XOR drop_bit 13 x) = drop_bit 26 x"
    unfolding drop_bit_xor drop_bit_drop_bit using drop_all [of "26 + 13" x] by simp
  ultimately show ?thesis by (simp add: xor.assoc)
qed

lemma xor_shift_inj:
  fixes x y :: u32
  shows "16 \<le> k \<Longrightarrow> x XOR drop_bit k x = y XOR drop_bit k y \<longleftrightarrow> x = y"
    and "x XOR drop_bit 13 x = y XOR drop_bit 13 y \<longleftrightarrow> x = y"
proof -
  show "x XOR drop_bit k x = y XOR drop_bit k y \<longleftrightarrow> x = y" if "16 \<le> k"
    by (rule iffI, subst xor_shift_inverse [OF that, of x, symmetric], subst xor_shift_inverse [OF that, of y, symmetric])
      simp_all
  show "x XOR drop_bit 13 x = y XOR drop_bit 13 y \<longleftrightarrow> x = y"
    by (rule iffI, subst xor_shift_13_inverse [of x, symmetric], subst xor_shift_13_inverse [of y, symmetric]) simp_all
qed

lemma mult_unit_inj:
  fixes x y c d :: u32
  assumes "c * d = 1"
  shows "x * c = y * c \<longleftrightarrow> x = y"
proof
  assume "x * c = y * c"
  then have "x * (c * d) = y * (c * d)" unfolding mult.assoc [symmetric] by (rule arg_cong)
  then show "x = y" using assms by simp
qed simp

lemma xor_right_inj: "x XOR c = y XOR c \<longleftrightarrow> x = (y :: u32)" "c XOR x = c XOR y \<longleftrightarrow> x = y"
proof -
  show "c XOR x = c XOR y \<longleftrightarrow> x = y" using xor_cancel [of c x] xor_cancel [of c y] by metis
  then show "x XOR c = y XOR c \<longleftrightarrow> x = y" by (simp only: xor.commute [of x] xor.commute [of y])
qed

text \<open>The rotations.\<close>

definition rotate :: "nat \<Rightarrow> u32 \<Rightarrow> u32" where
  "rotate r x = push_bit r x OR drop_bit (32 - r) x"

lemma bit_rotate:
  "r \<le> 32 \<Longrightarrow> bit (rotate r x) n \<longleftrightarrow> n < 32 \<and> (if r \<le> n then bit x (n - r) else bit x (32 - r + n))"
  using bit_imp_le_length [of x "32 - r + n"]
  by (auto simp: rotate_def bit_or_iff bit_push_bit_iff bit_drop_bit_eq)

lemma rotate_inj: "r \<le> 32 \<Longrightarrow> rotate r x = rotate r y \<longleftrightarrow> x = y"
proof
  assume r: "r \<le> 32" and eq: "rotate r x = rotate r y"
  show "x = y"
  proof (rule bit_word_eqI)
    fix n
    assume n: "n < LENGTH(32)"
    have b: "bit (rotate r x) k \<longleftrightarrow> bit (rotate r y) k" for k using eq by simp
    show "bit x n \<longleftrightarrow> bit y n"
    proof (cases "n + r < 32")
      case True
      then show ?thesis using b [of "n + r"] r by (simp add: bit_rotate)
    next
      case False
      then have "\<not> r \<le> n + r - 32" "n + r - 32 < 32" "32 - r + (n + r - 32) = n" using r n by auto
      then show ?thesis using b [of "n + r - 32"] r by (simp add: bit_rotate)
    qed
  qed
qed simp

section \<open>Every step is injective\<close>

definition Murmur3Block :: "u32 \<Rightarrow> u32" where
  "Murmur3Block block = rotate 15 (block * 0xcc9e2d51) * 0x1b873593"

lemma Murmur3Block_inj: "Murmur3Block x = Murmur3Block y \<longleftrightarrow> x = y"
proof -
  have "(0xcc9e2d51 :: u32) * 0xdee13bb1 = 1" "(0x1b873593 :: u32) * 0x56ed309b = 1" by simp_all
  note inj = mult_unit_inj [OF this(1)] mult_unit_inj [OF this(2)] rotate_inj [of 15, simplified]
  show ?thesis unfolding Murmur3Block_def inj ..
qed

lemma Murmur3_steps:
  "Murmur3Update hash block = rotate 13 (hash XOR Murmur3Block block) * 5 + 0xe6546b64"
  "Murmur3UpdatePartial hash block = hash XOR Murmur3Block block"
  by (simp_all add: Murmur3Update_def Murmur3UpdatePartial_def Murmur3Block_def rotate_def Let_def kMurmur3C1_def
      kMurmur3C2_def kMurmur3R1_def kMurmur3R2_def kMurmur3M_def kMurmur3N_def del: drop_bit_xor push_bit_xor)

lemma Murmur3_step_inj:
  "Murmur3Update h x = Murmur3Update h y \<longleftrightarrow> x = y" "Murmur3Update h x = Murmur3Update h' x \<longleftrightarrow> h = h'"
  "Murmur3UpdatePartial h x = Murmur3UpdatePartial h y \<longleftrightarrow> x = y"
  "Murmur3UpdatePartial h x = Murmur3UpdatePartial h' x \<longleftrightarrow> h = h'"
proof -
  have "(5 :: u32) * 0xcccccccd = 1" by simp
  note inj = mult_unit_inj [OF this] rotate_inj [of 13, simplified] Murmur3Block_inj xor_right_inj add_right_cancel
  show "Murmur3Update h x = Murmur3Update h y \<longleftrightarrow> x = y" "Murmur3Update h x = Murmur3Update h' x \<longleftrightarrow> h = h'"
    "Murmur3UpdatePartial h x = Murmur3UpdatePartial h y \<longleftrightarrow> x = y"
    "Murmur3UpdatePartial h x = Murmur3UpdatePartial h' x \<longleftrightarrow> h = h'"
    unfolding Murmur3_steps inj by (rule refl)+
qed

lemma Murmur3Finish_inj: "Murmur3Finish h1 n = Murmur3Finish h2 n \<longleftrightarrow> h1 = h2"
proof -
  have "(0x85ebca6b :: u32) * 0xa5cb9243 = 1" "(0xc2b2ae35 :: u32) * 0x7ed1b41d = 1" by simp_all
  note inj = mult_unit_inj [OF this(1)] mult_unit_inj [OF this(2)] xor_shift_inj(1) [of 16] xor_shift_inj(2)
  show ?thesis unfolding Murmur3Finish_def Let_def by (simp only: inj order_refl xor_right_inj)
qed

lemma dvd_4_Suc: "4 dvd Suc (Suc (Suc (Suc n))) \<longleftrightarrow> 4 dvd n" "\<not> 4 dvd Suc (Suc (Suc 0))" "\<not> 4 dvd Suc (Suc 0)"
  "\<not> 4 dvd Suc 0"
  by presburger+

lemma Murmur3_loop_append:
  "4 dvd length xs \<Longrightarrow> Murmur3_loop h (xs @ ys) = Murmur3_loop (Murmur3_loop h xs) ys"
  by (induction h xs rule: Murmur3_loop.induct) (simp_all add: dvd_4_Suc)

lemma Murmur3_loop_inj: "Murmur3_loop h xs = Murmur3_loop h' xs \<longleftrightarrow> h = h'"
  by (induction h xs arbitrary: h' rule: Murmur3_loop.induct) (simp_all only: Murmur3_loop.simps Murmur3_step_inj)

section \<open>Blocks of bytes\<close>

definition block :: "u8 \<Rightarrow> u8 \<Rightarrow> u8 \<Rightarrow> u8 \<Rightarrow> u32" where
  "block b0 b1 b2 b3 = ucast b0 OR push_bit 8 (ucast b1) OR push_bit 16 (ucast b2) OR push_bit 24 (ucast b3)"

lemma bit_byte: "8 \<le> n \<Longrightarrow> \<not> bit (b :: u8) n"
  using bit_imp_le_length [of b n] by auto

lemma bit_block:
  assumes "n < 8"
  shows "bit (block b0 b1 b2 b3) n = bit b0 n" "bit (block b0 b1 b2 b3) (n + 8) = bit b1 n"
    "bit (block b0 b1 b2 b3) (n + 16) = bit b2 n" "bit (block b0 b1 b2 b3) (n + 24) = bit b3 n"
  using assms by (simp_all add: block_def bit_or_iff bit_push_bit_iff bit_ucast_iff bit_byte)

lemma block_inj: "block a0 a1 a2 a3 = block b0 b1 b2 b3 \<longleftrightarrow> a0 = b0 \<and> a1 = b1 \<and> a2 = b2 \<and> a3 = b3"
proof
  assume eq: "block a0 a1 a2 a3 = block b0 b1 b2 b3"
  show "a0 = b0 \<and> a1 = b1 \<and> a2 = b2 \<and> a3 = b3"
    by (intro conjI; rule bit_word_eqI) (simp_all add: bit_block [of _ a0 a1 a2 a3, symmetric] bit_block [of _ b0 b1 b2 b3] eq)
qed simp

lemma tail_block:
  "((0 XOR push_bit 16 (ucast t2)) XOR push_bit 8 (ucast t1)) XOR ucast t0 = block t0 t1 t2 0"
  "(0 XOR push_bit 8 (ucast t1)) XOR ucast t0 = block t0 t1 0 0" "0 XOR ucast t0 = block t0 0 0 0"
  by (rule bit_word_eqI, auto simp: block_def bit_xor_iff bit_or_iff bit_push_bit_iff bit_ucast_iff bit_byte)+

lemma Murmur3_loop_block_inj:
  assumes "length a = length b" "length a = 4 \<or> length a < 4 \<and> ys = []"
  shows "Murmur3_loop h (a @ ys) = Murmur3_loop h (b @ ys) \<longleftrightarrow> a = b"
proof -
  consider a0 a1 a2 a3 b0 b1 b2 b3 where "a = [a0, a1, a2, a3]" "b = [b0, b1, b2, b3]"
    | a0 a1 a2 b0 b1 b2 where "a = [a0, a1, a2]" "b = [b0, b1, b2]" "ys = []"
    | a0 a1 b0 b1 where "a = [a0, a1]" "b = [b0, b1]" "ys = []"
    | a0 b0 where "a = [a0]" "b = [b0]" "ys = []" | "a = []" "b = []"
    using assms by (auto simp: length_Suc_conv numeral_eq_Suc less_Suc_eq)
  then show ?thesis
  proof cases
    case 1
    then show ?thesis
      by (simp add: Murmur3_loop_inj Murmur3_step_inj block_inj flip: block_def)
  qed (simp_all only: append_Nil2 Murmur3_loop.simps tail_block Murmur3_step_inj block_inj list.inject simp_thms)
qed

text \<open>C33.  MurmurHash3 as used for the elements of a set of strings never collides for two arrays of the same length
  that differ within one four-byte block, the incomplete one at the end included.\<close>

theorem DataHash_block_inj:
  assumes "4 dvd length xs" "length a = length b" "length a = 4 \<or> length a < 4 \<and> ys = []"
    and "length (xs @ a @ ys) < 2 ^ 32"
  shows "DataHash (xs @ a @ ys) = DataHash (xs @ b @ ys) \<longleftrightarrow> a = b"
proof -
  have n: "length (xs @ b @ ys) = length (xs @ a @ ys)" using assms(2) by simp
  have "unat (of_nat (length (xs @ a @ ys)) :: u32) = length (xs @ a @ ys)"
    using assms(4) by (simp only: unat_of_nat) simp
  then have "DataHash (xs @ c @ ys) =
      Murmur3Finish (Murmur3_loop (Murmur3_loop Murmur3Start xs) (c @ ys)) (of_nat (length (xs @ a @ ys)))"
    if "length (xs @ c @ ys) = length (xs @ a @ ys)" for c
    unfolding DataHash_def Let_def that using that by (simp add: Murmur3_loop_append [OF assms(1)])
  from this [of a] this [OF n] show ?thesis
    unfolding Murmur3Finish_inj by (simp only: Murmur3Finish_inj Murmur3_loop_block_inj [OF assms(2,3)])
qed

theorem DataHash_block_inj_witness: "DataHash [1, 2, 3, 4, 5, 6] \<noteq> DataHash [1, 2, 3, 4, 6, 5]"
  using DataHash_block_inj [of "[1, 2, 3, 4]" "[5, 6]" "[6, 5]" "[]"] by (simp add: dvd_4_Suc)

end
