(* ===== verification/HashSetSafety.thy ===== *)
theory HashSetSafety
  imports HashSetIter HashSetLoad DataHash
begin

text \<open>
  The hash set as a set: every sequence of operations ends and answers as the multiset of its elements does, the
  iteration sees every element, and the places where the load factors matter.
\<close>

section \<open>Operations and their meaning\<close>

datatype ('a, 'd) set_op =
  Insert 'a | Put 'a | Find 'a | Erase 'a | Reserve nat | Shrink | SetLoad 'd 'd | Clear

definition erase_key :: "'a set_fns \<Rightarrow> 'a \<Rightarrow> ('a, 'd) hash_set \<Rightarrow> (bool \<times> ('a, 'd) hash_set) option" where
  "erase_key F x hs =
     (case HashSet_find F x hs of
        None \<Rightarrow> None
      | Some i \<Rightarrow> if i = end_index hs then Some (False, hs) else map_option (\<lambda>(_, hs'). (True, hs')) (HashSet_erase F i hs))"

fun set_step :: "'a set_fns \<Rightarrow> 'd fp_ops \<Rightarrow> ('a, 'd) set_op \<Rightarrow> ('a, 'd) hash_set \<Rightarrow> (bool \<times> ('a, 'd) hash_set) option" where
  "set_step F fp (Insert x) hs = map_option (\<lambda>(_, inserted, hs'). (inserted, hs')) (HashSet_insert F fp x hs)"
| "set_step F fp (Put x) hs = map_option (Pair True) (PutWithHash F fp x (hashfn F x) hs)"
| "set_step F fp (Find x) hs = map_option (\<lambda>i. (i \<noteq> end_index hs, hs)) (HashSet_find F x hs)"
| "set_step F fp (Erase x) hs = erase_key F x hs"
| "set_step F fp (Reserve n) hs = map_option (Pair True) (HashSet_reserve F fp n hs)"
| "set_step F fp Shrink hs = map_option (Pair True) (ShrinkToMaximumLoad F fp hs)"
| "set_step F fp (SetLoad mn mx) hs = map_option (Pair True) (SetLoadFactor F fp mn mx hs)"
| "set_step F fp Clear hs = Some (True, HashSet_clear hs)"

fun set_spec :: "('a \<Rightarrow> 'a \<Rightarrow> bool) \<Rightarrow> ('a, 'd) set_op \<Rightarrow> 'a multiset \<Rightarrow> bool \<times> 'a multiset" where
  "set_spec same (Insert x) M = (if \<exists>y \<in># M. same y x then (False, M) else (True, add_mset x M))"
| "set_spec same (Put x) M = (True, add_mset x M)"
| "set_spec same (Find x) M = (\<exists>y \<in># M. same y x, M)"
| "set_spec same (Erase x) M = (\<exists>y \<in># M. same y x, filter_mset (\<lambda>y. \<not> same y x) M)"
| "set_spec same (Reserve _) M = (True, M)"
| "set_spec same Shrink M = (True, M)"
| "set_spec same (SetLoad _ _) M = (True, M)"
| "set_spec same Clear M = (True, {#})"

definition loads_ok :: "'d fp_ops \<Rightarrow> 'd \<Rightarrow> 'd \<Rightarrow> bool" where
  "loads_ok fp mn mx \<longleftrightarrow> load_ok fp mn mx \<and> reserve_ok fp mx \<and> shrink_ok fp mx \<and> mean_ok fp mn mx"

text \<open>What the caller must respect: an empty element is never inserted, \<open>Put\<close> is for absent elements, and the load factors
  are sensible.\<close>

fun op_valid :: "'a set_fns \<Rightarrow> 'd fp_ops \<Rightarrow> ('a, 'd) set_op \<Rightarrow> 'a multiset \<Rightarrow> bool" where
  "op_valid F fp (Insert x) M \<longleftrightarrow> \<not> IsEmpty F x"
| "op_valid F fp (Put x) M \<longleftrightarrow> \<not> IsEmpty F x \<and> (\<forall>y \<in># M. \<not> pred F y x)"
| "op_valid F fp (SetLoad mn mx) M \<longleftrightarrow> loads_ok fp mn mx"
| "op_valid F fp _ M \<longleftrightarrow> True"

fun run_steps :: "('op \<Rightarrow> 's \<Rightarrow> ('r \<times> 's) option) \<Rightarrow> 'op list \<Rightarrow> 's \<Rightarrow> ('r list \<times> 's) option" where
  "run_steps step [] s = Some ([], s)"
| "run_steps step (op # ops) s =
     (case step op s of
        None \<Rightarrow> None
      | Some (r, s') \<Rightarrow> map_option (\<lambda>(rs, s''). (r # rs, s'')) (run_steps step ops s'))"

fun run_spec :: "('op \<Rightarrow> 'm \<Rightarrow> 'r \<times> 'm) \<Rightarrow> 'op list \<Rightarrow> 'm \<Rightarrow> 'r list \<times> 'm" where
  "run_spec spec [] M = ([], M)"
| "run_spec spec (op # ops) M = (let (r, M') = spec op M; (rs, M'') = run_spec spec ops M' in (r # rs, M''))"

fun run_valid :: "('op \<Rightarrow> 'm \<Rightarrow> bool) \<Rightarrow> ('op \<Rightarrow> 'm \<Rightarrow> 'r \<times> 'm) \<Rightarrow> 'op list \<Rightarrow> 'm \<Rightarrow> bool" where
  "run_valid valid spec [] M \<longleftrightarrow> True"
| "run_valid valid spec (op # ops) M \<longleftrightarrow> valid op M \<and> run_valid valid spec ops (snd (spec op M))"

section \<open>The interface\<close>

text \<open>An implementation of sets with operations that may fail to return: each valid operation returns, with the answer of
  the specification, and keeps the invariant.\<close>

locale set_interface =
  fixes invar :: "'s \<Rightarrow> bool" and elems :: "'s \<Rightarrow> 'a multiset"
    and same :: "'a \<Rightarrow> 'a \<Rightarrow> bool" and valid :: "('a, 'd) set_op \<Rightarrow> 'a multiset \<Rightarrow> bool"
    and step :: "('a, 'd) set_op \<Rightarrow> 's \<Rightarrow> (bool \<times> 's) option"
  assumes step_refines: "invar s \<Longrightarrow> valid op (elems s) \<Longrightarrow>
      \<exists>r s'. step op s = Some (r, s') \<and> invar s' \<and> set_spec same op (elems s) = (r, elems s')"
begin

lemma run_refines:
  assumes "invar s" "run_valid valid (set_spec same) ops (elems s)"
  shows "\<exists>rs s'. run_steps step ops s = Some (rs, s') \<and> invar s' \<and> run_spec (set_spec same) ops (elems s) = (rs, elems s')"
  using assms
proof (induction ops arbitrary: s)
  case (Cons op ops)
  then obtain r s1 where s1: "step op s = Some (r, s1)" "invar s1" "set_spec same op (elems s) = (r, elems s1)"
    using step_refines [of s op] by auto
  then obtain rs s' where "run_steps step ops s1 = Some (rs, s')" "invar s'" "run_spec (set_spec same) ops (elems s1) = (rs, elems s')"
    using Cons by fastforce
  then show ?case using s1 by simp
qed simp

lemma find_after_insert:
  assumes "invar s" "valid (Insert x) (elems s)" "same x x" "\<And>M. valid (Find x) M"
  shows "\<exists>r s'. run_steps step [Insert x, Find x] s = Some ([r, True], s')"
  using run_refines [OF assms(1), of "[Insert x, Find x]"] assms(2-4)
  by (cases "\<exists>y \<in># elems s. same y x") auto

end

section \<open>The hash set provides it\<close>

definition good_set :: "'a set_fns \<Rightarrow> 'd fp_ops \<Rightarrow> ('a, 'd) hash_set \<Rightarrow> bool" where
  "good_set F fp hs \<longleftrightarrow> set_ok F fp hs \<and> loads_ok fp (min_load_factor hs) (max_load_factor hs)"

lemma find_iff:
  assumes "fns_ok F" "set_ok F fp hs"
  obtains i where "HashSet_find F x hs = Some i" "i \<noteq> end_index hs \<longleftrightarrow> (\<exists>y \<in># elements F hs. pred F y x)"
    "i \<noteq> end_index hs \<Longrightarrow> i < NumBuckets hs \<and> \<not> IsEmpty F (data hs ! i) \<and> pred F (data hs ! i) x"
proof (rule find_ok [OF assms, of x])
  fix i
  assume r: "HashSet_find F x hs = Some i" "i < NumBuckets hs" "\<not> IsEmpty F (data hs ! i)" "pred F (data hs ! i) x"
  then have "\<exists>y \<in># elements F hs. pred F y x" by (metis in_elements)
  then show thesis using that r by (simp add: end_index_def)
next
  assume "HashSet_find F x hs = Some (end_index hs)" "\<And>y. y \<in># elements F hs \<Longrightarrow> \<not> pred F y x"
  then show thesis using that by blast
qed

text \<open>Erasing the one element that is equivalent to the key removes all of them.\<close>

lemma unique_filter:
  assumes "equivp (pred F)" "unique_elements F M" "y \<in># M" "pred F y x"
  shows "filter_mset (\<lambda>z. \<not> pred F z x) M = M - {#y#}"
proof -
  obtain N where N: "M = add_mset y N" using assms(3) by (blast dest: multi_member_split)
  have "\<not> pred F z x" if "z \<in># N" for z
  proof
    assume "pred F z x"
    then have "pred F y z" using assms(1,4) by (metis equivp_symp equivp_transp)
    moreover have "\<not> pred F y z" using assms(2) that N by (auto simp: unique_elements_def)
    ultimately show False by simp
  qed
  then have "filter_mset (\<lambda>z. \<not> pred F z x) N = N" by (simp add: filter_mset_eq_conv)
  then show ?thesis using N assms(4) by simp
qed

lemma erase_key_ok:
  assumes F: "fns_ok F" and ok: "set_ok F fp hs"
  obtains hs' where "erase_key F x hs = Some (\<exists>y \<in># elements F hs. pred F y x, hs')" "set_ok F fp hs'"
    "elements F hs' = filter_mset (\<lambda>y. \<not> pred F y x) (elements F hs)" "max_load_factor hs' = max_load_factor hs"
    "min_load_factor hs' = min_load_factor hs"
proof (rule find_iff [OF F ok, of x])
  fix i
  assume r: "HashSet_find F x hs = Some i" "i \<noteq> end_index hs \<longleftrightarrow> (\<exists>y \<in># elements F hs. pred F y x)"
    "i \<noteq> end_index hs \<Longrightarrow> i < NumBuckets hs \<and> \<not> IsEmpty F (data hs ! i) \<and> pred F (data hs ! i) x"
  have eq: "equivp (pred F)" using F by (simp add: fns_ok_def)
  show thesis
  proof (cases "i = end_index hs")
    case True
    then have "filter_mset (\<lambda>y. \<not> pred F y x) (elements F hs) = elements F hs" using r(2) by (auto simp: filter_mset_eq_conv)
    then show thesis using that [of hs] True r ok by (auto simp: erase_key_def)
  next
    case False
    note i = r(3) [OF False]
    then have el: "filter_mset (\<lambda>y. \<not> pred F y x) (elements F hs) = elements F hs - {#data hs ! i#}"
      by (intro unique_filter [OF eq set_ok_parts(3) [OF ok]]) (auto simp: in_elements)
    show thesis
    proof (rule erase_ok [OF F ok])
      fix k hs'
      assume "HashSet_erase F i hs = Some (k, hs')" "set_ok F fp hs'" "elements F hs' = elements F hs - {#data hs ! i#}"
        "max_load_factor hs' = max_load_factor hs" "min_load_factor hs' = min_load_factor hs"
      then show thesis using that [of hs'] el r(1,2) False by (auto simp: erase_key_def)
    qed (use i in auto)
  qed
qed

lemma clear_ok: "load_ok fp mn (max_load_factor hs) \<Longrightarrow> set_ok F fp (HashSet_clear hs) \<and> elements F (HashSet_clear hs) = {#}"
  by (simp add: set_ok_def HashSet_clear_def elements_def contents_def probe_ok_def unique_elements_def NumBuckets_def load_ok_def)

lemma good_setI:
  "good_set F fp hs \<Longrightarrow> set_ok F fp hs' \<Longrightarrow> max_load_factor hs' = max_load_factor hs \<Longrightarrow>
     min_load_factor hs' = min_load_factor hs \<Longrightarrow> good_set F fp hs'"
  by (simp add: good_set_def)

lemma set_step_refines:
  assumes F: "fns_ok F" and good: "good_set F fp hs" and v: "op_valid F fp op (elements F hs)"
  shows "\<exists>r hs'. set_step F fp op hs = Some (r, hs') \<and> good_set F fp hs' \<and> set_spec (pred F) op (elements F hs) = (r, elements F hs')"
proof -
  have ok: "set_ok F fp hs" and L: "load_ok fp (min_load_factor hs) (max_load_factor hs)"
    and R: "reserve_ok fp (max_load_factor hs)" and S: "shrink_ok fp (max_load_factor hs)"
    using good by (simp_all add: good_set_def loads_ok_def)
  note keep = good_setI [OF good]
  show ?thesis
  proof (cases op)
    case (Insert x)
    then have "\<not> IsEmpty F x" using v by simp
    then show ?thesis by (rule insert_ok [OF F L ok]) (use Insert keep in auto)
  next
    case (Put x)
    then have "\<not> IsEmpty F x" "\<And>y. y \<in># elements F hs \<Longrightarrow> \<not> pred F y x" using v by auto
    then show ?thesis by (rule Put_result [OF F L ok]) (use Put keep in auto)
  next
    case (Find x)
    then show ?thesis by (rule_tac find_iff [OF F ok, of x]) (use good in auto)
  next
    case (Erase x)
    then show ?thesis by (rule_tac erase_key_ok [OF F ok, of x]) (use keep in auto)
  next
    case (Reserve n)
    then show ?thesis by (rule_tac reserve_result [OF F ok R, of n]) (use keep in auto)
  next
    case Shrink
    then show ?thesis by (rule_tac shrink_result [OF F ok S]) (use keep in auto)
  next
    case (SetLoad mn mx)
    then have "loads_ok fp mn mx" "mean_ok fp mn mx" using v by (auto simp: loads_ok_def)
    then show ?thesis by (rule_tac SetLoadFactor_result [OF F ok, of mn mx]) (use SetLoad in \<open>auto simp: good_set_def\<close>)
  next
    case Clear
    then show ?thesis using clear_ok [OF L] keep [of "HashSet_clear hs"] by (auto simp: HashSet_clear_def)
  qed
qed

lemma hash_set_interface:
  "fns_ok F \<Longrightarrow> set_interface (good_set F fp) (elements F) (pred F) (op_valid F fp) (set_step F fp)"
  by unfold_locales (rule set_step_refines)

lemma new_good: "loads_ok fp mn mx \<Longrightarrow> good_set F fp (HashSet_new mn mx) \<and> elements F (HashSet_new mn mx) = {#}"
  by (simp add: good_set_def set_ok_def HashSet_new_def elements_def contents_def probe_ok_def unique_elements_def
      NumBuckets_def loads_ok_def load_ok_def)

section \<open>Sets of strings with the default load factors\<close>

definition string_fns :: "u8 list set_fns" where
  "string_fns = \<lparr>hashfn = (\<lambda>s. unat (DataHash s)), pred = (\<lambda>lhs rhs. lhs = rhs), IsEmpty = (\<lambda>item. item = []), MakeEmpty = []\<rparr>"

text \<open>Load factors as fractions, with exact products and quotients.\<close>

definition fraction_ops :: "(nat \<times> nat) fp_ops" where
  "fraction_ops =
     \<lparr>fp_times = (\<lambda>n (p, q). n * p div q), fp_over = (\<lambda>n (p, q). n * q div p),
      fp_over_mean = (\<lambda>n (p, q) (r, s). n * (2 * q * s) div (p * s + r * q)),
      fp_load_exceeds = (\<lambda>n m (p, q). m * p < n * q)\<rparr>"

definition kDefaultMinLoadFactor :: "nat \<times> nat" where "kDefaultMinLoadFactor = (4, 10)"
definition kDefaultMaxLoadFactor :: "nat \<times> nat" where "kDefaultMaxLoadFactor = (7, 10)"

lemma string_fns_ok: "fns_ok string_fns"
  by (auto simp: fns_ok_def string_fns_def intro!: equivpI reflpI sympI transpI)

lemma default_loads_ok: "loads_ok fraction_ops kDefaultMinLoadFactor kDefaultMaxLoadFactor"
proof -
  have "load_ok fraction_ops (4, 10) (7, 10)"
    by (auto simp: load_ok_def fraction_ops_def kMinBuckets_def max_def)
  moreover have "reserve_ok fraction_ops (7, 10)"
  proof -
    have "\<exists>n. k < n * 7 div (10 :: nat)" for k by (rule exI [of _ "2 * k + 10"]) simp
    then show ?thesis by (auto simp: reserve_ok_def fraction_ops_def intro!: monoI div_le_mono)
  qed
  moreover have "shrink_ok fraction_ops (7, 10)"
    by (auto simp: shrink_ok_def fraction_ops_def kMinBuckets_def max_def)
  moreover have "mean_ok fraction_ops (4, 10) (7, 10)"
    by (auto simp: mean_ok_def fraction_ops_def kMinBuckets_def max_def)
  ultimately show ?thesis by (simp add: loads_ok_def kDefaultMinLoadFactor_def kDefaultMaxLoadFactor_def)
qed

interpretation string_set: set_interface "good_set string_fns fraction_ops" "elements string_fns" "pred string_fns"
    "op_valid string_fns fraction_ops" "set_step string_fns fraction_ops"
  by (rule hash_set_interface [OF string_fns_ok])

section \<open>Properties\<close>

text \<open>C3.  The hash set implements a set: from the empty set on, every sequence of insertions, searches, erasures, resizings
  and changes of the load factors returns, answers every question as the specification on the multiset of elements
  does, and ends with exactly the specified elements in a well-formed table.\<close>

theorem hash_set_refines_set:
  assumes "fns_ok F" "loads_ok fp mn mx" "run_valid (op_valid F fp) (set_spec (pred F)) ops {#}"
  shows "\<exists>rs hs. run_steps (set_step F fp) ops (HashSet_new mn mx) = Some (rs, hs) \<and> good_set F fp hs \<and>
    run_spec (set_spec (pred F)) ops {#} = (rs, elements F hs)"
proof -
  note new = new_good [OF assms(2), of F]
  show ?thesis
    using set_interface.run_refines [OF hash_set_interface [OF assms(1)] conjunct1 [OF new], of ops] assms(3)
    unfolding conjunct2 [OF new] .
qed

theorem hash_set_refines_set_witness:
  "\<exists>hs. run_steps (set_step string_fns fraction_ops)
      [Insert [97], Insert [98], Insert [97], Reserve 5000, Erase [97], Find [97], Put [97], Find [98], Find [97]]
      (HashSet_new kDefaultMinLoadFactor kDefaultMaxLoadFactor) =
      Some ([True, True, False, True, True, False, True, True, True], hs) \<and> elements string_fns hs = {#[97], [98]#}"
  (is "\<exists>hs. run_steps _ ?ops _ = _ \<and> _")
proof -
  have "run_valid (op_valid string_fns fraction_ops) (set_spec (pred string_fns)) ?ops {#}"
    by (simp add: string_fns_def)
  moreover have "run_spec (set_spec (pred string_fns)) ?ops {#} = ([True, True, False, True, True, False, True, True, True], {#[97], [98]#})"
    by (simp add: string_fns_def)
  ultimately show ?thesis using hash_set_refines_set [OF string_fns_ok default_loads_ok, of ?ops] by (metis prod.inject)
qed

text \<open>C28.  A loop from \<open>begin()\<close> to \<open>end()\<close> sees the occupied slots in order, each exactly once, so the elements it sees are
  the elements of the set; it starts at an occupied slot or at the end.\<close>

theorem hash_set_iteration:
  "iterate F hs (begin_index F hs) = filter (\<lambda>x. \<not> IsEmpty F x) (data hs) \<and>
   mset (iterate F hs (begin_index F hs)) = elements F hs \<and> at_element F hs (begin_index F hs)"
  using iterate_result [of F hs "begin_index F hs"] begin_result [of F hs] by (simp add: elements_def contents_def)

text \<open>C9.  Erasing inside an iteration skips nothing: the iterator that \<open>erase\<close> returns is at an element or at the end, and the
  loop that goes on from it still sees every element that the loop would have seen after the erased one.\<close>

theorem hash_set_erase_iteration:
  assumes "fns_ok F" "set_ok F fp hs" "i < NumBuckets hs" "\<not> IsEmpty F (data hs ! i)"
  shows "\<exists>k hs'. HashSet_erase F i hs = Some (k, hs') \<and> set_ok F fp hs' \<and>
    elements F hs' = elements F hs - {#data hs ! i#} \<and> at_element F hs' k \<and>
    mset (iterate F hs (NextNonEmptySlot (IsEmpty F) (data hs) i)) \<subseteq># mset (iterate F hs' k)"
  by (rule erase_iterate [OF assms]) blast

definition mod_fns :: "nat set_fns" where
  "mod_fns = \<lparr>hashfn = (\<lambda>x. x), pred = (=), IsEmpty = (\<lambda>x. x = 0), MakeEmpty = 0\<rparr>"

lemma mod_fns_ok: "fns_ok mod_fns"
  by (auto simp: fns_ok_def mod_fns_def intro!: equivpI reflpI sympI transpI)

definition wrapped_set :: "(nat, nat \<times> nat) hash_set" where
  "wrapped_set = \<lparr>num_elements = 2, elements_until_expand = 3, owns_data = True, data = [9, 0, 0, 0, 4],
     min_load_factor = (4, 10), max_load_factor = (7, 10)\<rparr>"

lemma wrapped_set_ok: "set_ok mod_fns fraction_ops wrapped_set"
proof -
  have "probe_ok mod_fns [9, 0, 0, 0, 4]"
    unfolding probe_ok_def
  proof (intro allI impI)
    fix i q :: nat
    assume i: "i < length [9, 0, 0, 0, 4 :: nat]" "\<not> IsEmpty mod_fns ([9, 0, 0, 0, 4] ! i)"
      and q: "on_path (length [9, 0, 0, 0, 4 :: nat]) (ideal mod_fns (length [9, 0, 0, 0, 4 :: nat]) ([9, 0, 0, 0, 4] ! i)) q i"
    have "i = 0 \<or> i = 1 \<or> i = 2 \<or> i = 3 \<or> i = 4" using i(1) by auto
    then have "i = 0 \<or> i = 4" using i(2) by (auto simp: mod_fns_def)
    then have "q = 4" using q by (auto simp: ideal_def IndexForHash_def mod_fns_def on_path_def cdist_def split: if_splits)
    then show "\<not> IsEmpty mod_fns ([9, 0, 0, 0, 4] ! q)" by (simp add: mod_fns_def)
  qed
  then show ?thesis
    by (simp add: set_ok_def wrapped_set_def contents_def unique_elements_def NumBuckets_def mod_fns_def fraction_ops_def)
qed

theorem hash_set_erase_iteration_witness:
  "\<exists>k hs'. HashSet_erase mod_fns 4 wrapped_set = Some (k, hs') \<and> elements mod_fns hs' = {#9#} \<and> at_element mod_fns hs' k"
proof -
  have "4 < NumBuckets wrapped_set" "\<not> IsEmpty mod_fns (data wrapped_set ! 4)"
    "elements mod_fns wrapped_set - {#data wrapped_set ! 4#} = {#9#}"
    by (simp_all add: NumBuckets_def wrapped_set_def mod_fns_def elements_def contents_def)
  then show ?thesis using hash_set_erase_iteration [OF mod_fns_ok wrapped_set_ok, of 4] by metis
qed

text \<open>C29.  \<open>Verify\<close> always returns, and it reports no error exactly for the tables in which every element can be reached from
  its ideal slot; in particular for every well-formed set.\<close>

theorem hash_set_verify:
  assumes "IsEmpty F (MakeEmpty F)"
  shows "(\<exists>n. Verify F hs = Some n \<and> (n = 0 \<longleftrightarrow> probe_ok F (data hs))) \<and> (set_ok F fp hs \<longrightarrow> Verify F hs = Some 0)"
  using Verify_result [OF assms, of hs] set_ok_parts(1) [of F fp hs] by auto

theorem hash_set_verify_witness: "Verify mod_fns wrapped_set = Some 0"
proof -
  have "IsEmpty mod_fns (MakeEmpty mod_fns)" by (simp add: mod_fns_def)
  then show ?thesis using hash_set_verify [of mod_fns wrapped_set fraction_ops] wrapped_set_ok by blast
qed

text \<open>C30.  \<open>reserve(n)\<close> returns, keeps the elements, and leaves a table that does not grow before it holds more than \<open>n\<close>
  elements.\<close>

theorem hash_set_reserve:
  assumes "fns_ok F" "good_set F fp hs"
  shows "\<exists>hs'. HashSet_reserve F fp n hs = Some hs' \<and> good_set F fp hs' \<and> elements F hs' = elements F hs \<and>
    (\<forall>later. elements_until_expand later = elements_until_expand hs' \<and> num_elements later \<le> n \<longrightarrow>
       maybe_expand F fp later = Some later)"
proof -
  have "set_ok F fp hs" "reserve_ok fp (max_load_factor hs)" using assms(2) by (simp_all add: good_set_def loads_ok_def)
  from reserve_result [OF assms(1) this, of n] obtain hs' where r: "HashSet_reserve F fp n hs = Some hs'" "set_ok F fp hs'"
    "elements F hs' = elements F hs" "n + 1 < elements_until_expand hs'" "max_load_factor hs' = max_load_factor hs"
    "min_load_factor hs' = min_load_factor hs" .
  then show ?thesis using good_setI [OF assms(2) r(2)] by (auto simp: maybe_expand_def)
qed

theorem hash_set_reserve_witness:
  "\<exists>hs'. HashSet_reserve string_fns fraction_ops 5000 (HashSet_new kDefaultMinLoadFactor kDefaultMaxLoadFactor) = Some hs' \<and>
     elements string_fns hs' = {#} \<and> maybe_expand string_fns fraction_ops (hs'\<lparr>num_elements := 5000\<rparr>) = Some (hs'\<lparr>num_elements := 5000\<rparr>)"
proof -
  note new = new_good [OF default_loads_ok, of string_fns]
  obtain hs' where "HashSet_reserve string_fns fraction_ops 5000 (HashSet_new kDefaultMinLoadFactor kDefaultMaxLoadFactor) = Some hs'"
      "elements string_fns hs' = {#}"
    and stable: "\<forall>later. elements_until_expand later = elements_until_expand hs' \<and> num_elements later \<le> 5000 \<longrightarrow>
       maybe_expand string_fns fraction_ops later = Some later"
    using hash_set_reserve [OF string_fns_ok conjunct1 [OF new], of 5000] unfolding conjunct2 [OF new] by blast
  then show ?thesis using stable [rule_format, of "hs'\<lparr>num_elements := 5000\<rparr>"] by simp
qed

text \<open>C31.  The constructor accepts every maximum load factor below one, but \<open>ShrinkToMaximumLoad\<close> can then fill the table to
  the last slot: where dividing the number of elements by the factor rounds back to that number, the search for an
  element that is not in the set does not return.\<close>

theorem ShrinkToMaximumLoad_fills_table:
  assumes "IsEmpty F (MakeEmpty F)" "size (elements F hs) = HashSet_size hs" "kMinBuckets \<le> HashSet_size hs"
    and "fp_over fp (HashSet_size hs) (max_load_factor hs) = HashSet_size hs" "\<forall>y \<in># elements F hs. \<not> pred F y x"
  shows "\<exists>hs'. ShrinkToMaximumLoad F fp hs = Some hs' \<and> elements F hs' = elements F hs \<and> HashSet_find F x hs' = None"
proof -
  let ?n = "HashSet_size hs"
  have n: "max kMinBuckets ?n = ?n" using assms(3) by simp
  obtain hs' where r: "ShrinkToMaximumLoad F fp hs = Some hs'" "elements F hs' = elements F hs" "NumBuckets hs' = ?n"
    using Resize_result [OF assms(1), of hs ?n fp] assms(2,4) n by (metis ShrinkToMaximumLoad_def order_refl)
  have "size (filter_mset (\<lambda>x. \<not> IsEmpty F x) (mset (data hs'))) = size (mset (data hs'))"
    using assms(2) r(2,3) by (simp add: elements_def contents_def NumBuckets_def)
  then have full: "\<not> IsEmpty F (data hs' ! i)" if "i < length (data hs')" for i
    using that length_filter_less [of "data hs' ! i" "data hs'" "\<lambda>x. \<not> IsEmpty F x"]
    by (auto simp flip: mset_filter)
  have "FindIndexImpl (IsEmpty F) (\<lambda>slot. pred F slot x) (data hs') i = None" if "i < length (data hs')" for i
  proof (rule FindIndexImpl_full [OF _ that])
    fix i
    assume "i < length (data hs')"
    then show "\<not> IsEmpty F (data hs' ! i) \<and> \<not> pred F (data hs' ! i) x"
      using full assms(5) r(2) in_elements [of "data hs' ! i" F hs'] by (auto simp: NumBuckets_def)
  qed
  moreover have "0 < length (data hs')" using r(3) assms(3) by (simp add: kMinBuckets_def NumBuckets_def)
  ultimately have "HashSet_find F x hs' = None"
    using IndexForHash_less [of "length (data hs')" "hashfn F x"] by (simp add: HashSet_find_def FindIndex_def NumBuckets_def)
  then show ?thesis using r by blast
qed

definition near_full_set :: "(nat, nat \<times> nat) hash_set" where
  "near_full_set = \<lparr>num_elements = 1000, elements_until_expand = 1000, owns_data = True, data = [0..<1001],
     min_load_factor = (4, 10), max_load_factor = (9999, 10000)\<rparr>"

theorem ShrinkToMaximumLoad_fills_table_witness:
  "\<exists>hs'. ShrinkToMaximumLoad mod_fns fraction_ops near_full_set = Some hs' \<and> HashSet_find mod_fns 2000 hs' = None"
proof -
  have el: "elements mod_fns near_full_set = mset [1..<1001]"
  proof -
    have "filter (\<lambda>x. x \<noteq> 0) [0..<1001] = [Suc 0..<1001]" by (subst upt_conv_Cons) (simp_all add: filter_id_conv)
    moreover have "(\<lambda>x. \<not> IsEmpty mod_fns x) = (\<lambda>x. x \<noteq> 0)" "data near_full_set = [0..<1001]"
      by (simp_all add: mod_fns_def near_full_set_def)
    ultimately show ?thesis unfolding elements_def contents_def mset_filter [symmetric] by simp
  qed
  have "\<forall>y \<in># elements mod_fns near_full_set. \<not> pred mod_fns y 2000" unfolding el by (simp add: mod_fns_def)
  moreover have "size (elements mod_fns near_full_set) = HashSet_size near_full_set"
    unfolding el by (simp add: HashSet_size_def near_full_set_def)
  ultimately show ?thesis
    using ShrinkToMaximumLoad_fills_table [of mod_fns near_full_set fraction_ops 2000]
    by (auto simp: mod_fns_def HashSet_size_def near_full_set_def kMinBuckets_def fraction_ops_def)
qed

end
