(* ===== verification/HashSetMemory.thy ===== *)
theory HashSetMemory
  imports HashSet
begin

text \<open>
  The image of a hash set in memory (\<open>WriteToMemory\<close> and the constructor that reads it back, in
  \<^verbatim>\<open>libartbase/base/hash_set.h\<close>).  How an element or a \<open>double\<close> is laid out in bytes is a parameter; a \<open>uint64_t\<close> is
  stored little-endian.
\<close>

section \<open>Object representations\<close>

record 't repr =
  size_of :: nat
  to_bytes :: "'t \<Rightarrow> u8 list"
  of_bytes :: "u8 list \<Rightarrow> 't"

definition repr_ok :: "'t repr \<Rightarrow> bool" where
  "repr_ok R \<longleftrightarrow> (\<forall>x. length (to_bytes R x) = size_of R \<and> of_bytes R (to_bytes R x) = x)"

definition u64_repr :: "u64 repr" where
  "u64_repr = \<lparr>size_of = 8, to_bytes = u64_to_bytes, of_bytes = u64_of_bytes\<rparr>"

section \<open>Writing and reading\<close>

definition WriteToBytes :: "'t repr \<Rightarrow> nat \<Rightarrow> nat \<Rightarrow> 't \<Rightarrow> mem \<Rightarrow> nat \<times> mem" where
  "WriteToBytes R ptr offset n m =
     (offset + size_of R, if ptr \<noteq> 0 then store m (ptr + offset) (to_bytes R n) else m)"

definition ReadFromBytes :: "'t repr \<Rightarrow> mem \<Rightarrow> nat \<Rightarrow> nat \<Rightarrow> 't \<times> nat" where
  "ReadFromBytes R m ptr offset =
     (of_bytes R (map (\<lambda>i. m (ptr + offset + i)) [0..<size_of R]), offset + size_of R)"

fun write_elements :: "'a repr \<Rightarrow> nat \<Rightarrow> nat \<Rightarrow> 'a list \<Rightarrow> mem \<Rightarrow> nat \<times> mem" where
  "write_elements R ptr offset [] m = (offset, m)"
| "write_elements R ptr offset (x # xs) m =
     (let (offset, m) = WriteToBytes R ptr offset x m in write_elements R ptr offset xs m)"

definition WriteToMemory :: "'a repr \<Rightarrow> 'd repr \<Rightarrow> nat \<Rightarrow> ('a, 'd) hash_set \<Rightarrow> mem \<Rightarrow> nat \<times> mem" where
  "WriteToMemory RE RD ptr hs m =
     (let (offset, m) = WriteToBytes u64_repr ptr 0 (of_nat (num_elements hs)) m;
          (offset, m) = WriteToBytes u64_repr ptr offset (of_nat (NumBuckets hs)) m;
          (offset, m) = WriteToBytes u64_repr ptr offset (of_nat (elements_until_expand hs)) m;
          (offset, m) = WriteToBytes RD ptr offset (min_load_factor hs) m;
          (offset, m) = WriteToBytes RD ptr offset (max_load_factor hs) m
      in write_elements RE ptr offset (data hs) m)"

fun read_elements :: "'a repr \<Rightarrow> mem \<Rightarrow> nat \<Rightarrow> nat \<Rightarrow> nat \<Rightarrow> 'a list \<times> nat" where
  "read_elements R m ptr offset 0 = ([], offset)"
| "read_elements R m ptr offset (Suc k) =
     (let (x, offset) = ReadFromBytes R m ptr offset;
          (xs, offset) = read_elements R m ptr offset k
      in (x # xs, offset))"

text \<open>Without a copy the elements are the objects that lie in the image.\<close>

definition elements_at :: "'a repr \<Rightarrow> mem \<Rightarrow> nat \<Rightarrow> nat \<Rightarrow> 'a list" where
  "elements_at R m p k = map (\<lambda>j. of_bytes R (map (\<lambda>i. m (p + size_of R * j + i)) [0..<size_of R])) [0..<k]"

definition HashSet_read ::
  "'a repr \<Rightarrow> 'd repr \<Rightarrow> nat \<Rightarrow> bool \<Rightarrow> mem \<Rightarrow> (('a, 'd) hash_set \<times> nat) option" where
  "HashSet_read RE RD ptr make_copy_of_data m =
     (let (temp, offset) = ReadFromBytes u64_repr m ptr 0; elems = unat temp;
          (temp, offset) = ReadFromBytes u64_repr m ptr offset; num_buckets = unat temp
      in if \<not> elems \<le> num_buckets then None
         else let (temp, offset) = ReadFromBytes u64_repr m ptr offset; until_expand = unat temp;
                  (min_load, offset) = ReadFromBytes RD m ptr offset;
                  (max_load, offset) = ReadFromBytes RD m ptr offset;
                  (d, offset) =
                    (if \<not> make_copy_of_data
                     then (elements_at RE m (ptr + offset) num_buckets, offset + size_of RE * num_buckets)
                     else read_elements RE m ptr offset num_buckets)
              in Some (\<lparr>num_elements = elems, elements_until_expand = until_expand,
                        owns_data = make_copy_of_data, data = d,
                        min_load_factor = min_load, max_load_factor = max_load\<rparr>, offset))"

lemma u64_repr_ok: "repr_ok u64_repr"
  by (simp add: repr_ok_def u64_repr_def u64_bytes length_u64_to_bytes)

section \<open>The image\<close>

lemma WriteToBytes_image:
  "repr_ok R \<Longrightarrow> ptr \<noteq> 0 \<Longrightarrow>
     WriteToBytes R ptr (length bs) x (store m ptr bs) = (length (bs @ to_bytes R x), store m ptr (bs @ to_bytes R x))"
  by (simp add: WriteToBytes_def store_append repr_ok_def)

lemma write_elements_image:
  "repr_ok R \<Longrightarrow> ptr \<noteq> 0 \<Longrightarrow>
     write_elements R ptr (length bs) xs (store m ptr bs) =
       (length (bs @ concat (map (to_bytes R) xs)), store m ptr (bs @ concat (map (to_bytes R) xs)))"
proof (induction xs arbitrary: bs)
  case (Cons x xs)
  then show ?case using Cons(1) [of "bs @ to_bytes R x"] by (simp add: WriteToBytes_image)
qed simp

definition image :: "'a repr \<Rightarrow> 'd repr \<Rightarrow> ('a, 'd) hash_set \<Rightarrow> u8 list" where
  "image RE RD hs =
     u64_to_bytes (of_nat (num_elements hs)) @ u64_to_bytes (of_nat (NumBuckets hs)) @
     u64_to_bytes (of_nat (elements_until_expand hs)) @ to_bytes RD (min_load_factor hs) @
     to_bytes RD (max_load_factor hs) @ concat (map (to_bytes RE) (data hs))"

lemma WriteToMemory_image:
  assumes "repr_ok RE" "repr_ok RD" "ptr \<noteq> 0"
  shows "WriteToMemory RE RD ptr hs m = (length (image RE RD hs), store m ptr (image RE RD hs))"
proof -
  note w = WriteToBytes_image [OF u64_repr_ok assms(3), where m = m] WriteToBytes_image [OF assms(2,3), where m = m]
    write_elements_image [OF assms(1,3), where m = m]
  have start: "WriteToBytes u64_repr ptr 0 x m = (length (to_bytes u64_repr x), store m ptr (to_bytes u64_repr x))" for x
    using w(1) [of "[]"] by simp
  show ?thesis unfolding WriteToMemory_def Let_def start split w image_def append_assoc
    by (simp add: u64_repr_def)
qed

lemma write_elements_null: "write_elements R 0 offset xs m = (offset + size_of R * length xs, m)"
  by (induction xs arbitrary: offset) (simp_all add: WriteToBytes_def)

lemma length_concat_bytes: "repr_ok R \<Longrightarrow> length (concat (map (to_bytes R) xs)) = size_of R * length xs"
  by (induction xs) (simp_all add: repr_ok_def)

lemma WriteToMemory_null:
  assumes "repr_ok RE" "repr_ok RD"
  shows "WriteToMemory RE RD 0 hs m = (length (image RE RD hs), m)"
  using assms(2) u64_repr_ok
  by (simp add: WriteToMemory_def WriteToBytes_def write_elements_null image_def repr_ok_def u64_repr_def
      length_concat_bytes [OF assms(1)] NumBuckets_def)

section \<open>Reading the image\<close>

lemma holds_bytes: "holds m p bs \<Longrightarrow> map (\<lambda>i. m (p + i)) [0..<length bs] = bs"
  by (rule nth_equalityI) (simp_all add: holds_def)

lemma ReadFromBytes_image:
  assumes "repr_ok R" "holds m (ptr + offset) (to_bytes R x @ rest)"
  shows "ReadFromBytes R m ptr offset = (x, offset + size_of R)" "holds m (ptr + (offset + size_of R)) rest"
proof -
  have n: "length (to_bytes R x) = size_of R" "of_bytes R (to_bytes R x) = x" using assms(1) by (simp_all add: repr_ok_def)
  show "ReadFromBytes R m ptr offset = (x, offset + size_of R)"
    using holds_bytes [of m "ptr + offset" "to_bytes R x"] assms(2) n by (simp add: ReadFromBytes_def holds_append)
  show "holds m (ptr + (offset + size_of R)) rest" using assms(2) n by (simp add: holds_append add.assoc)
qed

lemma read_elements_image:
  assumes "repr_ok R" "holds m (ptr + offset) (concat (map (to_bytes R) xs))"
  shows "read_elements R m ptr offset (length xs) = (xs, offset + size_of R * length xs)"
  using assms(2)
proof (induction xs arbitrary: offset)
  case (Cons x xs)
  then have h: "holds m (ptr + offset) (to_bytes R x @ concat (map (to_bytes R) xs))" by simp
  show ?case using ReadFromBytes_image [OF assms(1) h] Cons(1) by simp
qed simp

lemma elements_at_image:
  assumes "repr_ok R" "holds m p (concat (map (to_bytes R) xs))"
  shows "elements_at R m p (length xs) = xs"
  using assms(2)
proof (induction xs arbitrary: p)
  case (Cons x xs)
  have h: "holds m (p + 0) (to_bytes R x @ concat (map (to_bytes R) xs))" using Cons(2) by simp
  have "elements_at R m p (length (x # xs)) = fst (ReadFromBytes R m p 0) # elements_at R m (p + size_of R) (length xs)"
    by (simp add: elements_at_def ReadFromBytes_def map_upt_Suc add.assoc del: upt_Suc)
  then show ?case using ReadFromBytes_image [OF assms(1) h] Cons(1) by simp
qed (simp add: elements_at_def)

lemma read_image:
  assumes "repr_ok RE" "repr_ok RD" "num_elements hs \<le> NumBuckets hs" "NumBuckets hs < 2 ^ 64"
    "elements_until_expand hs < 2 ^ 64" "holds m ptr (image RE RD hs)"
  shows "HashSet_read RE RD ptr make_copy m = Some (hs\<lparr>owns_data := make_copy\<rparr>, length (image RE RD hs))"
proof -
  have h: "holds m (ptr + 0) (to_bytes u64_repr (of_nat (num_elements hs)) @ to_bytes u64_repr (of_nat (NumBuckets hs)) @
     to_bytes u64_repr (of_nat (elements_until_expand hs)) @ to_bytes RD (min_load_factor hs) @
     to_bytes RD (max_load_factor hs) @ concat (map (to_bytes RE) (data hs)))"
    using assms(6) by (simp add: image_def u64_repr_def)
  note r1 = ReadFromBytes_image [OF u64_repr_ok h]
  note r2 = ReadFromBytes_image [OF u64_repr_ok r1(2)]
  note r3 = ReadFromBytes_image [OF u64_repr_ok r2(2)]
  note r4 = ReadFromBytes_image [OF assms(2) r3(2)]
  note r5 = ReadFromBytes_image [OF assms(2) r4(2)]
  note d = read_elements_image [OF assms(1) r5(2)] elements_at_image [OF assms(1) r5(2)]
  have u: "unat (of_nat k :: u64) = k" if "k < 2 ^ 64" for k
    using that by (simp only: unat_of_nat) simp
  have n: "unat (of_nat (num_elements hs) :: u64) = num_elements hs" "unat (of_nat (length (data hs)) :: u64) = length (data hs)"
    "unat (of_nat (elements_until_expand hs) :: u64) = elements_until_expand hs"
    by (rule u; use assms(3-5) in \<open>simp add: NumBuckets_def\<close>)+
  have "length (image RE RD hs) = 24 + size_of RD + size_of RD + size_of RE * length (data hs)"
    using assms(2) u64_repr_ok by (simp add: image_def length_concat_bytes [OF assms(1)] repr_ok_def u64_repr_def)
  then show ?thesis
    using assms(3) unfolding HashSet_read_def Let_def r1(1) r2(1) r3(1) r4(1) r5(1) split n NumBuckets_def d
    by (simp add: u64_repr_def)
qed

text \<open>C32.  A hash set written to memory is read back with the same elements in the same slots, the same counters and
  the same load factors, with or without a copy; the reader consumes exactly the bytes the writer produced, no other
  byte changes, and the size computed for a null target is that number of bytes.\<close>

theorem hash_set_memory_roundtrip:
  assumes "repr_ok RE" "repr_ok RD" "ptr \<noteq> 0" "num_elements hs \<le> NumBuckets hs" "NumBuckets hs < 2 ^ 64"
    "elements_until_expand hs < 2 ^ 64"
  shows "\<exists>n m'. WriteToMemory RE RD ptr hs m = (n, m') \<and>
    HashSet_read RE RD ptr make_copy m' = Some (hs\<lparr>owns_data := make_copy\<rparr>, n) \<and>
    (\<forall>a. a < ptr \<or> ptr + n \<le> a \<longrightarrow> m' a = m a) \<and> WriteToMemory RE RD 0 hs m = (n, m)"
  using WriteToMemory_image [OF assms(1-3)] WriteToMemory_null [OF assms(1,2)] read_image [OF assms(1,2,4-6) holds_store]
  by (auto simp: store_other)

theorem hash_set_memory_roundtrip_witness:
  "\<exists>n m'. WriteToMemory u64_repr u64_repr 64 \<lparr>num_elements = 1, elements_until_expand = 2, owns_data = True,
        data = [0, 7, 0], min_load_factor = 4, max_load_factor = 7\<rparr> (\<lambda>_. 255) = (n, m') \<and>
    HashSet_read u64_repr u64_repr 64 False m' = Some (\<lparr>num_elements = 1, elements_until_expand = 2, owns_data = False,
        data = [0, 7, 0], min_load_factor = 4, max_load_factor = 7\<rparr>, n)"
  using hash_set_memory_roundtrip [OF u64_repr_ok u64_repr_ok, of 64 "\<lparr>num_elements = 1, elements_until_expand = 2,
        owns_data = True, data = [0, 7, 0], min_load_factor = 4, max_load_factor = 7\<rparr>" "\<lambda>_. 255" False]
  by (auto simp: NumBuckets_def)

end
