(* ===== verification/BitMemory.thy ===== *)
theory BitMemory
  imports BitUtils
begin

text \<open>
  Regions of memory addressed by the bit (\<^verbatim>\<open>libartbase/base/bit_memory_region.h\<close>).  Memory is little-endian and
  \<open>size_t\<close> has 64 bits; the theory shows what each access means for the sequence of bits, whatever words or bytes it
  touches.
\<close>

section \<open>Regions\<close>

definition kPageSize :: nat where "kPageSize = 4096"

definition AlignDown :: "nat \<Rightarrow> nat \<Rightarrow> nat" where
  "AlignDown x n = x - x mod n"

record bit_region =
  region_data :: nat
  region_start :: nat
  region_size :: nat

definition BitMemoryRegion_new :: "nat \<Rightarrow> int \<Rightarrow> nat \<Rightarrow> bit_region" where
  "BitMemoryRegion_new data bit_start bit_size =
     (let d = AlignDown (nat (int data + bit_start div 8)) kPageSize
      in \<lparr>region_data = d, region_start = nat (bit_start + 8 * (int data - int d)), region_size = bit_size\<rparr>)"

definition size_in_bits :: "bit_region \<Rightarrow> nat" where
  "size_in_bits r = region_size r"

definition Resize_region :: "nat \<Rightarrow> bit_region \<Rightarrow> bit_region" where
  "Resize_region bit_size r = r\<lparr>region_size := bit_size\<rparr>"

definition Subregion :: "nat \<Rightarrow> nat \<Rightarrow> bit_region \<Rightarrow> bit_region" where
  "Subregion bit_offset bit_length r = r\<lparr>region_start := region_start r + bit_offset, region_size := bit_length\<rparr>"

definition Subregion_rest :: "nat \<Rightarrow> bit_region \<Rightarrow> bit_region" where
  "Subregion_rest bit_offset r =
     r\<lparr>region_start := region_start r + bit_offset, region_size := region_size r - bit_offset\<rparr>"

section \<open>Accesses\<close>

definition LoadBit :: "mem \<Rightarrow> bit_region \<Rightarrow> nat \<Rightarrow> bool" where
  "LoadBit m r bit_offset =
     (let index = (region_start r + bit_offset) div 8; shift = (region_start r + bit_offset) mod 8
      in drop_bit shift (m (region_data r + index)) AND 1 \<noteq> 0)"

definition StoreBit :: "bit_region \<Rightarrow> nat \<Rightarrow> bool \<Rightarrow> mem \<Rightarrow> mem" where
  "StoreBit r bit_offset value m =
     (let index = (region_start r + bit_offset) div 8; shift = (region_start r + bit_offset) mod 8;
          p = region_data r + index;
          m = m(p := m p AND NOT (push_bit shift 1))
      in m(p := m p OR push_bit shift (if value then 1 else 0)))"

definition load64 :: "mem \<Rightarrow> nat \<Rightarrow> u64" where
  "load64 m p = u64_of_bytes (map (\<lambda>i. m (p + i)) [0..<8])"

definition LoadBits :: "mem \<Rightarrow> bit_region \<Rightarrow> nat \<Rightarrow> nat \<Rightarrow> u64" where
  "LoadBits m r bit_offset bit_length =
     (if bit_length = 0 then 0
      else let width = 64;
               index = (region_start r + bit_offset) div width;
               shift = (region_start r + bit_offset) mod width;
               value = drop_bit shift (load64 m (region_data r + 8 * index));
               extra = load64 m (region_data r + 8 * (index + (shift + (bit_length - 1)) div width));
               clear = push_bit (bit_length - 1) (push_bit 1 (- 1))
           in (value OR push_bit ((width - shift) AND (width - 1)) extra) AND NOT clear)"

text \<open>A byte is changed by \<open>&=\<close> and \<open>|=\<close> with operands of type \<open>size_t\<close>, of which the low bits matter.\<close>

definition put_bits :: "nat \<Rightarrow> u64 \<Rightarrow> u64 \<Rightarrow> mem \<Rightarrow> mem" where
  "put_bits p bits_mask value m =
     (let m = m(p := m p AND NOT (ucast bits_mask)) in m(p := m p OR ucast value))"

function StoreBits_loop :: "nat \<Rightarrow> u64 \<Rightarrow> u64 \<Rightarrow> nat \<Rightarrow> nat \<Rightarrow> mem \<Rightarrow> mem" where
  "StoreBits_loop p bits_mask value finished_bits bit_length m =
     (if finished_bits < bit_length
      then StoreBits_loop (p + 1) bits_mask value (finished_bits + 8) bit_length
             (put_bits p (drop_bit finished_bits bits_mask) (drop_bit finished_bits value) m)
      else m)"
  by auto
termination
  by (relation "measure (\<lambda>(_, _, _, finished_bits, bit_length, _). bit_length - finished_bits)") auto

declare StoreBits_loop.simps [simp del]

definition StoreBits :: "bit_region \<Rightarrow> nat \<Rightarrow> u64 \<Rightarrow> nat \<Rightarrow> mem \<Rightarrow> mem" where
  "StoreBits r bit_offset value bit_length m =
     (if bit_length = 0 then m
      else let bits_mask = drop_bit (64 - bit_length) (- 1);
               index = (region_start r + bit_offset) div 8;
               shift = (region_start r + bit_offset) mod 8;
               m = put_bits (region_data r + index) (push_bit shift bits_mask) (push_bit shift value) m
           in StoreBits_loop (region_data r + index + 1) bits_mask value (8 - shift) bit_length m)"

section \<open>Bits of memory\<close>

text \<open>Bit \<open>k\<close> of the memory as one sequence of bits, and the place where a region starts in it.\<close>

definition mbit :: "mem \<Rightarrow> nat \<Rightarrow> bool" where
  "mbit m k \<longleftrightarrow> bit (m (k div 8)) (k mod 8)"

definition start_bit :: "bit_region \<Rightarrow> nat" where
  "start_bit r = 8 * region_data r + region_start r"

lemma mbit_byte: "t < 8 \<Longrightarrow> mbit m (8 * p + t) \<longleftrightarrow> bit (m p) t"
  by (simp add: mbit_def)

lemma mbit_upd: "mbit (m(p := b)) k \<longleftrightarrow> (if k div 8 = p then bit b (k mod 8) else mbit m k)"
  by (simp add: mbit_def)

lemma mbit_cases: obtains p t where "k = 8 * p + t" "t < (8 :: nat)"
  by (metis mod_less_divisor mult_div_mod_eq zero_less_numeral)

text \<open>The normalised region denotes the same bits.\<close>

lemma BitMemoryRegion_new_start:
  assumes "0 \<le> 8 * int data + bit_start"
  shows "int (start_bit (BitMemoryRegion_new data bit_start n)) = 8 * int data + bit_start"
    and "region_data (BitMemoryRegion_new data bit_start n) mod kPageSize = 0"
    and "region_size (BitMemoryRegion_new data bit_start n) = n"
proof -
  let ?a = "nat (int data + bit_start div 8)"
  have a: "int ?a = int data + bit_start div 8" using assms by linarith
  have "int (AlignDown ?a kPageSize) \<le> int ?a" by (simp add: AlignDown_def)
  then have "0 \<le> bit_start + 8 * (int data - int (AlignDown ?a kPageSize))"
    using a mult_div_mod_eq [of 8 bit_start] pos_mod_sign [of 8 bit_start, simplified] by (simp add: algebra_simps)
  then show "int (start_bit (BitMemoryRegion_new data bit_start n)) = 8 * int data + bit_start"
    by (simp add: start_bit_def BitMemoryRegion_new_def Let_def algebra_simps)
  show "region_data (BitMemoryRegion_new data bit_start n) mod kPageSize = 0"
    by (simp add: BitMemoryRegion_new_def Let_def AlignDown_def minus_mod_eq_mult_div)
  show "region_size (BitMemoryRegion_new data bit_start n) = n" by (simp add: BitMemoryRegion_new_def Let_def)
qed

lemma Subregion_start [simp]:
  "start_bit (Subregion k n r) = start_bit r + k" "start_bit (Subregion_rest k r) = start_bit r + k"
  "start_bit (Resize_region n r) = start_bit r" "region_size (Subregion k n r) = n"
  "region_size (Subregion_rest k r) = region_size r - k" "region_size (Resize_region n r) = n"
  by (simp_all add: start_bit_def Subregion_def Subregion_rest_def Resize_region_def)

lemma start_split:
  "start_bit r + k = 8 * (region_data r + (region_start r + k) div 8) + (region_start r + k) mod 8"
  "start_bit r + k = 8 * (region_data r + 8 * ((region_start r + k) div 64)) + (region_start r + k) mod 64"
  by (simp_all add: start_bit_def algebra_simps)

section \<open>Loading\<close>

lemma and_one_bit: "drop_bit n w AND 1 \<noteq> 0 \<longleftrightarrow> bit w n" for w :: "'a::len word"
  by (simp add: and_one_eq bit_iff_odd_drop_bit odd_iff_mod_2_eq_one)

lemma start_div_mod:
  "(start_bit r + k) div 8 = region_data r + (region_start r + k) div 8" "(start_bit r + k) mod 8 = (region_start r + k) mod 8"
  by (simp_all add: start_bit_def add.assoc)

lemma LoadBit_bit: "LoadBit m r k \<longleftrightarrow> mbit m (start_bit r + k)"
  by (simp add: LoadBit_def Let_def and_one_bit mbit_def start_div_mod)

lemma bit_load64: "bit (load64 m p) n \<longleftrightarrow> n < 64 \<and> mbit m (8 * p + n)"
proof -
  have "(8 * p + n) div 8 = p + n div 8" "(8 * p + n) mod 8 = n mod 8" by simp_all
  then show ?thesis by (auto simp: load64_def bit_u64_of_bytes mbit_def)
qed

lemma and_63: "(64 - s) AND 63 = (if s = 0 then 0 else 64 - s)" if "s < (64 :: nat)"
proof -
  have "(64 - s) AND 63 = (64 - s) mod 64"
    using take_bit_eq_mask [of 6 "64 - s"] by (simp add: take_bit_eq_mod mask_eq_exp_minus_1)
  then show ?thesis using that by simp
qed

lemma bit_LoadBits:
  assumes "n \<le> 64"
  shows "bit (LoadBits m r k n) t \<longleftrightarrow> t < n \<and> mbit m (start_bit r + k + t)"
proof (cases "n = 0")
  case False
  define s where "s = (region_start r + k) mod 64"
  define q where "q = region_data r + 8 * ((region_start r + k) div 64)"
  have s: "s < 64" by (simp add: s_def)
  have start: "start_bit r + k + t = 8 * q + s + t"
    unfolding start_split(2) by (simp add: q_def s_def)
  have addr: "region_data r + 8 * ((region_start r + k) div 64 + j) = q + 8 * j" for j
    by (simp add: q_def)
  have v: "bit (drop_bit s (load64 m q)) t \<longleftrightarrow> s + t < 64 \<and> mbit m (8 * q + s + t)"
    by (simp add: bit_drop_bit_eq bit_load64 add.assoc)
  have extra: "bit (push_bit ((64 - s) AND 63) (load64 m (q + 8 * ((s + (n - 1)) div 64)))) t \<longleftrightarrow>
      t < 64 \<and> (if s = 0 then mbit m (8 * q + t)
        else 64 - s \<le> t \<and> mbit m (8 * (q + 8 * ((s + (n - 1)) div 64)) + (t - (64 - s))))"
    using s assms by (auto simp: and_63 bit_push_bit_iff bit_load64)
  have clear: "bit (push_bit (n - 1) (push_bit 1 (- 1)) :: u64) t \<longleftrightarrow> t < 64 \<and> n \<le> t"
    using False by (auto simp: bit_push_bit_iff)
  have load: "LoadBits m r k n = (drop_bit s (load64 m q) OR
      push_bit ((64 - s) AND 63) (load64 m (q + 8 * ((s + (n - 1)) div 64)))) AND NOT (push_bit (n - 1) (push_bit 1 (- 1)))"
    using False unfolding LoadBits_def Let_def addr by (simp only: if_False s_def q_def) simp
  show ?thesis
  proof (cases "t < n")
    case True
    then have div: "(s + (n - 1)) div 64 = 1 \<and> 8 * (q + 8) + (t - (64 - s)) = 8 * q + s + t" if "64 - s \<le> t"
      using that s assms by (auto simp: div_if)
    show ?thesis unfolding load start bit_and_iff bit_or_iff v extra bit_not_iff clear
      using True assms div by (cases "s = 0"; cases "64 - s \<le> t") auto
  next
    case False
    then show ?thesis unfolding load bit_and_iff bit_not_iff clear
      using bit_imp_le_length [of "drop_bit s (load64 m q) OR push_bit ((64 - s) AND 63) (load64 m (q + 8 * ((s + (n - 1)) div 64)))" t]
      by auto
  qed
qed (simp add: LoadBits_def)

section \<open>Storing\<close>

lemma StoreBit_bit: "mbit (StoreBit r k v m) j \<longleftrightarrow> (if j = start_bit r + k then v else mbit m j)"
proof -
  have j: "j = start_bit r + k \<longleftrightarrow>
      j div 8 = region_data r + (region_start r + k) div 8 \<and> j mod 8 = (region_start r + k) mod 8"
    unfolding start_div_mod [symmetric] by (metis div_mult_mod_eq)
  have less: "j mod 8 < 8" "(region_start r + k) mod 8 < 8" by simp_all
  show ?thesis
    unfolding j StoreBit_def Let_def mbit_upd
    by (auto simp: bit_or_iff bit_and_iff bit_not_iff bit_push_bit_iff bit_1_iff bit_exp_iff mbit_def)
qed

lemma put_bits_bit:
  "mbit (put_bits p w v m) j \<longleftrightarrow>
     (if j div 8 = p then bit v (j mod 8) \<or> mbit m j \<and> \<not> bit w (j mod 8) else mbit m j)"
  unfolding put_bits_def Let_def mbit_upd
  by (auto simp: bit_or_iff bit_and_iff bit_not_iff bit_ucast_iff mbit_def)

text \<open>The loop writes the bits from \<open>finished_bits\<close> on at the byte \<open>p\<close> and changes nothing else.\<close>

lemma StoreBits_loop_bit:
  assumes w: "\<And>i. bit w i \<longleftrightarrow> i < n" and v: "\<And>i. bit v i \<Longrightarrow> i < n"
  shows "mbit (StoreBits_loop p w v f n m) j \<longleftrightarrow>
    (if 8 * p \<le> j \<and> f + (j - 8 * p) < n then bit v (f + (j - 8 * p)) else mbit m j)"
proof (induction "n - f" arbitrary: p f m rule: less_induct)
  case less
  show ?case
  proof (cases "f < n")
    case True
    let ?m = "put_bits p (drop_bit f w) (drop_bit f v) m"
    have IH: "mbit (StoreBits_loop (p + 1) w v (f + 8) n ?m) j \<longleftrightarrow>
        (if 8 * (p + 1) \<le> j \<and> f + 8 + (j - 8 * (p + 1)) < n then bit v (f + 8 + (j - 8 * (p + 1))) else mbit ?m j)"
      by (rule less) (use True in simp)
    have m: "mbit ?m j \<longleftrightarrow> (if j div 8 = p then bit v (f + j mod 8) \<or> mbit m j \<and> \<not> f + j mod 8 < n else mbit m j)"
      unfolding put_bits_bit by (simp add: bit_drop_bit_eq w)
    have step: "StoreBits_loop p w v f n m = StoreBits_loop (p + 1) w v (f + 8) n ?m"
      using True by (subst StoreBits_loop.simps) simp
    consider "j < 8 * p" | "8 * p \<le> j" "j < 8 * (p + 1)" | "8 * (p + 1) \<le> j" by linarith
    then show ?thesis
    proof cases
      case 1
      then have "j div 8 \<noteq> p" by auto
      then show ?thesis unfolding step IH m using 1 by simp
    next
      case 2
      then have "j div 8 = p" "j mod 8 = j - 8 * p" by (auto simp: div_nat_eqI minus_mult_div_eq_mod [symmetric])
      then show ?thesis unfolding step IH m using 2 v by auto
    next
      case 3
      then have "j div 8 \<noteq> p" "f + 8 + (j - 8 * (p + 1)) = f + (j - 8 * p)" by auto
      then show ?thesis unfolding step IH m using 3 by simp
    qed
  next
    case False
    then show ?thesis by (simp add: StoreBits_loop.simps)
  qed
qed

lemma StoreBits_bit:
  assumes n: "n \<le> 64" and v: "\<And>i. bit v i \<Longrightarrow> i < n"
  shows "mbit (StoreBits r k v n m) j \<longleftrightarrow>
    (if start_bit r + k \<le> j \<and> j < start_bit r + k + n then bit v (j - (start_bit r + k)) else mbit m j)"
proof (cases "n = 0")
  case False
  define s where "s = (region_start r + k) mod 8"
  define p where "p = region_data r + (region_start r + k) div 8"
  define w :: u64 where "w = drop_bit (64 - n) (- 1)"
  let ?m = "put_bits p (push_bit s w) (push_bit s v) m"
  have w: "bit w i \<longleftrightarrow> i < n" for i using n by (auto simp: w_def bit_mask_iff)
  have start: "start_bit r + k = 8 * p + s" unfolding start_split(1) by (simp add: p_def s_def)
  have s: "s < 8" by (simp add: s_def)
  have store: "StoreBits r k v n m = StoreBits_loop (p + 1) w v (8 - s) n ?m"
    using False unfolding StoreBits_def Let_def by (simp only: if_False s_def p_def w_def)
  have loop: "mbit (StoreBits_loop (p + 1) w v (8 - s) n ?m) j \<longleftrightarrow>
      (if 8 * (p + 1) \<le> j \<and> 8 - s + (j - 8 * (p + 1)) < n then bit v (8 - s + (j - 8 * (p + 1))) else mbit ?m j)"
    by (rule StoreBits_loop_bit) (use w v in auto)
  have m: "mbit ?m j \<longleftrightarrow> (if j div 8 = p then s \<le> j mod 8 \<and> bit v (j mod 8 - s) \<or> mbit m j \<and> \<not> (s \<le> j mod 8 \<and> j mod 8 - s < n)
      else mbit m j)"
    unfolding put_bits_bit bit_push_bit_iff w using n by auto
  consider "j < 8 * p" | "8 * p \<le> j" "j < 8 * (p + 1)" | "8 * (p + 1) \<le> j" by linarith
  then show ?thesis
  proof cases
    case 1
    then have "j div 8 \<noteq> p" by auto
    then show ?thesis unfolding store loop m start using 1 by simp
  next
    case 2
    define t where "t = j - 8 * p"
    have j: "j = 8 * p + t" "t < 8" using 2 by (simp_all add: t_def)
    have "j div 8 = p" "j mod 8 = t" "8 * p + s \<le> j \<longleftrightarrow> s \<le> t" "j < 8 * p + s + n \<longleftrightarrow> t < s + n" "j - (8 * p + s) = t - s"
      using j by simp_all
    then show ?thesis unfolding store loop m start using 2 v [of "t - s"] s by auto
  next
    case 3
    then have "j div 8 \<noteq> p" "8 - s + (j - 8 * (p + 1)) = j - (8 * p + s)" using s by auto
    then show ?thesis unfolding store loop m start using 3 s by (auto simp: add.commute [of s])
  qed
qed (auto simp: StoreBits_def)

section \<open>Properties\<close>

text \<open>C39. A field of up to 64 bits at any bit position is read back as it was stored, and storing it changes no other bit of
  memory (\<^verbatim>\<open>BitMemoryRegion::StoreBits\<close>, \<^verbatim>\<open>LoadBits\<close>).\<close>

theorem StoreBits_LoadBits:
  assumes "n \<le> 64" "unat v < 2 ^ n"
  shows "LoadBits (StoreBits r k v n m) r k n = v \<and>
    (\<forall>j. j < start_bit r + k \<or> start_bit r + k + n \<le> j \<longrightarrow> mbit (StoreBits r k v n m) j = mbit m j)"
proof -
  have v: "i < n" if "bit v i" for i
    using that assms(2) by (metis bit_take_bit_iff take_bit_nat_eq_self unsigned_take_bit_eq word_unat_eq_iff)
  note S = StoreBits_bit [OF assms(1) v]
  have "LoadBits (StoreBits r k v n m) r k n = v"
    by (rule bit_word_eqI) (auto simp: bit_LoadBits [OF assms(1)] S dest: v)
  then show ?thesis by (auto simp: S)
qed

theorem StoreBits_LoadBits_witness:
  "let r = BitMemoryRegion_new 4099 5 100; m = StoreBits r 7 0xABCDE 20 (\<lambda>_. 255)
   in LoadBits m r 7 20 = 0xABCDE \<and> mbit m (start_bit r + 6) \<and> mbit m (start_bit r + 27)"
proof -
  let ?r = "BitMemoryRegion_new 4099 5 100"
  have s: "start_bit ?r = 32797" using BitMemoryRegion_new_start [of 4099 5 100] by simp
  have S: "LoadBits (StoreBits ?r 7 0xABCDE 20 (\<lambda>_. 255)) ?r 7 20 = 0xABCDE"
    "\<And>j. j < 32804 \<or> 32824 \<le> j \<Longrightarrow> mbit (StoreBits ?r 7 0xABCDE 20 (\<lambda>_. 255)) j = mbit (\<lambda>_. 255) j"
    using StoreBits_LoadBits [of 20 "0xABCDE" ?r 7 "\<lambda>_. 255"] by (auto simp: s)
  show ?thesis using S(1) S(2) [of 32803] S(2) [of 32824] by (simp add: s) (simp add: mbit_def)
qed

end
