(* ===== verification/BitMemoryOps.thy ===== *)
theory BitMemoryOps
  imports BitMemory
begin

text \<open>
  Operations on whole regions (\<^verbatim>\<open>libartbase/base/bit_memory_region.h\<close>): the visit in aligned 64-bit chunks, and copying,
  combining, counting, testing and comparing built on it.  A visitor is a function of the chunk and of the state it
  works on, which contains the memory.
\<close>

section \<open>Visiting chunks\<close>

type_synonym 'r visitor = "nat \<Rightarrow> nat \<Rightarrow> u64 \<Rightarrow> mem \<times> 'r \<Rightarrow> bool \<times> mem \<times> 'r"

text \<open>The full chunks and the last, partial one, from the word at \<open>data\<close> on.\<close>

function VisitChunks_loop :: "'r visitor \<Rightarrow> nat \<Rightarrow> nat \<Rightarrow> nat \<Rightarrow> mem \<times> 'r \<Rightarrow> bool \<times> mem \<times> 'r" where
  "VisitChunks_loop visitor data offset remaining_bits s =
     (if remaining_bits \<ge> 64 then
        let (go, s') = visitor offset 64 (load64 (fst s) data) s
        in if \<not> go then (False, s') else VisitChunks_loop visitor (data + 8) (offset + 64) (remaining_bits - 64) s'
      else if remaining_bits \<noteq> 0 then
        visitor offset remaining_bits (load64 (fst s) data AND NOT (push_bit remaining_bits (- 1))) s
      else (True, s))"
  by auto
termination
  by (relation "measure (\<lambda>(_, _, _, remaining_bits, _). remaining_bits)") auto

declare VisitChunks_loop.simps [simp del]

definition VisitChunks :: "bit_region \<Rightarrow> 'r visitor \<Rightarrow> mem \<times> 'r \<Rightarrow> bool \<times> mem \<times> 'r" where
  "VisitChunks r visitor s =
     (let remaining_bits = region_size r
      in if remaining_bits = 0 then (True, s)
         else let data = region_data r + 8 * (region_start r div 64); shift = region_start r mod 64
              in if shift \<noteq> 0
                 then let value = drop_bit shift (load64 (fst s) data);
                          (leading_bits, value) =
                            (if 64 - shift > remaining_bits
                             then (remaining_bits, value AND NOT (push_bit remaining_bits (- 1)))
                             else (64 - shift, value));
                          (go, s') = visitor 0 leading_bits value s
                      in if \<not> go then (False, s')
                         else VisitChunks_loop visitor (data + 8) leading_bits (remaining_bits - leading_bits) s'
                 else VisitChunks_loop visitor data 0 remaining_bits s)"

definition StoreChunk :: "bit_region \<Rightarrow> nat \<Rightarrow> u64 \<Rightarrow> nat \<Rightarrow> mem \<Rightarrow> mem" where
  "StoreChunk r bit_offset value bit_length m =
     (if bit_length = 64 then store m (region_data r + (region_start r + bit_offset) div 8) (u64_to_bytes value)
      else StoreBits r bit_offset value bit_length m)"

section \<open>Operations\<close>

definition copy_visitor :: "bit_region \<Rightarrow> bit_region \<Rightarrow> unit visitor" where
  "copy_visitor this src offset num_bits value s =
     (True, StoreChunk this offset (LoadBits (fst s) src offset num_bits) num_bits (fst s), ())"

definition CopyBits :: "bit_region \<Rightarrow> bit_region \<Rightarrow> mem \<Rightarrow> mem" where
  "CopyBits this src m = fst (snd (VisitChunks this (copy_visitor this src) (m, ())))"

definition combine_visitor :: "(u64 \<Rightarrow> u64 \<Rightarrow> u64) \<Rightarrow> bit_region \<Rightarrow> bit_region \<Rightarrow> unit visitor" where
  "combine_visitor f this src offset num_bits value s =
     (True, StoreChunk this offset (f value (LoadBits (fst s) src offset num_bits)) num_bits (fst s), ())"

definition AndBits :: "bit_region \<Rightarrow> bit_region \<Rightarrow> mem \<Rightarrow> mem" where
  "AndBits this src m = fst (snd (VisitChunks this (combine_visitor (AND) this src) (m, ())))"

definition OrBits :: "bit_region \<Rightarrow> bit_region \<Rightarrow> mem \<Rightarrow> mem" where
  "OrBits this src m = fst (snd (VisitChunks this (combine_visitor (OR) this src) (m, ())))"

definition XorBits :: "bit_region \<Rightarrow> bit_region \<Rightarrow> mem \<Rightarrow> mem" where
  "XorBits this src m = fst (snd (VisitChunks this (combine_visitor (XOR) this src) (m, ())))"

definition PopCount :: "mem \<Rightarrow> bit_region \<Rightarrow> nat" where
  "PopCount m this = snd (snd (VisitChunks this (\<lambda>offset num_bits value (m, result). (True, m, result + POPCOUNT value)) (m, 0)))"

definition PopCount_range :: "mem \<Rightarrow> bit_region \<Rightarrow> nat \<Rightarrow> nat \<Rightarrow> nat" where
  "PopCount_range m this bit_offset bit_length = PopCount m (Subregion bit_offset bit_length this)"

definition HasAllBitsClear :: "mem \<Rightarrow> bit_region \<Rightarrow> bool" where
  "HasAllBitsClear m this = fst (VisitChunks this (\<lambda>offset num_bits value s. (value = 0, s)) (m, ()))"

definition HasSomeBitSet :: "mem \<Rightarrow> bit_region \<Rightarrow> bool" where
  "HasSomeBitSet m this = (\<not> HasAllBitsClear m this)"

definition HasSomeBitSet_range :: "mem \<Rightarrow> bit_region \<Rightarrow> nat \<Rightarrow> nat \<Rightarrow> bool" where
  "HasSomeBitSet_range m this bit_offset bit_length = HasSomeBitSet m (Subregion bit_offset bit_length this)"

definition compare_visitor :: "bit_region \<Rightarrow> int visitor" where
  "compare_visitor rhs offset num_bits lhs_value s =
     (let rhs_value = LoadBits (fst s) rhs offset num_bits
      in if lhs_value = rhs_value then (True, s)
         else let b = CTZ (lhs_value XOR rhs_value)
              in (False, fst s, if drop_bit b rhs_value AND 1 \<noteq> 0 then 1 else - 1))"

definition Compare :: "mem \<Rightarrow> bit_region \<Rightarrow> bit_region \<Rightarrow> int" where
  "Compare m lhs rhs =
     (if size_in_bits lhs \<noteq> size_in_bits rhs then (if size_in_bits lhs < size_in_bits rhs then - 1 else 1)
      else snd (snd (VisitChunks lhs (compare_visitor rhs) (m, 0))))"

definition Region_Equals :: "mem \<Rightarrow> bit_region \<Rightarrow> bit_region \<Rightarrow> bool" where
  "Region_Equals m lhs rhs =
     (if size_in_bits lhs \<noteq> size_in_bits rhs then False
      else fst (VisitChunks lhs (\<lambda>offset num_bits lhs_value s. (lhs_value = LoadBits (fst s) rhs offset num_bits, s)) (m, ())))"

section \<open>The rule for a visit\<close>

text \<open>What a visitor may assume of a chunk: it lies in the region, has the bits of the region at that moment, and is
  aligned when it is full.\<close>

definition chunk_of :: "bit_region \<Rightarrow> mem \<Rightarrow> nat \<Rightarrow> nat \<Rightarrow> u64 \<Rightarrow> bool" where
  "chunk_of r m offset num_bits value \<longleftrightarrow>
     0 < num_bits \<and> num_bits \<le> 64 \<and> offset + num_bits \<le> region_size r \<and>
     (num_bits = 64 \<longrightarrow> (region_start r + offset) mod 64 = 0) \<and>
     (\<forall>i. bit value i \<longleftrightarrow> i < num_bits \<and> mbit m (start_bit r + offset + i))"

lemma bit_masked: "bit (w AND NOT (push_bit n (- 1))) i \<longleftrightarrow> bit w i \<and> i < n" for w :: u64
  using bit_imp_le_length [of w i] by (auto simp: bit_and_iff bit_mask_iff)

lemma VisitChunks_loop_rule:
  assumes "I offset s" "region_size r = offset + rest" "8 * data = start_bit r + offset" "(region_start r + offset) mod 64 = 0"
    and step: "\<And>offset n v m x go m' x'. I offset (m, x) \<Longrightarrow> chunk_of r m offset n v \<Longrightarrow>
      visitor offset n v (m, x) = (go, m', x') \<Longrightarrow> if go then I (offset + n) (m', x') else Q (m', x')"
    and result: "VisitChunks_loop visitor data offset rest s = (go, s')"
  shows "if go then I (region_size r) s' else Q s'"
  using assms(1-4) result
proof (induction rest arbitrary: data offset s rule: less_induct)
  case (less rest)
  obtain m x where s: "s = (m, x)" by force
  note prems = less(2-6)
  have bits: "bit (load64 m data) i \<longleftrightarrow> i < 64 \<and> mbit m (start_bit r + offset + i)" for i
    using prems(3) by (simp add: bit_load64)
  consider "64 \<le> rest" | "rest < 64" "rest \<noteq> 0" | "rest = 0" by linarith
  then show ?case
  proof cases
    case 1
    obtain go1 m1 x1 where v: "visitor offset 64 (load64 m data) s = (go1, m1, x1)" by (metis prod_cases3)
    have "chunk_of r m offset 64 (load64 m data)" using 1 prems bits by (simp add: chunk_of_def)
    then have I: "if go1 then I (offset + 64) (m1, x1) else Q (m1, x1)" using step prems(1) v s by blast
    show ?thesis
    proof (cases go1)
      case True
      then have "VisitChunks_loop visitor (data + 8) (offset + 64) (rest - 64) (m1, x1) = (go, s')"
        using prems(5) 1 v s by (subst (asm) VisitChunks_loop.simps) simp
      moreover have "(region_start r + (offset + 64)) mod 64 = 0" using prems(4) by (simp add: add.assoc [symmetric])
      ultimately show ?thesis using less(1) [of "rest - 64" "offset + 64" "(m1, x1)" "data + 8"] I True 1 prems(2,3) by simp
    next
      case False
      then show ?thesis using prems(5) 1 v s I by (subst (asm) VisitChunks_loop.simps) simp
    qed
  next
    case 2
    let ?v = "load64 m data AND NOT (push_bit rest (- 1))"
    obtain go1 m1 x1 where v: "visitor offset rest ?v s = (go1, m1, x1)" by (metis prod_cases3)
    have "chunk_of r m offset rest ?v" using 2 prems(2) by (auto simp only: chunk_of_def bit_masked bits)
    then have I: "if go1 then I (offset + rest) (m1, x1) else Q (m1, x1)" using step prems(1) v s by blast
    then show ?thesis using prems(2,5) 2 v s by (subst (asm) VisitChunks_loop.simps) (simp split: if_splits)
  next
    case 3
    then show ?thesis using prems by (subst (asm) VisitChunks_loop.simps) simp
  qed
qed

lemma VisitChunks_rule:
  assumes start: "I 0 s"
    and step: "\<And>offset n v m x go m' x'. I offset (m, x) \<Longrightarrow> chunk_of r m offset n v \<Longrightarrow>
      visitor offset n v (m, x) = (go, m', x') \<Longrightarrow> if go then I (offset + n) (m', x') else Q (m', x')"
    and result: "VisitChunks r visitor s = (go, s')"
  shows "if go then I (region_size r) s' else Q s'"
proof -
  let ?N = "region_size r"
  define d where "d = region_data r + 8 * (region_start r div 64)"
  define sh where "sh = region_start r mod 64"
  obtain m x where s: "s = (m, x)" by force
  have d: "start_bit r = 8 * d + sh" using start_split(2) [of r 0] by (simp add: d_def sh_def)
  have loop: "if go' then I ?N s'' else Q s''"
    if "I k t" "?N = k + rest" "8 * dd = start_bit r + k" "(region_start r + k) mod 64 = 0"
      "VisitChunks_loop visitor dd k rest t = (go', s'')" for k t rest dd go' s''
    by (rule VisitChunks_loop_rule [where I = I and Q = Q and visitor = visitor, OF that(1-4) _ that(5)]) (rule step)
  consider "?N = 0" | "?N \<noteq> 0" "sh = 0" | "?N \<noteq> 0" "sh \<noteq> 0" by linarith
  then show ?thesis
  proof cases
    case 1
    then show ?thesis using start result by (simp add: VisitChunks_def)
  next
    case 2
    then have "VisitChunks_loop visitor d 0 ?N s = (go, s')" using result by (simp add: VisitChunks_def flip: d_def sh_def)
    then show ?thesis using loop [OF start, of ?N d go s'] d 2 by (simp add: sh_def)
  next
    case 3
    let ?n = "min (64 - sh) ?N" and ?w = "drop_bit sh (load64 m d)"
    define v where "v = (if 64 - sh > ?N then ?w AND NOT (push_bit ?N (- 1)) else ?w)"
    have k: "sh < 64" by (simp add: sh_def)
    have w: "bit ?w i \<longleftrightarrow> i < 64 - sh \<and> mbit m (start_bit r + i)" for i
      using d by (auto simp: bit_drop_bit_eq bit_load64 add.assoc)
    have "bit v i \<longleftrightarrow> i < ?n \<and> mbit m (start_bit r + i)" for i
      by (cases "64 - sh > ?N") (simp_all only: v_def if_True if_False bit_masked w min_def, auto)
    then have chunk: "chunk_of r m 0 ?n v" using 3 k by (auto simp: chunk_of_def)
    obtain go1 m1 x1 where v: "visitor 0 ?n v s = (go1, m1, x1)" by (metis prod_cases3)
    from step [OF start [unfolded s] chunk v [unfolded s]] have I: "if go1 then I ?n (m1, x1) else Q (m1, x1)" unfolding add_0 .
    have visit: "VisitChunks r visitor s =
        (if \<not> go1 then (False, m1, x1) else VisitChunks_loop visitor (d + 8) ?n (?N - ?n) (m1, x1))"
      using 3 v s unfolding VisitChunks_def Let_def d_def [symmetric] sh_def [symmetric] by (auto simp: v_def min_def)
    show ?thesis
    proof (cases "go1 \<and> ?n = 64 - sh")
      case True
      obtain q where "region_start r = 64 * q + sh" unfolding sh_def by (metis mult_div_mod_eq)
      then have "region_start r + (64 - sh) = 64 * (q + 1)" using k by simp
      then have "(region_start r + ?n) mod 64 = 0" using True by simp
      moreover have "I ?n (m1, x1)" "8 * (d + 8) = start_bit r + ?n"
        "VisitChunks_loop visitor (d + 8) ?n (?N - ?n) (m1, x1) = (go, s')"
        using I True d k visit result by simp_all
      moreover have "?N = ?n + (?N - ?n)" by simp
      ultimately show ?thesis by (intro loop)
    next
      case False
      then show ?thesis using visit result I by (auto simp: min_def VisitChunks_loop.simps split: if_splits)
    qed
  qed
qed

section \<open>Storing a chunk\<close>

lemma store_at: "store m p bs a = (if p \<le> a \<and> a < p + length bs then bs ! (a - p) else m a)"
  using holds_store [of m p bs] store_other [of a p bs m] by (auto simp: holds_def dest: spec [of _ "a - p"])

lemma StoreChunk_bit:
  assumes "n \<le> 64" "n = 64 \<Longrightarrow> (region_start r + k) mod 64 = 0" "\<And>i. bit v i \<Longrightarrow> i < n"
  shows "mbit (StoreChunk r k v n m) j \<longleftrightarrow>
    (if start_bit r + k \<le> j \<and> j < start_bit r + k + n then bit v (j - (start_bit r + k)) else mbit m j)"
proof (cases "n = 64")
  case True
  define p where "p = region_data r + (region_start r + k) div 8"
  have "(region_start r + k) mod 8 = 0" using assms(2) [OF True] mod_mod_cancel [of 8 64 "region_start r + k"] by simp
  then have start: "start_bit r + k = 8 * p" using start_split(1) [of r k] by (simp add: p_def)
  have "mbit (store m p (u64_to_bytes v)) j \<longleftrightarrow> (if 8 * p \<le> j \<and> j < 8 * p + 64 then bit v (j - 8 * p) else mbit m j)"
  proof (cases "8 * p \<le> j \<and> j < 8 * p + 64")
    case True
    define t where "t = j - 8 * p"
    have t: "j = 8 * p + t" "t < 64" using True by (auto simp: t_def)
    then have "j div 8 = p + t div 8" "j mod 8 = t mod 8" by simp_all
    then show ?thesis using True t by (auto simp: mbit_def store_at u64_to_bytes_def bit_ucast_iff bit_drop_bit_eq)
  next
    case False
    then have "\<not> (p \<le> j div 8 \<and> j div 8 < p + 8)" by auto
    then show ?thesis using False by (auto simp: mbit_def store_at length_u64_to_bytes)
  qed
  then show ?thesis using True start by (simp add: StoreChunk_def flip: p_def)
next
  case False
  then show ?thesis using StoreBits_bit [OF assms(1,3)] by (simp add: StoreChunk_def)
qed

section \<open>Copying and combining\<close>

definition disjoint_regions :: "bit_region \<Rightarrow> bit_region \<Rightarrow> bool" where
  "disjoint_regions r r' \<longleftrightarrow>
     start_bit r + region_size r \<le> start_bit r' \<or> start_bit r' + region_size r' \<le> start_bit r"

lemma combine_result:
  assumes f: "\<And>v w i. bit (f v w) i \<longleftrightarrow> g (bit v i) (bit w i)" "\<not> g False False"
    and size: "region_size src = region_size this" and disj: "disjoint_regions this src"
  shows "mbit (fst (snd (VisitChunks this (combine_visitor f this src) (m, ())))) j \<longleftrightarrow>
    (if start_bit this \<le> j \<and> j < start_bit this + region_size this
     then g (mbit m j) (mbit m (start_bit src + (j - start_bit this))) else mbit m j)"
proof -
  let ?s = "start_bit this" and ?t = "start_bit src"
  define I where "I = (\<lambda>k (s :: mem \<times> unit). \<forall>j. mbit (fst s) j \<longleftrightarrow>
      (if ?s \<le> j \<and> j < ?s + k then g (mbit m j) (mbit m (?t + (j - ?s))) else mbit m j))"
  have step: "if go then I (k + n) (m', x') else False"
    if I: "I k (m1, x)" and c: "chunk_of this m1 k n v" and e: "combine_visitor f this src k n v (m1, x) = (go, m', x')"
    for k n v m1 x go m' x'
  proof -
    let ?w = "LoadBits m1 src k n"
    have n: "n \<le> 64" "k + n \<le> region_size this" "n = 64 \<Longrightarrow> (region_start this + k) mod 64 = 0"
      and v: "bit v i \<longleftrightarrow> i < n \<and> mbit m1 (?s + k + i)" for i using c by (auto simp: chunk_of_def)
    have m1: "mbit m1 j \<longleftrightarrow> (if ?s \<le> j \<and> j < ?s + k then g (mbit m j) (mbit m (?t + (j - ?s))) else mbit m j)" for j
      using I by (simp add: I_def)
    have v': "bit v i \<longleftrightarrow> i < n \<and> mbit m (?s + k + i)" for i using v m1 by auto
    have w: "bit ?w i \<longleftrightarrow> i < n \<and> mbit m (?t + k + i)" for i
    proof -
      have "i < n \<Longrightarrow> \<not> (?s \<le> ?t + k + i \<and> ?t + k + i < ?s + k)"
        using disj size n(2) by (auto simp: disjoint_regions_def)
      then show ?thesis unfolding bit_LoadBits [OF n(1)] m1 by auto
    qed
    have fb: "bit (f v ?w) i \<longleftrightarrow> i < n \<and> g (mbit m (?s + k + i)) (mbit m (?t + k + i))" for i
      using f(2) by (cases "i < n") (simp_all add: f(1) v' w)
    have st: "mbit (StoreChunk this k (f v ?w) n m1) j \<longleftrightarrow>
        (if ?s + k \<le> j \<and> j < ?s + k + n then bit (f v ?w) (j - (?s + k)) else mbit m1 j)" for j
      by (rule StoreChunk_bit) (use n fb in auto)
    have "go" "m' = StoreChunk this k (f v ?w) n m1" using e by (simp_all add: combine_visitor_def)
    moreover have "mbit (StoreChunk this k (f v ?w) n m1) j \<longleftrightarrow>
        (if ?s \<le> j \<and> j < ?s + (k + n) then g (mbit m j) (mbit m (?t + (j - ?s))) else mbit m j)" for j
    proof (cases "?s + k \<le> j")
      case True
      then have "?t + (j - ?s) = ?t + k + (j - (?s + k))" "?s + k + (j - (?s + k)) = j" by simp_all
      then show ?thesis unfolding st fb m1 using True by (auto simp: add.assoc)
    next
      case False
      then show ?thesis unfolding st m1 by auto
    qed
    ultimately show ?thesis by (simp add: I_def)
  qed
  obtain go s' where r: "VisitChunks this (combine_visitor f this src) (m, ()) = (go, s')" by (rule prod.exhaust)
  have init: "I 0 (m, ())" by (auto simp: I_def)
  have "if go then I (region_size this) s' else False"
    by (rule VisitChunks_rule [where I = I and Q = "\<lambda>_. False", OF init _ r]) (rule step)
  then have "I (region_size this) s'" by (simp split: if_splits)
  then show ?thesis using r by (simp add: I_def)
qed

lemma bitwise_results:
  assumes "region_size src = region_size this" "disjoint_regions this src"
  defines "within j \<equiv> start_bit this \<le> j \<and> j < start_bit this + region_size this"
    and "other m j \<equiv> mbit m (start_bit src + (j - start_bit this))"
  shows CopyBits_bit: "mbit (CopyBits this src m) j \<longleftrightarrow> (if within j then other m j else mbit m j)"
    and AndBits_bit: "mbit (AndBits this src m) j \<longleftrightarrow> (if within j then mbit m j \<and> other m j else mbit m j)"
    and OrBits_bit: "mbit (OrBits this src m) j \<longleftrightarrow> (if within j then mbit m j \<or> other m j else mbit m j)"
    and XorBits_bit: "mbit (XorBits this src m) j \<longleftrightarrow> (if within j then mbit m j \<noteq> other m j else mbit m j)"
proof -
  note res = combine_result [OF _ _ assms(1,2)]
  have copy: "copy_visitor this src = combine_visitor (\<lambda>_ w. w) this src"
    by (rule ext)+ (simp add: copy_visitor_def combine_visitor_def)
  show "mbit (CopyBits this src m) j \<longleftrightarrow> (if within j then other m j else mbit m j)"
    unfolding CopyBits_def copy within_def other_def by (rule res) simp_all
  show "mbit (AndBits this src m) j \<longleftrightarrow> (if within j then mbit m j \<and> other m j else mbit m j)"
    unfolding AndBits_def within_def other_def by (rule res) (simp_all add: bit_and_iff)
  show "mbit (OrBits this src m) j \<longleftrightarrow> (if within j then mbit m j \<or> other m j else mbit m j)"
    unfolding OrBits_def within_def other_def by (rule res) (simp_all add: bit_or_iff)
  show "mbit (XorBits this src m) j \<longleftrightarrow> (if within j then mbit m j \<noteq> other m j else mbit m j)"
    unfolding XorBits_def within_def other_def by (rule res) (simp_all add: bit_xor_iff)
qed

section \<open>Counting and testing\<close>

definition set_bits_upto :: "mem \<Rightarrow> bit_region \<Rightarrow> nat \<Rightarrow> nat set" where
  "set_bits_upto m r n = {i. i < n \<and> mbit m (start_bit r + i)}"

lemma set_bits_upto_add:
  assumes "\<And>i. bit (v :: u64) i \<longleftrightarrow> i < n \<and> mbit m (start_bit r + k + i)"
  shows "card (set_bits_upto m r (k + n)) = card (set_bits_upto m r k) + POPCOUNT v"
proof -
  have "set_bits_upto m r (k + n) = set_bits_upto m r k \<union> (\<lambda>i. k + i) ` {i. bit v i}"
  proof (rule set_eqI)
    fix j
    show "j \<in> set_bits_upto m r (k + n) \<longleftrightarrow> j \<in> set_bits_upto m r k \<union> (\<lambda>i. k + i) ` {i. bit v i}"
    proof (cases "j < k")
      case False
      then obtain i where "j = k + i" using le_Suc_ex not_less by blast
      then show ?thesis using assms [of i] by (auto simp: set_bits_upto_def add.assoc)
    qed (auto simp: set_bits_upto_def)
  qed
  moreover have "set_bits_upto m r k \<inter> (\<lambda>i. k + i) ` {i. bit v i} = {}" by (auto simp: set_bits_upto_def)
  moreover have "finite (set_bits_upto m r k)" by (simp add: set_bits_upto_def)
  moreover have "finite {i. bit v i}" by (rule finite_subset [of _ "{..<64}"]) (use bit_imp_le_length [of v] in auto)
  ultimately show ?thesis by (simp add: card_Un_disjoint card_image POPCOUNT_card)
qed

lemma PopCount_card: "PopCount m r = card (set_bits_upto m r (region_size r))"
proof -
  let ?v = "\<lambda>offset num_bits value (m, result). (True, m, result + POPCOUNT value)"
  define I where "I = (\<lambda>k (s :: mem \<times> nat). s = (m, card (set_bits_upto m r k)))"
  obtain go s' where r: "VisitChunks r ?v (m, 0) = (go, s')" by (rule prod.exhaust)
  have init: "I 0 (m, 0)" by (simp add: I_def set_bits_upto_def)
  have "if go then I (region_size r) s' else False"
  proof (rule VisitChunks_rule [where I = I and Q = "\<lambda>_. False", OF init _ r])
    fix k n v m1 x go m' x'
    assume I: "I k (m1, x)" and c: "chunk_of r m1 k n v" and e: "?v k n v (m1, x) = (go, m', x')"
    then have "card (set_bits_upto m r (k + n)) = card (set_bits_upto m r k) + POPCOUNT v"
      by (intro set_bits_upto_add) (simp add: I_def chunk_of_def)
    then show "if go then I (k + n) (m', x') else False" using I e by (auto simp: I_def)
  qed
  then have "s' = (m, card (set_bits_upto m r (region_size r)))" by (simp add: I_def split: if_splits)
  then show ?thesis using r by (simp add: PopCount_def)
qed

lemma HasAllBitsClear_iff: "HasAllBitsClear m r \<longleftrightarrow> (\<forall>i < region_size r. \<not> mbit m (start_bit r + i))"
proof -
  let ?v = "\<lambda>offset num_bits value s. (value = 0, s)"
  define I where "I = (\<lambda>k (s :: mem \<times> unit). fst s = m \<and> (\<forall>i < k. \<not> mbit m (start_bit r + i)))"
  define Q where "Q = (\<lambda>s :: mem \<times> unit. \<exists>i < region_size r. mbit m (start_bit r + i))"
  obtain go s' where r: "VisitChunks r ?v (m, ()) = (go, s')" by (rule prod.exhaust)
  have init: "I 0 (m, ())" by (simp add: I_def)
  have "if go then I (region_size r) s' else Q s'"
  proof (rule VisitChunks_rule [where I = I and Q = Q, OF init _ r])
    fix k n v m1 x go m' x'
    assume I: "I k (m1, x)" and c: "chunk_of r m1 k n v" and e: "?v k n v (m1, x) = (go, m', x')"
    have v: "bit v i \<longleftrightarrow> i < n \<and> mbit m (start_bit r + (k + i))" for i using I c by (auto simp: I_def chunk_of_def add.assoc)
    show "if go then I (k + n) (m', x') else Q (m', x')"
    proof (cases "v = 0")
      case True
      have "\<not> mbit m (start_bit r + i)" if "i < k + n" for i
        using that I v [of "i - k"] True by (cases "i < k") (auto simp: I_def)
      then show ?thesis using I e True by (auto simp: I_def)
    next
      case False
      then obtain i where "bit v i" by (metis bit_0_eq bit_word_eqI bot_apply bot_bool_def)
      then have "k + i < region_size r \<and> mbit m (start_bit r + (k + i))" using v [of i] c by (simp add: chunk_of_def)
      then have "Q (m', x')" unfolding Q_def by blast
      then show ?thesis using e False by simp
    qed
  qed
  then show ?thesis using r by (auto simp: HasAllBitsClear_def I_def Q_def split: if_splits)
qed

section \<open>Comparing\<close>

definition region_bits :: "mem \<Rightarrow> bit_region \<Rightarrow> bool list" where
  "region_bits m r = map (\<lambda>i. mbit m (start_bit r + i)) [0..<region_size r]"

text \<open>The order of bit sequences: shorter ones first, then the first difference decides, with a set bit before a clear
  one.\<close>

fun compare_bits :: "bool list \<Rightarrow> bool list \<Rightarrow> int" where
  "compare_bits (x # xs) (y # ys) = (if x = y then compare_bits xs ys else if y then 1 else - 1)"
| "compare_bits _ _ = 0"

lemma compare_bits_equal: "compare_bits xs xs = 0"
  by (induction xs) simp_all

lemma compare_bits_first:
  assumes "length xs = length ys" "i < length xs" "\<And>k. k < i \<Longrightarrow> xs ! k = ys ! k" "xs ! i \<noteq> ys ! i"
  shows "compare_bits xs ys = (if ys ! i then 1 else - 1)"
  using assms
proof (induction xs ys arbitrary: i rule: list_induct2)
  case (Cons x xs y ys)
  show ?case
  proof (cases i)
    case (Suc j)
    then have "x = y" "compare_bits xs ys = (if ys ! j then 1 else - 1)"
      using Cons(2) [of j] Cons(3-5) by fastforce+
    then show ?thesis using Suc by simp
  qed (use Cons in simp)
qed simp

lemma compare_chunk:
  assumes I: "\<forall>i < k. mbit m (start_bit l + i) = mbit m (start_bit r + i)" and c: "chunk_of l m k n v"
  defines "w \<equiv> LoadBits m r k n"
  shows "if v = w then \<forall>i < k + n. mbit m (start_bit l + i) = mbit m (start_bit r + i)
    else \<exists>i < region_size l. (\<forall>j < i. mbit m (start_bit l + j) = mbit m (start_bit r + j)) \<and>
      mbit m (start_bit l + i) \<noteq> mbit m (start_bit r + i) \<and> bit w (CTZ (v XOR w)) = mbit m (start_bit r + i)"
proof -
  have n: "n \<le> 64" "k + n \<le> region_size l" and v: "bit v i \<longleftrightarrow> i < n \<and> mbit m (start_bit l + (k + i))" for i
    using c by (auto simp: chunk_of_def add.assoc)
  have w: "bit w i \<longleftrightarrow> i < n \<and> mbit m (start_bit r + (k + i))" for i
    unfolding w_def bit_LoadBits [OF n(1)] by (simp add: add.assoc)
  show ?thesis
  proof (cases "v = w")
    case True
    have "mbit m (start_bit l + i) = mbit m (start_bit r + i)" if "i < k + n" for i
      using that I v [of "i - k"] w [of "i - k"] True by (cases "i < k") auto
    then show ?thesis using True by simp
  next
    case False
    let ?b = "CTZ (v XOR w)"
    have "v = (v XOR w) XOR w" unfolding xor.assoc xor_self_eq by simp
    then have "v XOR w \<noteq> 0" using False by auto
    then have b: "bit v ?b \<noteq> bit w ?b" "\<And>i. i < ?b \<Longrightarrow> bit v i = bit w i"
      using CTZ_facts(2,3) [of "v XOR w"] by (auto simp: bit_xor_iff)
    then have "?b < n" using v w by blast
    moreover have "mbit m (start_bit l + j) = mbit m (start_bit r + j)" if "j < k + ?b" for j
      using that I b(2) [of "j - k"] v [of "j - k"] w [of "j - k"] \<open>?b < n\<close> by (cases "j < k") auto
    moreover have "mbit m (start_bit l + (k + ?b)) \<noteq> mbit m (start_bit r + (k + ?b))" "bit w ?b = mbit m (start_bit r + (k + ?b))"
      using b(1) v [of ?b] w [of ?b] \<open>?b < n\<close> by simp_all
    ultimately have "k + ?b < region_size l \<and> (\<forall>j < k + ?b. mbit m (start_bit l + j) = mbit m (start_bit r + j)) \<and>
      mbit m (start_bit l + (k + ?b)) \<noteq> mbit m (start_bit r + (k + ?b)) \<and> bit w ?b = mbit m (start_bit r + (k + ?b))"
      using n(2) by simp
    then show ?thesis using False by (simp only: if_False) blast
  qed
qed

definition equal_upto :: "mem \<Rightarrow> bit_region \<Rightarrow> bit_region \<Rightarrow> nat \<Rightarrow> bool" where
  "equal_upto m l r k \<longleftrightarrow> (\<forall>i < k. mbit m (start_bit l + i) = mbit m (start_bit r + i))"

definition first_difference :: "mem \<Rightarrow> bit_region \<Rightarrow> bit_region \<Rightarrow> bool \<Rightarrow> bool" where
  "first_difference m l r b \<longleftrightarrow> (\<exists>i < region_size l. equal_upto m l r i \<and>
     mbit m (start_bit l + i) \<noteq> mbit m (start_bit r + i) \<and> b = mbit m (start_bit r + i))"

lemma compare_chunk_cases:
  assumes "equal_upto m l r k" "chunk_of l m k n v"
  shows "if v = LoadBits m r k n then equal_upto m l r (k + n)
    else first_difference m l r (bit (LoadBits m r k n) (CTZ (v XOR LoadBits m r k n)))"
  using compare_chunk [OF assms(1) [unfolded equal_upto_def] assms(2)] unfolding equal_upto_def first_difference_def .

lemma region_bits_compare:
  assumes "region_size l = region_size r"
  shows "equal_upto m l r (region_size l) \<Longrightarrow> region_bits m l = region_bits m r"
    and "first_difference m l r b \<Longrightarrow>
      compare_bits (region_bits m l) (region_bits m r) = (if b then 1 else - 1) \<and> region_bits m l \<noteq> region_bits m r"
proof -
  show "region_bits m l = region_bits m r" if "equal_upto m l r (region_size l)"
    using that assms by (simp add: region_bits_def equal_upto_def)
  assume "first_difference m l r b"
  then obtain i where i: "i < region_size l" "equal_upto m l r i" "mbit m (start_bit l + i) \<noteq> mbit m (start_bit r + i)"
    "b = mbit m (start_bit r + i)" by (auto simp: first_difference_def)
  have nth: "region_bits m l ! i \<noteq> region_bits m r ! i" "region_bits m r ! i = b" using i assms by (simp_all add: region_bits_def)
  then have "compare_bits (region_bits m l) (region_bits m r) = (if b then 1 else - 1)"
    using compare_bits_first [of "region_bits m l" "region_bits m r" i] i assms by (simp add: region_bits_def equal_upto_def)
  then show "compare_bits (region_bits m l) (region_bits m r) = (if b then 1 else - 1) \<and> region_bits m l \<noteq> region_bits m r"
    using nth by auto
qed

lemma Compare_bits:
  "Compare m l r = (if region_size l < region_size r then - 1 else if region_size r < region_size l then 1
     else compare_bits (region_bits m l) (region_bits m r))"
proof (cases "region_size l = region_size r")
  case True
  define I where "I = (\<lambda>k s. s = (m, 0 :: int) \<and> equal_upto m l r k)"
  define Q where "Q = (\<lambda>s :: mem \<times> int. \<exists>b. first_difference m l r b \<and> snd s = (if b then 1 else - 1))"
  obtain go s' where v: "VisitChunks l (compare_visitor r) (m, 0) = (go, s')" by (rule prod.exhaust)
  have init: "I 0 (m, 0)" by (simp add: I_def equal_upto_def)
  have "if go then I (region_size l) s' else Q s'"
  proof (rule VisitChunks_rule [where I = I and Q = Q, OF init _ v])
    fix k n v m1 x go m' x'
    assume I: "I k (m1, x)" and c: "chunk_of l m1 k n v" and e: "compare_visitor r k n v (m1, x) = (go, m', x')"
    then have m1: "m1 = m" "x = 0" "equal_upto m l r k" by (simp_all add: I_def)
    show "if go then I (k + n) (m', x') else Q (m', x')"
      using compare_chunk_cases [OF m1(3) c [unfolded m1(1)]] e unfolding compare_visitor_def and_one_bit Let_def m1
      by (auto simp: I_def Q_def split: if_splits)
  qed
  then have "snd s' = compare_bits (region_bits m l) (region_bits m r)"
    using region_bits_compare [OF True] by (auto simp: I_def Q_def compare_bits_equal split: if_splits)
  then show ?thesis using v True by (simp add: Compare_def size_in_bits_def)
qed (auto simp: Compare_def size_in_bits_def)

lemma Region_Equals_bits: "Region_Equals m l r \<longleftrightarrow> region_bits m l = region_bits m r"
proof (cases "region_size l = region_size r")
  case True
  let ?v = "\<lambda>offset num_bits lhs_value s. (lhs_value = LoadBits (fst s) r offset num_bits, s)"
  define I where "I = (\<lambda>k (s :: mem \<times> unit). fst s = m \<and> equal_upto m l r k)"
  define Q where "Q = (\<lambda>s :: mem \<times> unit. \<exists>b. first_difference m l r b)"
  obtain go s' where v: "VisitChunks l ?v (m, ()) = (go, s')" by (rule prod.exhaust)
  have init: "I 0 (m, ())" by (simp add: I_def equal_upto_def)
  have "if go then I (region_size l) s' else Q s'"
  proof (rule VisitChunks_rule [where I = I and Q = Q, OF init _ v])
    fix k n v m1 x go m' x'
    assume I: "I k (m1, x)" and c: "chunk_of l m1 k n v" and e: "?v k n v (m1, x) = (go, m', x')"
    then have m1: "m1 = m" "equal_upto m l r k" by (simp_all add: I_def)
    show "if go then I (k + n) (m', x') else Q (m', x')"
      using compare_chunk_cases [OF m1(2) c [unfolded m1(1)]] e m1(1) by (auto simp: I_def Q_def split: if_splits)
  qed
  then have "go \<longleftrightarrow> region_bits m l = region_bits m r"
    using region_bits_compare [OF True, of m] by (auto simp: I_def Q_def split: if_splits)
  then show ?thesis using v True by (simp add: Region_Equals_def size_in_bits_def)
next
  case False
  then have "length (region_bits m l) \<noteq> length (region_bits m r)" by (simp add: region_bits_def)
  then show ?thesis using False by (auto simp: Region_Equals_def size_in_bits_def)
qed

section \<open>Properties\<close>

lemma compare_bits_swap: "compare_bits ys xs = - compare_bits xs ys"
  by (induction xs ys rule: compare_bits.induct) auto

lemma compare_bits_0: "length xs = length ys \<Longrightarrow> compare_bits xs ys = 0 \<longleftrightarrow> xs = ys"
  by (induction xs ys rule: list_induct2) auto

lemma compare_bits_trans:
  "length xs = length ys \<Longrightarrow> length ys = length zs \<Longrightarrow> compare_bits xs ys \<le> 0 \<Longrightarrow> compare_bits ys zs \<le> 0 \<Longrightarrow> compare_bits xs zs \<le> 0"
  by (induction xs ys zs rule: list_induct3) (auto split: if_splits)

lemma length_region_bits [simp]: "length (region_bits m r) = region_size r"
  by (simp add: region_bits_def)

lemma region_new_bits:
  "start_bit (BitMemoryRegion_new p (int k) n) = 8 * p + k" "region_size (BitMemoryRegion_new p (int k) n) = n"
  "region_bits m (BitMemoryRegion_new p (int k) n) = map (\<lambda>i. mbit m (8 * p + k + i)) [0..<n]"
proof -
  show s: "start_bit (BitMemoryRegion_new p (int k) n) = 8 * p + k" "region_size (BitMemoryRegion_new p (int k) n) = n"
    using BitMemoryRegion_new_start [of p "int k" n] by linarith+
  show "region_bits m (BitMemoryRegion_new p (int k) n) = map (\<lambda>i. mbit m (8 * p + k + i)) [0..<n]" by (simp add: region_bits_def s)
qed

text \<open>C37. \<^verbatim>\<open>BitMemoryRegion::Compare\<close> is a total order of bit sequences: the result is zero exactly when the regions hold the same
  bits, which is also what \<^verbatim>\<open>Equals\<close> decides; exchanging the regions negates it; it is transitive; and it depends on the
  bits alone, neither on the alignment of the regions nor on the chunks in which they are visited.\<close>

theorem Compare_total_order:
  "(Compare m l r = 0 \<longleftrightarrow> region_bits m l = region_bits m r) \<and> (Region_Equals m l r \<longleftrightarrow> region_bits m l = region_bits m r) \<and>
   Compare m r l = - Compare m l r \<and> (Compare m l r \<le> 0 \<and> Compare m r s \<le> 0 \<longrightarrow> Compare m l s \<le> 0) \<and>
   (region_bits m l' = region_bits m l \<and> region_bits m r' = region_bits m r \<longrightarrow> Compare m l' r' = Compare m l r)"
proof (intro conjI impI)
  show "Compare m l r = 0 \<longleftrightarrow> region_bits m l = region_bits m r"
    using compare_bits_0 [of "region_bits m l" "region_bits m r"] by (auto simp: Compare_bits dest: arg_cong [of _ _ length])
  show "Compare m l s \<le> 0" if "Compare m l r \<le> 0 \<and> Compare m r s \<le> 0"
    using that compare_bits_trans [of "region_bits m l" "region_bits m r" "region_bits m s"] by (auto simp: Compare_bits split: if_splits)
  show "Compare m l' r' = Compare m l r" if e: "region_bits m l' = region_bits m l \<and> region_bits m r' = region_bits m r"
  proof -
    have "region_size l' = region_size l" "region_size r' = region_size r" using e by (metis length_region_bits)+
    then show ?thesis using e by (simp add: Compare_bits)
  qed
qed (simp_all add: Region_Equals_bits Compare_bits compare_bits_swap [of "region_bits m r"])

theorem Compare_total_order_witness:
  "let m = (\<lambda>_. 0)(2 := 12, 3 := 3, 4 := 5); r = (\<lambda>k. BitMemoryRegion_new 2 (int k) 3)
   in Compare m (r 2) (r 16) \<le> 0 \<and> Compare m (r 16) (r 8) = 1 \<and> Compare m (r 8) (r 2) = 0"
proof -
  define m :: mem where "m = (\<lambda>_. 0)(2 := 12, 3 := 3, 4 := 5)"
  define r where "r k = BitMemoryRegion_new 2 (int k) 3" for k
  have b: "region_bits m (r 8) = [True, True, False]" "region_bits m (r 16) = [True, False, True]" "region_bits m (r 2) = [True, True, False]"
    unfolding r_def region_new_bits(3) m_def by code_simp+
  have s: "region_size (r k) = 3" for k by (simp add: r_def region_new_bits)
  have c: "Compare m (r 2) (r 8) \<le> 0" "Compare m (r 8) (r 16) = - 1" by (simp_all add: Compare_bits b s)
  have "Compare m (r 2) (r 16) \<le> 0" using Compare_total_order [of m "r 2" "r 8" "r 16"] c by (metis neg_le_0_iff_le zero_le_one)
  moreover have "Compare m (r 16) (r 8) = 1" using Compare_total_order [of m "r 8" "r 16"] c(2) by (metis minus_minus)
  moreover have "Compare m (r 8) (r 2) = 0" using Compare_total_order [of m "r 8" "r 2"] b by metis
  ultimately show ?thesis unfolding Let_def m_def r_def by (intro conjI)
qed

text \<open>C38. \<^verbatim>\<open>CopyBits\<close>, \<^verbatim>\<open>AndBits\<close>, \<^verbatim>\<open>OrBits\<close> and \<^verbatim>\<open>XorBits\<close> on regions of one size that do not overlap, aligned in any way, combine
  them bit by bit and change nothing else; \<^verbatim>\<open>PopCount\<close> and \<^verbatim>\<open>HasAllBitsClear\<close> count the bits of the result.\<close>

theorem bitwise_operations:
  assumes "region_size src = region_size this" "disjoint_regions this src"
    and "(f, op) \<in> {(CopyBits, \<lambda>_ y. y), (AndBits, (\<and>)), (OrBits, (\<or>)), (XorBits, (\<noteq>))}"
  shows "region_bits (f this src m) this = map2 op (region_bits m this) (region_bits m src) \<and>
    (\<forall>j. j < start_bit this \<or> start_bit this + region_size this \<le> j \<longrightarrow> mbit (f this src m) j = mbit m j) \<and>
    PopCount (f this src m) this = length (filter (\<lambda>b. b) (map2 op (region_bits m this) (region_bits m src))) \<and>
    (HasAllBitsClear (f this src m) this \<longleftrightarrow> True \<notin> set (map2 op (region_bits m this) (region_bits m src)))"
proof -
  note R = bitwise_results [OF assms(1,2)]
  have b: "region_bits (f this src m) this = map2 op (region_bits m this) (region_bits m src)"
    by (rule nth_equalityI) (use assms(1,3) in \<open>auto simp: region_bits_def R\<close>)
  have pop: "PopCount m r = length (filter (\<lambda>b. b) (region_bits m r))" for m r
    unfolding PopCount_card set_bits_upto_def region_bits_def
    by (auto simp: filter_map comp_def length_filter_conv_card intro!: arg_cong [of _ _ card])
  have clear: "HasAllBitsClear m r \<longleftrightarrow> True \<notin> set (region_bits m r)" for m r
    by (auto simp: HasAllBitsClear_iff region_bits_def)
  show ?thesis unfolding pop clear b using assms(3) by (auto simp: R)
qed

theorem bitwise_operations_witness:
  "let m = (\<lambda>_. 0)(2 := 7, 5 := 10); this = BitMemoryRegion_new 2 (int 0) 5; src = BitMemoryRegion_new 5 (int 1) 5
   in region_bits (XorBits this src m) this = [False, True, False, False, False] \<and> PopCount (XorBits this src m) this = 1 \<and>
      mbit (XorBits this src m) 41"
proof -
  define m :: mem where "m = (\<lambda>_. 0)(2 := 7, 5 := 10)"
  define this src where "this = BitMemoryRegion_new 2 (int 0) 5" and "src = BitMemoryRegion_new 5 (int 1) 5"
  have v: "map2 (\<noteq>) (region_bits m this) (region_bits m src) = [False, True, False, False, False]" "mbit m 41"
    unfolding this_def src_def region_new_bits(3) m_def by code_simp+
  have s: "start_bit this = 16" "region_size this = 5" "start_bit src = 41" "region_size src = 5"
    unfolding this_def src_def region_new_bits by simp_all
  have d: "region_size src = region_size this" "disjoint_regions this src" using s by (simp_all add: disjoint_regions_def)
  have "(XorBits, (\<noteq>)) \<in> {(CopyBits, \<lambda>_ y. y), (AndBits, (\<and>)), (OrBits, (\<or>)), (XorBits, (\<noteq>))}" by simp
  note X = bitwise_operations [OF d this, of m, unfolded v(1) s]
  have "region_bits (XorBits this src m) this = [False, True, False, False, False]" "PopCount (XorBits this src m) this = 1"
    "mbit (XorBits this src m) 41" using X v(2) by simp_all
  then show ?thesis unfolding Let_def m_def this_def src_def by (intro conjI)
qed

end
