(* ===== verification/BitMemoryIO.thy ===== *)
theory BitMemoryIO
  imports BitMemoryOps
begin

text \<open>
  Reading and writing bits in sequence (\<open>BitMemoryReader\<close>, \<open>BitMemoryWriter\<close> of \<^verbatim>\<open>libartbase/base/bit_memory_region.h\<close>):
  fields of any width, regions, bytes, and variable-length integers in consecutive or interleaved form.  The vector a
  writer appends to lies at the address \<open>out_data\<close>; where a growing vector would be moved its bytes move with it, and
  no region outlives a call.
\<close>

section \<open>Reader\<close>

definition kVarintBits :: nat where "kVarintBits = 4"
definition kVarintMax :: nat where "kVarintMax = 11"

definition BitMemoryReader_new :: "nat \<Rightarrow> int \<Rightarrow> bit_region" where
  "BitMemoryReader_new data bit_offset = BitMemoryRegion_new data bit_offset 0"

definition BitMemoryReader_region :: "bit_region \<Rightarrow> bit_region" where
  "BitMemoryReader_region data = Subregion 0 0 data"

definition NumberOfReadBits :: "bit_region \<Rightarrow> nat" where
  "NumberOfReadBits finished_region = size_in_bits finished_region"

definition ReadRegion :: "nat \<Rightarrow> bit_region \<Rightarrow> bit_region \<times> bit_region" where
  "ReadRegion bit_length finished_region =
     (let bit_offset = size_in_bits finished_region;
          finished_region = Resize_region (bit_offset + bit_length) finished_region
      in (Subregion bit_offset bit_length finished_region, finished_region))"

definition ReadBits :: "mem \<Rightarrow> nat \<Rightarrow> bit_region \<Rightarrow> u64 \<times> bit_region" where
  "ReadBits m bit_length r = (let (region, r) = ReadRegion bit_length r in (LoadBits m region 0 bit_length, r))"

definition ReadBit :: "mem \<Rightarrow> bit_region \<Rightarrow> bool \<times> bit_region" where
  "ReadBit m r = (let (region, r) = ReadRegion 1 r in (LoadBit m region 0, r))"

definition ReadVarint :: "mem \<Rightarrow> bit_region \<Rightarrow> u32 \<times> bit_region" where
  "ReadVarint m r =
     (let (x, r) = ReadBits m kVarintBits r
      in if unat x \<le> kVarintMax then (ucast x, r)
         else let (y, r) = ReadBits m ((unat x - kVarintMax) * 8) r in (ucast y, r))"

fun read_large :: "mem \<Rightarrow> u32 list \<Rightarrow> bit_region \<Rightarrow> u32 list \<times> bit_region" where
  "read_large m [] r = ([], r)"
| "read_large m (x # xs) r =
     (let (y, r) = (if unat x > kVarintMax
                    then let (z, r) = ReadBits m ((unat x - kVarintMax) * 8) r in (ucast z, r)
                    else (x, r));
          (ys, r) = read_large m xs r
      in (y # ys, r))"

definition ReadInterleavedVarints :: "mem \<Rightarrow> nat \<Rightarrow> bit_region \<Rightarrow> u32 list \<times> bit_region" where
  "ReadInterleavedVarints m n r =
     (let (data, r) = ReadBits m (n * kVarintBits) r
      in read_large m (map (\<lambda>i. ucast (BitFieldExtract data (i * kVarintBits) kVarintBits)) [0..<n]) r)"

section \<open>Writer\<close>

record bit_writer =
  out_data :: nat
  out_size :: nat
  writer_start :: nat
  writer_offset :: nat

definition BitMemoryWriter_new :: "nat \<Rightarrow> nat \<Rightarrow> nat \<Rightarrow> bit_writer" where
  "BitMemoryWriter_new out bytes bit_offset =
     \<lparr>out_data = out, out_size = bytes, writer_start = bit_offset, writer_offset = bit_offset\<rparr>"

definition BitsToBytes :: "nat \<Rightarrow> nat" where
  "BitsToBytes num_bits = (num_bits + 7) div 8"

definition resize_out :: "nat \<Rightarrow> bit_writer \<Rightarrow> mem \<Rightarrow> bit_writer \<times> mem" where
  "resize_out n w m =
     (w\<lparr>out_size := n\<rparr>,
      if n > out_size w then store m (out_data w + out_size w) (replicate (n - out_size w) 0) else m)"

definition Truncate_bits :: "nat \<Rightarrow> bit_writer \<Rightarrow> mem \<Rightarrow> bit_writer \<times> mem" where
  "Truncate_bits bit_offset w m = resize_out (BitsToBytes bit_offset) (w\<lparr>writer_offset := bit_offset\<rparr>) m"

definition GetWrittenRegion :: "bit_writer \<Rightarrow> bit_region" where
  "GetWrittenRegion w = BitMemoryRegion_new (out_data w) (int (writer_start w)) (writer_offset w - writer_start w)"

definition NumberOfWrittenBits :: "bit_writer \<Rightarrow> nat" where
  "NumberOfWrittenBits w = writer_offset w - writer_start w"

definition Allocate :: "nat \<Rightarrow> bit_writer \<Rightarrow> mem \<Rightarrow> bit_region \<times> bit_writer \<times> mem" where
  "Allocate bit_length w m =
     (let (w, m) = resize_out (BitsToBytes (writer_offset w + bit_length)) w m;
          region = BitMemoryRegion_new (out_data w) (int (writer_offset w)) bit_length
      in (region, w\<lparr>writer_offset := writer_offset w + bit_length\<rparr>, m))"

definition WriteRegion :: "bit_region \<Rightarrow> bit_writer \<Rightarrow> mem \<Rightarrow> bit_writer \<times> mem" where
  "WriteRegion region w m = (let (r, w, m) = Allocate (size_in_bits region) w m in (w, CopyBits r region m))"

definition WriteBits :: "u32 \<Rightarrow> nat \<Rightarrow> bit_writer \<Rightarrow> mem \<Rightarrow> bit_writer \<times> mem" where
  "WriteBits value bit_length w m =
     (let (r, w, m) = Allocate bit_length w m in (w, StoreBits r 0 (ucast value) bit_length m))"

definition WriteBit :: "bool \<Rightarrow> bit_writer \<Rightarrow> mem \<Rightarrow> bit_writer \<times> mem" where
  "WriteBit value w m = (let (r, w, m) = Allocate 1 w m in (w, StoreBit r 0 value m))"

definition varint_bytes :: "u32 \<Rightarrow> nat" where
  "varint_bytes value = BitsToBytes (MinimumBitsToStore value)"

fun write_small :: "u32 list \<Rightarrow> bit_writer \<Rightarrow> mem \<Rightarrow> bit_writer \<times> mem" where
  "write_small [] w m = (w, m)"
| "write_small (value # values) w m =
     (let (w, m) = (if unat value > kVarintMax
                    then WriteBits (of_nat (kVarintMax + varint_bytes value)) kVarintBits w m
                    else WriteBits value kVarintBits w m)
      in write_small values w m)"

fun write_large :: "u32 list \<Rightarrow> bit_writer \<Rightarrow> mem \<Rightarrow> bit_writer \<times> mem" where
  "write_large [] w m = (w, m)"
| "write_large (value # values) w m =
     (let (w, m) = (if unat value > kVarintMax then WriteBits value (varint_bytes value * 8) w m else (w, m))
      in write_large values w m)"

definition WriteInterleavedVarints :: "u32 list \<Rightarrow> bit_writer \<Rightarrow> mem \<Rightarrow> bit_writer \<times> mem" where
  "WriteInterleavedVarints values w m = (let (w, m) = write_small values w m in write_large values w m)"

definition WriteVarint :: "u32 \<Rightarrow> bit_writer \<Rightarrow> mem \<Rightarrow> bit_writer \<times> mem" where
  "WriteVarint value w m = WriteInterleavedVarints [value] w m"

definition WriteBytesAligned :: "u8 list \<Rightarrow> bit_writer \<Rightarrow> mem \<Rightarrow> bit_writer \<times> mem" where
  "WriteBytesAligned bytes w m =
     (w\<lparr>out_size := out_size w + length bytes, writer_offset := writer_offset w + length bytes * 8\<rparr>,
      store m (out_data w + out_size w) bytes)"

definition ByteAlign :: "bit_writer \<Rightarrow> bit_writer" where
  "ByteAlign w = w\<lparr>writer_offset := BitsToBytes (writer_offset w) * 8\<rparr>"

section \<open>Appending bits\<close>

definition bits_of :: "nat \<Rightarrow> 'a::len word \<Rightarrow> bool list" where
  "bits_of n v = map (bit v) [0..<n]"

definition holds_bits :: "mem \<Rightarrow> nat \<Rightarrow> bool list \<Rightarrow> bool" where
  "holds_bits m p xs \<longleftrightarrow> (\<forall>i < length xs. mbit m (p + i) = xs ! i)"

definition writer_pos :: "bit_writer \<Rightarrow> nat" where
  "writer_pos w = 8 * out_data w + writer_offset w"

definition reader_pos :: "bit_region \<Rightarrow> nat" where
  "reader_pos r = start_bit r + region_size r"

text \<open>The bits after the last one written, up to the end of its byte, are clear.\<close>

definition clean :: "bit_writer \<Rightarrow> mem \<Rightarrow> bool" where
  "clean w m \<longleftrightarrow> (\<forall>j. writer_pos w \<le> j \<and> j < 8 * (out_data w + out_size w) \<longrightarrow> \<not> mbit m j)"

text \<open>The writer has appended the bits \<open>xs\<close>: everything before them and everything outside of the vector is as it was.\<close>

definition wrote :: "bit_writer \<Rightarrow> mem \<Rightarrow> bool list \<Rightarrow> bit_writer \<Rightarrow> mem \<Rightarrow> bool" where
  "wrote w m xs w' m' \<longleftrightarrow>
     out_size w = BitsToBytes (writer_offset w) \<and> out_size w' = BitsToBytes (writer_offset w') \<and>
     out_data w' = out_data w \<and> writer_start w' = writer_start w \<and> writer_offset w' = writer_offset w + length xs \<and>
     holds_bits m' (writer_pos w) xs \<and> (\<forall>j < writer_pos w. mbit m' j = mbit m j) \<and>
     (\<forall>a. a < out_data w \<or> out_data w + out_size w' \<le> a \<longrightarrow> m' a = m a) \<and> (clean w m \<longrightarrow> clean w' m')"

lemma length_bits_of [simp]: "length (bits_of n v) = n"
  by (simp add: bits_of_def)

lemma bits_of_nth [simp]: "i < n \<Longrightarrow> bits_of n v ! i = bit v i"
  by (simp add: bits_of_def)

lemma holds_bits_append:
  "holds_bits m p (xs @ ys) \<longleftrightarrow> holds_bits m p xs \<and> holds_bits m (p + length xs) ys"
proof
  assume h: "holds_bits m p (xs @ ys)"
  have "mbit m (p + i) = xs ! i" if "i < length xs" for i
    using h that by (simp add: holds_bits_def nth_append split: if_splits)
  moreover have "mbit m (p + length xs + i) = ys ! i" if "i < length ys" for i
    using h [unfolded holds_bits_def, rule_format, of "length xs + i"] that by (simp add: add.assoc)
  ultimately show "holds_bits m p xs \<and> holds_bits m (p + length xs) ys" by (simp add: holds_bits_def)
next
  assume h: "holds_bits m p xs \<and> holds_bits m (p + length xs) ys"
  show "holds_bits m p (xs @ ys)"
    unfolding holds_bits_def
  proof (intro allI impI)
    fix i
    assume "i < length (xs @ ys)"
    then show "mbit m (p + i) = (xs @ ys) ! i"
      using h [unfolded holds_bits_def, THEN conjunct2, rule_format, of "i - length xs"] h
      by (cases "i < length xs") (simp_all add: holds_bits_def nth_append)
  qed
qed

lemma holds_bits_keep: "holds_bits m p xs \<Longrightarrow> (\<And>j. j < p + length xs \<Longrightarrow> mbit m' j = mbit m j) \<Longrightarrow> holds_bits m' p xs"
  by (simp add: holds_bits_def)

lemma BitsToBytes_mono: "a \<le> b \<Longrightarrow> BitsToBytes a \<le> BitsToBytes b"
  by (simp add: BitsToBytes_def div_le_mono)

lemma wrote_trans:
  assumes "wrote w m xs w1 m1" "wrote w1 m1 ys w2 m2"
  shows "wrote w m (xs @ ys) w2 m2"
proof -
  have pos: "writer_pos w1 = writer_pos w + length xs" using assms(1) by (simp add: wrote_def writer_pos_def)
  have "holds_bits m2 (writer_pos w) xs"
    by (rule holds_bits_keep [of m1]) (use assms pos in \<open>auto simp: wrote_def\<close>)
  moreover have "out_size w1 \<le> out_size w2" using assms BitsToBytes_mono [of "writer_offset w1" "writer_offset w2"] by (simp add: wrote_def)
  ultimately show ?thesis using assms pos by (auto simp: wrote_def holds_bits_append)
qed

lemma wrote_refl: "out_size w = BitsToBytes (writer_offset w) \<Longrightarrow> wrote w m [] w m"
  by (simp add: wrote_def holds_bits_def)

lemma byte_by_bits: "(\<And>t. t < 8 \<Longrightarrow> mbit m (8 * a + t) = mbit m' (8 * a + t)) \<Longrightarrow> m a = m' a"
  by (rule bit_word_eqI) (simp add: mbit_byte)

text \<open>Allocating bits does not change what is before them; storing them afterwards touches only the new bits.\<close>

lemma Allocate_result:
  assumes "out_size w = BitsToBytes (writer_offset w)" "Allocate n w m = (r, w', m')"
  shows "start_bit r = writer_pos w" "region_size r = n" "out_data w' = out_data w" "writer_start w' = writer_start w"
    "writer_offset w' = writer_offset w + n" "out_size w' = BitsToBytes (writer_offset w')"
    "\<And>j. j < 8 * (out_data w + out_size w) \<Longrightarrow> mbit m' j = mbit m j"
    "\<And>j. 8 * (out_data w + out_size w) \<le> j \<Longrightarrow> j < 8 * (out_data w + out_size w') \<Longrightarrow> \<not> mbit m' j"
    "\<And>a. a < out_data w + out_size w \<or> out_data w + out_size w' \<le> a \<Longrightarrow> m' a = m a"
proof -
  let ?n = "BitsToBytes (writer_offset w + n)"
  have le: "out_size w \<le> ?n" unfolding assms(1) by (rule BitsToBytes_mono) simp
  have w': "w' = w\<lparr>out_size := ?n, writer_offset := writer_offset w + n\<rparr>"
    and r: "r = BitMemoryRegion_new (out_data w) (int (writer_offset w)) n"
    and m': "m' = store m (out_data w + out_size w) (replicate (?n - out_size w) 0)"
    using assms(2) le by (auto simp: Allocate_def resize_out_def Let_def)
  show "start_bit r = writer_pos w" "region_size r = n"
    using BitMemoryRegion_new_start [of "out_data w" "int (writer_offset w)" n] by (simp_all add: r writer_pos_def)
  show "out_data w' = out_data w" "writer_start w' = writer_start w" "writer_offset w' = writer_offset w + n"
    "out_size w' = BitsToBytes (writer_offset w')" by (simp_all add: w')
  show "m' a = m a" if "a < out_data w + out_size w \<or> out_data w + out_size w' \<le> a" for a
    using that le by (auto simp: m' w' store_other)
  then show "mbit m' j = mbit m j" if "j < 8 * (out_data w + out_size w)" for j
    using that less_mult_imp_div_less [of j "out_data w + out_size w" 8] by (simp add: mbit_def mult.commute)
  show "\<not> mbit m' j" if j: "8 * (out_data w + out_size w) \<le> j" "j < 8 * (out_data w + out_size w')" for j
  proof -
    have "out_data w + out_size w \<le> j div 8" "j div 8 < out_data w + out_size w'" using j by auto
    then show ?thesis using le by (simp add: mbit_def m' w' store_at)
  qed
qed

lemma wrote_allocated:
  assumes ok: "out_size w = BitsToBytes (writer_offset w)" and a: "Allocate n w m = (r, w', m1)"
    and bits: "\<And>j. mbit m' j = (if start_bit r \<le> j \<and> j < start_bit r + n then f (j - start_bit r) else mbit m1 j)"
  shows "wrote w m (map f [0..<n]) w' m'"
proof -
  note A = Allocate_result [OF ok a]
  have le: "writer_offset w \<le> 8 * out_size w" "writer_offset w' \<le> 8 * out_size w'" unfolding ok A(6) by (auto simp: BitsToBytes_def)
  have "out_size w \<le> out_size w'" unfolding ok A(6) using A(5) by (auto intro: BitsToBytes_mono)
  have "holds_bits m' (writer_pos w) (map f [0..<n])" using bits A(1) by (simp add: holds_bits_def)
  moreover have "mbit m' j = mbit m j" if "j < writer_pos w" for j
    using that bits A(1) A(7) [of j] le(1) by (simp add: writer_pos_def)
  moreover have "m' a = m a" if "a < out_data w \<or> out_data w + out_size w' \<le> a" for a
  proof -
    have "m' a = m1 a"
    proof (rule byte_by_bits)
      fix t :: nat
      assume "t < 8"
      then have "\<not> (start_bit r \<le> 8 * a + t \<and> 8 * a + t < start_bit r + n)"
        using that A(1,5) le(2) by (auto simp: writer_pos_def)
      then show "mbit m' (8 * a + t) = mbit m1 (8 * a + t)" using bits by auto
    qed
    then show ?thesis using A(9) [of a] that by auto
  qed
  moreover have "clean w' m'" if c: "clean w m"
    unfolding clean_def
  proof (intro allI impI)
    fix j
    assume "writer_pos w' \<le> j \<and> j < 8 * (out_data w' + out_size w')"
    then have j: "writer_pos w + n \<le> j" "j < 8 * (out_data w + out_size w')" using A(3,5) by (simp_all add: writer_pos_def)
    then have "mbit m' j = mbit m1 j" using bits A(1) by simp
    then show "\<not> mbit m' j" using c j A(7) [of j] A(8) [of j] by (cases "j < 8 * (out_data w + out_size w)") (auto simp: clean_def)
  qed
  ultimately show ?thesis using ok A(3-6) by (simp add: wrote_def)
qed

lemma WriteBits_wrote:
  assumes "out_size w = BitsToBytes (writer_offset w)" "n \<le> 64" "unat v < 2 ^ n" "WriteBits v n w m = (w', m')"
  shows "wrote w m (bits_of n v) w' m'"
proof -
  obtain r m1 where a: "Allocate n w m = (r, w', m1)" and m': "m' = StoreBits r 0 (ucast v) n m1"
    using assms(4) by (auto simp: WriteBits_def split: prod.splits)
  have v: "i < n" if "bit v i" for i
    using that assms(3) by (metis bit_take_bit_iff take_bit_nat_eq_self unsigned_take_bit_eq word_unat_eq_iff)
  have "mbit m' j = (if start_bit r \<le> j \<and> j < start_bit r + n then bit v (j - start_bit r) else mbit m1 j)" for j
    unfolding m' by (subst StoreBits_bit) (use assms(2) v in \<open>auto simp: bit_ucast_iff dest: bit_imp_le_length\<close>)
  from wrote_allocated [OF assms(1) a this] show ?thesis by (simp add: bits_of_def)
qed

lemma WriteBit_wrote:
  assumes "out_size w = BitsToBytes (writer_offset w)" "WriteBit v w m = (w', m')"
  shows "wrote w m [v] w' m'"
proof -
  obtain r m1 where a: "Allocate 1 w m = (r, w', m1)" and m': "m' = StoreBit r 0 v m1"
    using assms(2) by (auto simp: WriteBit_def split: prod.splits)
  have "mbit m' j = (if start_bit r \<le> j \<and> j < start_bit r + 1 then v else mbit m1 j)" for j
    unfolding m' StoreBit_bit by auto
  from wrote_allocated [OF assms(1) a this] show ?thesis by simp
qed

lemma WriteRegion_wrote:
  assumes "out_size w = BitsToBytes (writer_offset w)" "WriteRegion src w m = (w', m')"
    and "start_bit src + region_size src \<le> 8 * out_data w \<or> 8 * (out_data w + out_size w') \<le> start_bit src"
  shows "wrote w m (region_bits m src) w' m'"
proof -
  obtain r m1 where a: "Allocate (region_size src) w m = (r, w', m1)" and m': "m' = CopyBits r src m1"
    using assms(2) by (auto simp: WriteRegion_def size_in_bits_def split: prod.splits)
  note A = Allocate_result [OF assms(1) a]
  have "writer_offset w' \<le> 8 * out_size w'" unfolding A(6) by (auto simp: BitsToBytes_def)
  then have d: "disjoint_regions r src" using assms(3) A(1,2,5) by (auto simp: disjoint_regions_def writer_pos_def)
  have src: "mbit m1 (start_bit src + i) = mbit m (start_bit src + i)" if "i < region_size src" for i
  proof -
    have "(start_bit src + i) div 8 < out_data w + out_size w \<or> out_data w + out_size w' \<le> (start_bit src + i) div 8"
      using assms(3) that by auto
    then show ?thesis using A(9) by (simp add: mbit_def)
  qed
  have "mbit m' j = (if start_bit r \<le> j \<and> j < start_bit r + region_size src
      then mbit m (start_bit src + (j - start_bit r)) else mbit m1 j)" for j
    unfolding m' CopyBits_bit [OF A(2) [symmetric] d] using src [of "j - start_bit r"] A(2) by auto
  from wrote_allocated [OF assms(1) a this] show ?thesis by (simp add: region_bits_def)
qed

section \<open>Reading them back\<close>

lemma ReadRegion_result:
  "ReadRegion n r = (reg, r') \<Longrightarrow> start_bit reg = reader_pos r \<and> region_size reg = n \<and> reader_pos r' = reader_pos r + n \<and>
     start_bit r' = start_bit r"
  by (auto simp: ReadRegion_def Let_def size_in_bits_def reader_pos_def)

lemma ReadBits_word:
  assumes "n \<le> 64" "ReadBits m n r = (v, r')"
  shows "bit v i \<longleftrightarrow> i < n \<and> mbit m (reader_pos r + i)" "reader_pos r' = reader_pos r + n" "start_bit r' = start_bit r"
  using assms ReadRegion_result [of n r]
  by (auto simp: ReadBits_def bit_LoadBits split: prod.splits)

lemma ReadBits_result:
  assumes "n \<le> 64" "holds_bits m (reader_pos r) (bits_of n v)" "\<And>i. bit v i \<Longrightarrow> i < n" "ReadBits m n r = (x, r')"
  shows "x = ucast (v :: u32)"
proof (rule bit_word_eqI)
  fix i
  show "bit x i \<longleftrightarrow> bit (ucast v :: u64) i"
    using ReadBits_word(1) [OF assms(1,4), of i] assms(2,3) bit_imp_le_length [of v i]
    by (auto simp: holds_bits_def bit_ucast_iff)
qed

section \<open>Variable-length integers\<close>

text \<open>The four bits that say how a value is stored, and the bits stored elsewhere for a large one.\<close>

definition varint_head :: "u32 \<Rightarrow> u32" where
  "varint_head v = (if unat v > kVarintMax then of_nat (kVarintMax + varint_bytes v) else v)"

definition varint_tail :: "u32 \<Rightarrow> bool list" where
  "varint_tail v = (if unat v > kVarintMax then bits_of (varint_bytes v * 8) v else [])"

lemma varint_bytes_range:
  "varint_bytes v \<le> 4" "unat v > kVarintMax \<Longrightarrow> 1 \<le> varint_bytes v" "unat v < 2 ^ (varint_bytes v * 8)"
proof -
  have "MinimumBitsToStore v \<le> 32" using MinimumBitsToStore_le_length [of v] by simp
  then show "varint_bytes v \<le> 4" by (simp add: varint_bytes_def BitsToBytes_def)
  have "MinimumBitsToStore v \<le> varint_bytes v * 8" by (simp add: varint_bytes_def BitsToBytes_def)
  then show "unat v < 2 ^ (varint_bytes v * 8)" by (simp add: MinimumBitsToStore_le_iff)
  show "1 \<le> varint_bytes v" if "unat v > kVarintMax"
    using that MinimumBitsToStore_le_iff [of v 0] by (simp add: varint_bytes_def BitsToBytes_def)
qed

lemma ucast_u64_u32: "ucast (ucast v :: u64) = (v :: u32)"
  by (rule bit_word_eqI) (auto simp: bit_ucast_iff)

lemma unat_varint_head:
  "unat (varint_head v) = (if unat v > kVarintMax then kVarintMax + varint_bytes v else unat v)" "unat (varint_head v) < 16"
proof -
  have "kVarintMax + varint_bytes v < 16" using varint_bytes_range(1) [of v] by (simp add: kVarintMax_def)
  then have "unat (of_nat (kVarintMax + varint_bytes v) :: u32) = kVarintMax + varint_bytes v"
    by (simp only: unat_of_nat) simp
  then show "unat (varint_head v) = (if unat v > kVarintMax then kVarintMax + varint_bytes v else unat v)"
    by (simp add: varint_head_def)
  then show "unat (varint_head v) < 16" using \<open>kVarintMax + varint_bytes v < 16\<close> by (simp add: kVarintMax_def)
qed

lemma bit_below: "unat v < 2 ^ n \<Longrightarrow> bit v i \<Longrightarrow> i < n"
  by (metis bit_take_bit_iff take_bit_nat_eq_self unsigned_take_bit_eq word_unat_eq_iff)

lemma write_small_wrote:
  assumes "out_size w = BitsToBytes (writer_offset w)" "write_small vs w m = (w', m')"
  shows "wrote w m (concat (map (\<lambda>v. bits_of kVarintBits (varint_head v)) vs)) w' m'"
  using assms
proof (induction vs arbitrary: w m)
  case Nil
  then show ?case by (simp add: wrote_refl)
next
  case (Cons v vs)
  obtain w1 m1 where w1: "WriteBits (varint_head v) kVarintBits w m = (w1, m1)" by force
  have one: "wrote w m (bits_of kVarintBits (varint_head v)) w1 m1"
    by (rule WriteBits_wrote [OF Cons(2) _ _ w1]) (use unat_varint_head(2) [of v] in \<open>simp_all add: kVarintBits_def\<close>)
  have "write_small vs w1 m1 = (w', m')" using Cons(3) w1 by (auto simp: varint_head_def split: if_splits)
  moreover have "out_size w1 = BitsToBytes (writer_offset w1)" using one by (simp add: wrote_def)
  ultimately show ?case using wrote_trans [OF one] Cons(1) by simp
qed

lemma write_large_wrote:
  assumes "out_size w = BitsToBytes (writer_offset w)" "write_large vs w m = (w', m')"
  shows "wrote w m (concat (map varint_tail vs)) w' m'"
  using assms
proof (induction vs arbitrary: w m)
  case Nil
  then show ?case by (simp add: wrote_refl)
next
  case (Cons v vs)
  obtain w1 m1 where w1: "(if unat v > kVarintMax then WriteBits v (varint_bytes v * 8) w m else (w, m)) = (w1, m1)" by force
  have one: "wrote w m (varint_tail v) w1 m1"
  proof (cases "unat v > kVarintMax")
    case True
    have "wrote w m (bits_of (varint_bytes v * 8) v) w1 m1"
      by (rule WriteBits_wrote [OF Cons(2)]) (use varint_bytes_range [of v] w1 True in auto)
    then show ?thesis using True by (simp add: varint_tail_def)
  qed (use w1 Cons(2) in \<open>auto simp: varint_tail_def wrote_refl\<close>)
  have "write_large vs w1 m1 = (w', m')" using Cons(3) w1 by simp
  moreover have "out_size w1 = BitsToBytes (writer_offset w1)" using one by (simp add: wrote_def)
  ultimately show ?case using wrote_trans [OF one] Cons(1) by simp
qed

definition varint_bits :: "u32 list \<Rightarrow> bool list" where
  "varint_bits vs = concat (map (\<lambda>v. bits_of kVarintBits (varint_head v)) vs) @ concat (map varint_tail vs)"

lemma WriteInterleavedVarints_wrote:
  assumes "out_size w = BitsToBytes (writer_offset w)" "WriteInterleavedVarints vs w m = (w', m')"
  shows "wrote w m (varint_bits vs) w' m'"
proof -
  obtain w1 m1 where w1: "write_small vs w m = (w1, m1)" by force
  note small = write_small_wrote [OF assms(1) w1]
  have "out_size w1 = BitsToBytes (writer_offset w1)" using small by (simp add: wrote_def)
  then have "wrote w1 m1 (concat (map varint_tail vs)) w' m'"
    by (rule write_large_wrote) (use assms(2) w1 in \<open>simp add: WriteInterleavedVarints_def\<close>)
  then show ?thesis unfolding varint_bits_def by (rule wrote_trans [OF small])
qed

lemma holds_heads:
  "holds_bits m p (concat (map (\<lambda>v. bits_of k (h v)) vs)) \<Longrightarrow> i < length vs \<Longrightarrow> t < k \<Longrightarrow> mbit m (p + i * k + t) = bit (h (vs ! i)) t"
proof (induction vs arbitrary: p i)
  case (Cons v vs)
  then have v: "holds_bits m p (bits_of k (h v))" "holds_bits m (p + k) (concat (map (\<lambda>v. bits_of k (h v)) vs))"
    by (simp_all add: holds_bits_append)
  show ?case
  proof (cases i)
    case 0
    then show ?thesis using v(1) Cons(4) by (simp add: holds_bits_def)
  next
    case (Suc j)
    then show ?thesis using Cons(1) [OF v(2), of j] Cons(3,4) by (simp add: algebra_simps)
  qed
qed simp

lemma read_large_result:
  assumes "holds_bits m (reader_pos r) (concat (map varint_tail vs))" "read_large m (map varint_head vs) r = (xs, r')"
  shows "xs = vs \<and> reader_pos r' = reader_pos r + length (concat (map varint_tail vs)) \<and> start_bit r' = start_bit r"
  using assms
proof (induction vs arbitrary: r xs r')
  case (Cons v vs)
  have h: "holds_bits m (reader_pos r) (varint_tail v)"
    "holds_bits m (reader_pos r + length (varint_tail v)) (concat (map varint_tail vs))"
    using Cons(2) by (simp_all add: holds_bits_append)
  obtain y r1 where y: "(if unat (varint_head v) > kVarintMax
      then let (z, r) = ReadBits m ((unat (varint_head v) - kVarintMax) * 8) r in (ucast z, r) else (varint_head v, r)) = (y, r1)" by force
  have "y = v \<and> reader_pos r1 = reader_pos r + length (varint_tail v) \<and> start_bit r1 = start_bit r"
  proof (cases "unat v > kVarintMax")
    case True
    note b = varint_bytes_range [of v]
    obtain z where z: "ReadBits m (varint_bytes v * 8) r = (z, r1)" "y = ucast z"
      using y True b(2) by (auto simp: unat_varint_head split: prod.splits)
    have n: "varint_bytes v * 8 \<le> 64" using b(1) by simp
    have "holds_bits m (reader_pos r) (bits_of (varint_bytes v * 8) v)" using h(1) True by (simp add: varint_tail_def)
    then have "z = ucast v" by (rule ReadBits_result [OF n _ _ z(1)]) (rule bit_below [OF b(3)])
    then show ?thesis using ReadBits_word(2,3) [OF n z(1)] z(2) True by (simp add: varint_tail_def ucast_u64_u32)
  next
    case False
    then show ?thesis using y by (simp add: unat_varint_head varint_head_def varint_tail_def)
  qed
  moreover obtain ys r2 where "read_large m (map varint_head vs) r1 = (ys, r2)" by force
  ultimately show ?case using Cons(1) [of r1 ys r2] Cons(3) h(2) y by (auto simp: add.assoc)
qed simp

lemma ReadInterleavedVarints_result:
  assumes "length vs * kVarintBits \<le> 64" "holds_bits m (reader_pos r) (varint_bits vs)"
    "ReadInterleavedVarints m (length vs) r = (xs, r')"
  shows "xs = vs \<and> reader_pos r' = reader_pos r + length (varint_bits vs) \<and> start_bit r' = start_bit r"
proof -
  let ?h = "concat (map (\<lambda>v. bits_of kVarintBits (varint_head v)) vs)"
  have len: "length ?h = length vs * kVarintBits" by (induction vs) simp_all
  have h: "holds_bits m (reader_pos r) ?h" "holds_bits m (reader_pos r + length vs * kVarintBits) (concat (map varint_tail vs))"
    using assms(2) len by (simp_all add: varint_bits_def holds_bits_append)
  obtain d r1 where d: "ReadBits m (length vs * kVarintBits) r = (d, r1)" by force
  note D = ReadBits_word [OF assms(1) d]
  have "ucast (BitFieldExtract d (i * kVarintBits) kVarintBits) = varint_head (vs ! i)" if i: "i < length vs" for i
  proof (rule bit_word_eqI)
    fix t
    have "i * kVarintBits + t < length vs * kVarintBits" if "t < kVarintBits"
      using that i by (metis add.commute add_strict_left_mono less_le_trans mult_Suc mult_le_mono1 Suc_leI)
    then show "bit (ucast (BitFieldExtract d (i * kVarintBits) kVarintBits) :: u32) t \<longleftrightarrow> bit (varint_head (vs ! i)) t"
      using holds_heads [OF h(1) i, of t] bit_below [of "varint_head (vs ! i)" kVarintBits t] unat_varint_head(2) [of "vs ! i"]
      by (auto simp: bit_ucast_iff bit_BitFieldExtract D(1) add.assoc kVarintBits_def dest: bit_imp_le_length)
  qed
  then have "map (\<lambda>i. ucast (BitFieldExtract d (i * kVarintBits) kVarintBits)) [0..<length vs] = map varint_head vs"
    by (intro nth_equalityI) simp_all
  then have "read_large m (map varint_head vs) r1 = (xs, r')" using assms(3) d by (simp add: ReadInterleavedVarints_def)
  from read_large_result [OF _ this] show ?thesis using h(2) D(2,3) len by (simp add: varint_bits_def add.assoc)
qed

lemma ReadVarint_result:
  assumes "holds_bits m (reader_pos r) (varint_bits [v])" "ReadVarint m r = (x, r')"
  shows "x = v \<and> reader_pos r' = reader_pos r + length (varint_bits [v])"
proof -
  have h: "holds_bits m (reader_pos r) (bits_of kVarintBits (varint_head v))" "holds_bits m (reader_pos r + kVarintBits) (varint_tail v)"
    using assms(1) by (simp_all add: varint_bits_def holds_bits_append)
  obtain d r1 where d: "ReadBits m kVarintBits r = (d, r1)" by force
  have k: "kVarintBits \<le> 64" by (simp add: kVarintBits_def)
  have "d = ucast (varint_head v)"
    by (rule ReadBits_result [OF k h(1) _ d]) (rule bit_below, use unat_varint_head(2) [of v] in \<open>simp_all add: kVarintBits_def\<close>)
  then have u: "unat d = unat (varint_head v)"
    using order_less_le_trans [OF unat_varint_head(2) [of v], of "2 ^ 64"] by (simp add: unsigned_ucast_eq take_bit_nat_eq_self)
  note D = ReadBits_word(2) [OF k d]
  show ?thesis
  proof (cases "unat v > kVarintMax")
    case True
    note b = varint_bytes_range [of v]
    have n: "varint_bytes v * 8 \<le> 64" using b(1) by simp
    obtain z where z: "ReadBits m (varint_bytes v * 8) r1 = (z, r')" "x = ucast z"
      using assms(2) d u True b(2) by (auto simp: ReadVarint_def unat_varint_head split: prod.splits)
    have "z = ucast v"
      by (rule ReadBits_result [OF n _ _ z(1)], use h(2) D True in \<open>simp add: varint_tail_def\<close>) (rule bit_below [OF b(3)])
    then show ?thesis using ReadBits_word(2) [OF n z(1)] D True z(2) by (simp add: varint_bits_def varint_tail_def ucast_u64_u32)
  next
    case False
    then show ?thesis using assms(2) d u D \<open>d = ucast (varint_head v)\<close>
      by (auto simp: ReadVarint_def unat_varint_head varint_head_def varint_tail_def varint_bits_def ucast_u64_u32)
  qed
qed

section \<open>Properties\<close>

text \<open>C36. Variable-length integers written with \<^verbatim>\<open>WriteInterleavedVarints\<close> at any bit position are read back with
  \<^verbatim>\<open>ReadInterleavedVarints\<close>, at most sixteen at a time; the reader ends where the writer ended, the vector keeps
  the bits it had, and nothing outside of it changes.  One alone is also read by \<^verbatim>\<open>ReadVarint\<close>.\<close>

theorem varints_round_trip:
  assumes "out_size w = BitsToBytes (writer_offset w)" "length vs \<le> 16" "reader_pos r = writer_pos w"
    and "WriteInterleavedVarints vs w m = (w', m')" "ReadInterleavedVarints m' (length vs) r = (xs, r')"
  shows "xs = vs \<and> reader_pos r' = writer_pos w' \<and> out_size w' = BitsToBytes (writer_offset w') \<and>
    (\<forall>j < writer_pos w. mbit m' j = mbit m j) \<and> (\<forall>a. a < out_data w \<or> out_data w + out_size w' \<le> a \<longrightarrow> m' a = m a) \<and>
    (\<forall>v. vs = [v] \<longrightarrow> ReadVarint m' r = (v, snd (ReadVarint m' r)) \<and> reader_pos (snd (ReadVarint m' r)) = writer_pos w')"
proof -
  note W = WriteInterleavedVarints_wrote [OF assms(1,4)]
  then have h: "holds_bits m' (reader_pos r) (varint_bits vs)" by (simp add: wrote_def assms(3))
  have pos: "writer_pos w' = reader_pos r + length (varint_bits vs)" using W assms(3) by (simp add: wrote_def writer_pos_def)
  have "length vs * kVarintBits \<le> 64" using assms(2) by (simp add: kVarintBits_def)
  note R = ReadInterleavedVarints_result [OF this h assms(5)]
  have "ReadVarint m' r = (v, snd (ReadVarint m' r)) \<and> reader_pos (snd (ReadVarint m' r)) = writer_pos w'" if "vs = [v]" for v
    using ReadVarint_result [of m' r v "fst (ReadVarint m' r)" "snd (ReadVarint m' r)"] h pos that by (metis prod.collapse)
  then show ?thesis using R W pos by (simp add: wrote_def)
qed

theorem varints_round_trip_witness:
  "let w = \<lparr>out_data = 4096, out_size = 1, writer_start = 0, writer_offset = 3\<rparr>;
       (w', m') = WriteInterleavedVarints [5, 300, 15] w (\<lambda>_. 255); (xs, r') = ReadInterleavedVarints m' 3 (BitMemoryReader_new 4096 3)
   in xs = [5, 300, 15] \<and> reader_pos r' = writer_pos w'"
proof -
  let ?w = "\<lparr>out_data = 4096, out_size = 1, writer_start = 0, writer_offset = 3\<rparr>"
  obtain w' m' where w: "WriteInterleavedVarints [5, 300, 15] ?w (\<lambda>_. 255) = (w', m')" by force
  obtain xs r' where x: "ReadInterleavedVarints m' (length [5, 300, 15 :: u32]) (BitMemoryReader_new 4096 3) = (xs, r')" by force
  have "xs = [5, 300, 15] \<and> reader_pos r' = writer_pos w'"
    using varints_round_trip [OF _ _ _ w x] BitMemoryRegion_new_start [of 4096 3 0]
    by (simp add: BitsToBytes_def reader_pos_def writer_pos_def BitMemoryReader_new_def)
  then show ?thesis using w x by (simp add: numeral_3_eq_3)
qed

end
