(* ===== verification/BitTable.thy ===== *)
theory BitTable
  imports BitMemoryIO
begin

text \<open>
  Tables of 32-bit values packed at the bit level (\<^verbatim>\<open>libartbase/base/bit_table.h\<close>): decoding, access, and the builders
  that collect, deduplicate and encode rows.  The hash of \<^verbatim>\<open>libartbase/base/stl_util.h\<close> only decides which rows are
  compared.  The number of columns is a parameter; a multimap is the list of its entries in the order of insertion.
\<close>

section \<open>Table\<close>

definition kNoValue :: u32 where "kNoValue = - 1"
definition kValueBias :: u32 where "kValueBias = kNoValue"

record bit_table =
  table_data :: bit_region
  num_rows :: u32
  column_offset :: "u16 list"

fun column_offsets :: "u16 \<Rightarrow> u32 list \<Rightarrow> u16 list" where
  "column_offsets offset [] = [offset]"
| "column_offsets offset (width # widths) =
     offset # column_offsets (ucast (ucast offset + ucast width :: u64)) widths"

definition NumRowBits :: "bit_table \<Rightarrow> u32" where
  "NumRowBits t = ucast (last (column_offset t))"

definition NumColumnBits :: "bit_table \<Rightarrow> nat \<Rightarrow> u32" where
  "NumColumnBits t column = ucast (column_offset t ! (column + 1)) - ucast (column_offset t ! column)"

definition Decode :: "mem \<Rightarrow> nat \<Rightarrow> bit_region \<Rightarrow> bit_table \<times> bit_region" where
  "Decode m num_columns reader =
     (let (header, reader) = ReadInterleavedVarints m (1 + num_columns) reader;
          rows = hd header;
          offsets = column_offsets 0 (tl header);
          (region, reader) = ReadRegion (unat (rows * ucast (last offsets))) reader
      in (\<lparr>table_data = region, num_rows = rows, column_offset = offsets\<rparr>, reader))"

definition Get :: "mem \<Rightarrow> bit_table \<Rightarrow> u32 \<Rightarrow> nat \<Rightarrow> u32" where
  "Get m t row column =
     (let offset = unat (row * NumRowBits t + ucast (column_offset t ! column))
      in ucast (LoadBits m (table_data t) offset (unat (NumColumnBits t column)) + ucast kValueBias))"

definition GetBitMemoryRegion :: "bit_table \<Rightarrow> u32 \<Rightarrow> nat \<Rightarrow> bit_region" where
  "GetBitMemoryRegion t row column =
     (let offset = unat (row * NumRowBits t + ucast (column_offset t ! column))
      in Subregion offset (unat (NumColumnBits t column)) (table_data t))"

definition Table_Equals :: "mem \<Rightarrow> bit_table \<Rightarrow> bit_table \<Rightarrow> bool" where
  "Table_Equals m t other \<longleftrightarrow>
     num_rows t = num_rows other \<and> butlast (column_offset t) = butlast (column_offset other) \<and>
     Region_Equals m (table_data t) (table_data other)"

section \<open>Builder\<close>

definition FNVHash :: "u8 list \<Rightarrow> u32" where
  "FNVHash bytes = foldl (\<lambda>hash value. (hash XOR ucast value) * 16777619) 2166136261 bytes"

definition u32_to_bytes :: "u32 \<Rightarrow> u8 list" where
  "u32_to_bytes w = map (\<lambda>i. ucast (drop_bit (8 * i) w)) [0..<4]"

definition entry_bytes :: "u32 list list \<Rightarrow> u8 list" where
  "entry_bytes values = concat (map (\<lambda>entry. concat (map u32_to_bytes entry)) values)"

record table_builder =
  rows :: "u32 list list"
  dedup :: "(u32 \<times> u32) list"

definition Builder_new :: table_builder where
  "Builder_new = \<lparr>rows = [], dedup = []\<rparr>"

definition Builder_Add :: "u32 list \<Rightarrow> table_builder \<Rightarrow> table_builder" where
  "Builder_Add value b = b\<lparr>rows := rows b @ [value]\<rparr>"

fun find_rows :: "u32 list list \<Rightarrow> u32 list list \<Rightarrow> u32 \<Rightarrow> (u32 \<times> u32) list \<Rightarrow> u32 option" where
  "find_rows values all hash [] = None"
| "find_rows values all hash ((h, index) # entries) =
     (if h = hash \<and> length values \<le> length all - unat index \<and> take (length values) (drop (unat index) all) = values
      then Some index else find_rows values all hash entries)"

definition Dedup :: "u32 list list \<Rightarrow> table_builder \<Rightarrow> u32 \<times> table_builder" where
  "Dedup values b =
     (let hash = FNVHash (entry_bytes values)
      in case find_rows values (rows b) hash (dedup b) of
           Some index \<Rightarrow> (index, b)
         | None \<Rightarrow> let index = of_nat (length (rows b))
                   in (index, b\<lparr>rows := rows b @ values, dedup := dedup b @ [(hash, index)]\<rparr>))"

definition Measure :: "nat \<Rightarrow> u32 list list \<Rightarrow> u32 list" where
  "Measure num_columns all =
     (let max_column_value =
            foldl (\<lambda>acc row. map2 (\<lambda>a v. a OR (v - kValueBias)) acc row) (replicate num_columns 0) all
      in map (\<lambda>v. of_nat (MinimumBitsToStore v)) max_column_value)"

fun write_row :: "u32 list \<Rightarrow> u32 list \<Rightarrow> bit_writer \<Rightarrow> mem \<Rightarrow> bit_writer \<times> mem" where
  "write_row (value # row) (width # widths) w m =
     (let (w, m) = WriteBits (value - kValueBias) (unat width) w m in write_row row widths w m)"
| "write_row _ _ w m = (w, m)"

fun write_rows :: "u32 list list \<Rightarrow> u32 list \<Rightarrow> bit_writer \<Rightarrow> mem \<Rightarrow> bit_writer \<times> mem" where
  "write_rows [] widths w m = (w, m)"
| "write_rows (row # all) widths w m = (let (w, m) = write_row row widths w m in write_rows all widths w m)"

definition Encode :: "nat \<Rightarrow> u32 list list \<Rightarrow> bit_writer \<Rightarrow> mem \<Rightarrow> bit_writer \<times> mem" where
  "Encode num_columns all out m =
     (let column_bits = Measure num_columns all;
          (out, m) = WriteInterleavedVarints (of_nat (length all) # column_bits) out m
      in write_rows all column_bits out m)"

section \<open>Bitmaps\<close>

text \<open>The rows are the memory regions of copies made in an arena; \<open>copy\<close> is the address the allocator returns.  The bytes of
  the bitmap to add are read from memory, or given when they are not part of the modelled memory.\<close>

record bitmap_builder =
  bitmap_rows :: "(nat \<times> nat) list"
  bitmap_dedup :: "(u32 \<times> u32) list"
  max_num_bits :: nat

definition Bitmap_new :: bitmap_builder where
  "Bitmap_new = \<lparr>bitmap_rows = [], bitmap_dedup = [], max_num_bits = 0\<rparr>"

definition region_bytes :: "mem \<Rightarrow> nat \<times> nat \<Rightarrow> u8 list" where
  "region_bytes m reg = map (\<lambda>i. m (fst reg + i)) [0..<snd reg]"

fun find_bitmap :: "mem \<Rightarrow> u8 list \<Rightarrow> (nat \<times> nat) list \<Rightarrow> u32 \<Rightarrow> (u32 \<times> u32) list \<Rightarrow> u32 option" where
  "find_bitmap m bytes all hash [] = None"
| "find_bitmap m bytes all hash ((h, index) # entries) =
     (if h = hash \<and> bytes = region_bytes m (all ! unat index) then Some index else find_bitmap m bytes all hash entries)"

definition Bitmap_Dedup_bytes :: "nat \<Rightarrow> u8 list \<Rightarrow> nat \<Rightarrow> bitmap_builder \<Rightarrow> mem \<Rightarrow> u32 \<times> bitmap_builder \<times> mem" where
  "Bitmap_Dedup_bytes copy bytes num_bits b m =
     (let hash = FNVHash bytes
      in case find_bitmap m bytes (bitmap_rows b) hash (bitmap_dedup b) of
           Some index \<Rightarrow> (index, b, m)
         | None \<Rightarrow>
             let index = of_nat (length (bitmap_rows b))
             in (index, b\<lparr>bitmap_rows := bitmap_rows b @ [(copy, length bytes)],
                          bitmap_dedup := bitmap_dedup b @ [(hash, index)],
                          max_num_bits := max (max_num_bits b) num_bits\<rparr>, store m copy bytes))"

definition Bitmap_Dedup :: "nat \<Rightarrow> nat \<Rightarrow> nat \<Rightarrow> bitmap_builder \<Rightarrow> mem \<Rightarrow> u32 \<times> bitmap_builder \<times> mem" where
  "Bitmap_Dedup copy bitmap num_bits b m =
     Bitmap_Dedup_bytes copy (region_bytes m (bitmap, BitsToBytes num_bits)) num_bits b m"

fun write_bitmaps :: "nat \<Rightarrow> (nat \<times> nat) list \<Rightarrow> bit_writer \<Rightarrow> mem \<Rightarrow> bit_writer \<times> mem" where
  "write_bitmaps bits [] out m = (out, m)"
| "write_bitmaps bits ((p, bytes) # rest) out m =
     (let bits_to_copy = min bits (8 * bytes);
          src = Subregion 0 bits_to_copy (BitMemoryRegion_new p 0 (8 * bytes));
          (dst, out, m) = Allocate bits out m;
          m = CopyBits (Subregion 0 bits_to_copy dst) src m
      in write_bitmaps bits rest out m)"

definition Bitmap_Encode :: "bitmap_builder \<Rightarrow> bit_writer \<Rightarrow> mem \<Rightarrow> bit_writer \<times> mem" where
  "Bitmap_Encode b out m =
     (let (out, m) = WriteInterleavedVarints [of_nat (length (bitmap_rows b)), of_nat (max_num_bits b)] out m
      in write_bitmaps (max_num_bits b) (bitmap_rows b) out m)"

section \<open>Column widths\<close>

definition width_ok :: "u32 list \<Rightarrow> u32 list \<Rightarrow> bool" where
  "width_ok widths row \<longleftrightarrow>
     length row = length widths \<and> (\<forall>c < length widths. unat (row ! c - kValueBias) < 2 ^ unat (widths ! c))"

lemma or_below: "unat (a OR b) < 2 ^ n \<longleftrightarrow> unat a < 2 ^ n \<and> unat b < 2 ^ n" for a b :: "'a::len word"
proof -
  have "unat w < 2 ^ n \<longleftrightarrow> (\<forall>i. bit w i \<longrightarrow> i < n)" for w :: "'a word"
  proof -
    have "unat w < 2 ^ n \<longleftrightarrow> take_bit n w = w"
      by (metis take_bit_nat_eq_self_iff unsigned_take_bit_eq word_unat_eq_iff)
    also have "\<dots> \<longleftrightarrow> (\<forall>i. bit w i \<longrightarrow> i < n)"
      by (auto simp: bit_take_bit_iff intro!: bit_word_eqI) (metis bit_take_bit_iff)
    finally show ?thesis .
  qed
  then show ?thesis by (auto simp: bit_or_iff)
qed

definition or_columns :: "u32 list \<Rightarrow> u32 list list \<Rightarrow> u32 list" where
  "or_columns acc all = foldl (\<lambda>acc row. map2 (\<lambda>a v. a OR (v - kValueBias)) acc row) acc all"

lemma or_columns_bound:
  assumes "\<forall>row \<in> set all. length row = length acc"
  shows "length (or_columns acc all) = length acc \<and> (\<forall>c < length acc. \<forall>n. unat (or_columns acc all ! c) < 2 ^ n \<longrightarrow>
    unat (acc ! c) < 2 ^ n \<and> (\<forall>row \<in> set all. unat (row ! c - kValueBias) < 2 ^ n))"
  using assms
proof (induction all arbitrary: acc)
  case (Cons row all)
  let ?acc = "map2 (\<lambda>a v. a OR (v - kValueBias)) acc row"
  have len: "length ?acc = length acc" using Cons(2) by simp
  have IH: "length (or_columns ?acc all) = length ?acc \<and> (\<forall>c < length ?acc. \<forall>n. unat (or_columns ?acc all ! c) < 2 ^ n \<longrightarrow>
    unat (?acc ! c) < 2 ^ n \<and> (\<forall>row \<in> set all. unat (row ! c - kValueBias) < 2 ^ n))"
    by (rule Cons(1)) (use Cons(2) in simp)
  have "?acc ! c = acc ! c OR (row ! c - kValueBias)" if "c < length acc" for c using that Cons(2) by simp
  then show ?case using IH len by (simp add: or_columns_def or_below)
qed (simp add: or_columns_def)

lemma Measure_ok:
  assumes "\<forall>row \<in> set all. length row = k"
  shows "\<forall>row \<in> set all. width_ok (Measure k all) row"
    and "length (Measure k all) = k" "\<forall>n \<in> set (Measure k all). unat n \<le> 32"
proof -
  let ?M = "or_columns (replicate k 0) all"
  note b = or_columns_bound [of all "replicate k 0"]
  have M: "Measure k all = map (\<lambda>v. of_nat (MinimumBitsToStore v)) ?M" by (simp add: Measure_def or_columns_def)
  have u: "unat (of_nat (MinimumBitsToStore v) :: u32) = MinimumBitsToStore v" "MinimumBitsToStore v \<le> 32" for v :: u32
    using MinimumBitsToStore_le_length [of v] by (simp_all add: unat_of_nat)
  have len: "length ?M = k" using b assms(1) by simp
  then show "length (Measure k all) = k" using M by simp
  show "\<forall>n \<in> set (Measure k all). unat n \<le> 32" using u by (auto simp: M)
  have "unat (row ! c - kValueBias) < 2 ^ MinimumBitsToStore (?M ! c)" if "row \<in> set all" "c < k" for row c
  proof -
    have "unat (?M ! c) < 2 ^ MinimumBitsToStore (?M ! c)" by (simp flip: MinimumBitsToStore_le_iff)
    then show ?thesis using b assms that by simp
  qed
  then show "\<forall>row \<in> set all. width_ok (Measure k all) row" using assms len u by (simp add: width_ok_def M)
qed

section \<open>Encoding and decoding\<close>

lemma holds_concat:
  "holds_bits m p (concat xss) \<Longrightarrow> i < length xss \<Longrightarrow> holds_bits m (p + sum_list (map length (take i xss))) (xss ! i)"
proof (induction xss arbitrary: p i)
  case (Cons xs xss)
  then show ?case using Cons(1) [of "p + length xs" "i - 1"] by (cases i) (simp_all add: holds_bits_append add.assoc)
qed simp

definition row_fields :: "u32 list \<Rightarrow> u32 list \<Rightarrow> bool list list" where
  "row_fields widths row = map2 (\<lambda>v n. bits_of (unat n) (v - kValueBias)) row widths"

definition row_bits :: "u32 list \<Rightarrow> u32 list \<Rightarrow> bool list" where
  "row_bits widths row = concat (row_fields widths row)"

definition width_sum :: "u32 list \<Rightarrow> nat" where
  "width_sum widths = sum_list (map unat widths)"

lemma row_fields_lengths: "length row = length widths \<Longrightarrow> map length (row_fields widths row) = map unat widths"
  by (rule nth_equalityI) (simp_all add: row_fields_def)

lemma length_row_bits: "length row = length widths \<Longrightarrow> length (row_bits widths row) = width_sum widths"
  by (simp add: row_bits_def length_concat row_fields_lengths width_sum_def)

lemma write_row_wrote:
  assumes "out_size w = BitsToBytes (writer_offset w)" "width_ok widths row" "\<forall>n \<in> set widths. unat n \<le> 32"
    "write_row row widths w m = (w', m')"
  shows "wrote w m (row_bits widths row) w' m'"
  using assms
proof (induction row widths w m rule: write_row.induct)
  case (1 v row n widths w m)
  obtain w1 m1 where w1: "WriteBits (v - kValueBias) (unat n) w m = (w1, m1)" by force
  have ok: "unat (v - kValueBias) < 2 ^ unat n" "width_ok widths row"
    using 1(3) by (simp_all add: width_ok_def All_less_Suc2)
  have one: "wrote w m (bits_of (unat n) (v - kValueBias)) w1 m1"
    by (rule WriteBits_wrote [OF 1(2) _ ok(1) w1]) (use 1(4) in simp)
  moreover have "wrote w1 m1 (row_bits widths row) w' m'"
    by (rule 1(1) [OF w1 [symmetric] refl _ ok(2)]) (use one 1(4,5) w1 in \<open>auto simp: wrote_def\<close>)
  ultimately show ?case using wrote_trans by (simp add: row_bits_def row_fields_def)
qed (auto simp: width_ok_def row_bits_def row_fields_def wrote_refl)

lemma write_rows_wrote:
  assumes "out_size w = BitsToBytes (writer_offset w)" "\<forall>row \<in> set all. width_ok widths row" "\<forall>n \<in> set widths. unat n \<le> 32"
    "write_rows all widths w m = (w', m')"
  shows "wrote w m (concat (map (row_bits widths) all)) w' m'"
  using assms
proof (induction all arbitrary: w m)
  case (Cons row all)
  obtain w1 m1 where w1: "write_row row widths w m = (w1, m1)" by force
  have one: "wrote w m (row_bits widths row) w1 m1"
    by (rule write_row_wrote [OF Cons(2) _ Cons(4) w1]) (use Cons(3) in simp)
  moreover have "wrote w1 m1 (concat (map (row_bits widths) all)) w' m'"
    by (rule Cons(1)) (use one Cons(3,4,5) w1 in \<open>auto simp: wrote_def\<close>)
  ultimately show ?case using wrote_trans by simp
qed (simp add: wrote_refl)

lemma length_column_offsets [simp]: "length (column_offsets off widths) = Suc (length widths)"
  by (induction widths arbitrary: off) simp_all

lemma column_offsets_nth:
  "unat off + width_sum widths < 2 ^ 16 \<Longrightarrow> c \<le> length widths \<Longrightarrow>
     unat (column_offsets off widths ! c) = unat off + width_sum (take c widths)"
proof (induction widths arbitrary: off c)
  case (Cons n widths)
  have u: "unat (ucast (ucast off + ucast n :: u64) :: u16) = unat off + unat n"
    using Cons(2) unsigned_less [of off] unsigned_less [of n]
    by (simp add: unsigned_ucast_eq unat_word_ariths width_sum_def take_bit_nat_eq_self)
  show ?case
  proof (cases c)
    case (Suc d)
    then show ?thesis using Cons(1) [of "ucast (ucast off + ucast n :: u64)" d] Cons(2,3) u by (simp add: width_sum_def)
  qed (simp add: width_sum_def)
qed (simp add: width_sum_def)

text \<open>What a decoded table says of the memory it was decoded from.\<close>

definition table_of :: "mem \<Rightarrow> bit_table \<Rightarrow> u32 list \<Rightarrow> nat \<Rightarrow> nat \<Rightarrow> bool" where
  "table_of m t widths n p \<longleftrightarrow>
     start_bit (table_data t) = p \<and> region_size (table_data t) = n * width_sum widths \<and> unat (num_rows t) = n \<and>
     column_offset t = column_offsets 0 widths"

lemma Decode_result:
  assumes "(1 + length widths) * kVarintBits \<le> 64" "width_sum widths < 2 ^ 16" "unat n * width_sum widths < 2 ^ 32"
    "holds_bits m (reader_pos r) (varint_bits (n # widths))" "Decode m (length widths) r = (t, r')"
  shows "table_of m t widths (unat n) (reader_pos r + length (varint_bits (n # widths)))"
    "reader_pos r' = reader_pos r + length (varint_bits (n # widths)) + unat n * width_sum widths" "start_bit r' = start_bit r"
proof -
  obtain xs r1 where x: "ReadInterleavedVarints m (length (n # widths)) r = (xs, r1)" by force
  have X: "xs = n # widths \<and> reader_pos r1 = reader_pos r + length (varint_bits (n # widths)) \<and> start_bit r1 = start_bit r"
    by (rule ReadInterleavedVarints_result [OF _ assms(4) x]) (use assms(1) in simp)
  have last: "last (column_offsets 0 widths) = column_offsets 0 widths ! length widths"
    by (subst last_conv_nth) (simp_all flip: length_0_conv)
  have "unat (ucast (last (column_offsets 0 widths)) :: u32) = width_sum widths"
    using column_offsets_nth [of 0 widths "length widths"] assms(2) unfolding last by (simp add: unsigned_ucast_eq take_bit_nat_eq_self)
  then have u: "unat (n * ucast (last (column_offsets 0 widths))) = unat n * width_sum widths"
    using assms(3) by (simp add: unat_word_ariths)
  obtain reg where reg: "ReadRegion (unat n * width_sum widths) r1 = (reg, r')"
    and t: "t = \<lparr>table_data = reg, num_rows = n, column_offset = column_offsets 0 widths\<rparr>"
    using assms(5) x X u by (auto simp: Decode_def Let_def split: prod.splits)
  from ReadRegion_result [OF reg] X t
  show "table_of m t widths (unat n) (reader_pos r + length (varint_bits (n # widths)))"
    "reader_pos r' = reader_pos r + length (varint_bits (n # widths)) + unat n * width_sum widths" "start_bit r' = start_bit r"
    by (simp_all add: table_of_def)
qed

lemma unat_u16_u32: "unat (ucast (x :: u16) :: u32) = unat x"
proof -
  have "unat x < 2 ^ 16" by (rule order_less_le_trans [OF unsigned_less]) simp
  then show ?thesis by (simp add: unsigned_ucast_eq take_bit_nat_eq_self)
qed

text \<open>The bits of a cell of a table: the row and the column are found where they were written.\<close>

lemma cell_offset:
  assumes "table_of m t widths n p" "width_sum widths < 2 ^ 16" "n * width_sum widths < 2 ^ 32" "unat row < n" "c < length widths"
  shows "unat (row * NumRowBits t + ucast (column_offset t ! c)) = unat row * width_sum widths + width_sum (take c widths)"
    "unat (NumColumnBits t c) = unat (widths ! c)"
proof -
  have split: "width_sum widths = width_sum (take c widths) + unat (widths ! c) + width_sum (drop (Suc c) widths)"
    using assms(5) by (subst id_take_nth_drop [of c widths]) (simp_all add: width_sum_def)
  note nth = column_offsets_nth [of 0 widths] and u = unsigned_ucast_eq take_bit_nat_eq_self
  have last: "last (column_offset t) = column_offsets 0 widths ! length widths"
    using assms(1) by (subst last_conv_nth) (auto simp: table_of_def simp flip: length_0_conv)
  have R: "unat (NumRowBits t) = width_sum widths"
    using nth [of "length widths"] assms(2) unfolding NumRowBits_def last by (simp add: u)
  have C: "unat (ucast (column_offset t ! d) :: u32) = width_sum (take d widths)" if "d \<le> length widths" for d
    using nth [of d] assms(1,2) that unat_u16_u32 [of "column_offset t ! d"] by (simp add: table_of_def)
  have "unat row * width_sum widths + width_sum widths \<le> n * width_sum widths"
    using assms(4) by (metis Suc_leI add.commute mult_Suc mult_le_mono1)
  then have "unat row * width_sum widths + width_sum (take c widths) < 2 ^ 32" using assms(3) split by linarith
  then show "unat (row * NumRowBits t + ucast (column_offset t ! c)) = unat row * width_sum widths + width_sum (take c widths)"
    using R C [of c] assms(5) by (simp add: unat_word_ariths)
  have "width_sum (take (Suc c) widths) = width_sum (take c widths) + unat (widths ! c)"
    using assms(5) by (simp add: width_sum_def take_Suc_conv_app_nth)
  then show "unat (NumColumnBits t c) = unat (widths ! c)"
    unfolding NumColumnBits_def using C [of c] C [of "c + 1"] assms(5) by (subst unat_sub) (simp_all add: word_le_nat_alt)
qed

lemma Get_result:
  assumes "table_of m t widths (length all) p" "width_sum widths < 2 ^ 16" "length all * width_sum widths < 2 ^ 32"
    and "\<forall>row \<in> set all. width_ok widths row" "\<forall>n \<in> set widths. unat n \<le> 32" "holds_bits m p (concat (map (row_bits widths) all))"
    and "unat row < length all" "c < length widths"
  shows "Get m t row c = all ! unat row ! c"
proof -
  let ?row = "all ! unat row" and ?n = "unat (widths ! c)"
  have row: "width_ok widths ?row" using assms(4,7) by simp
  then have len: "length ?row = length widths" and v: "unat (?row ! c - kValueBias) < 2 ^ ?n" using assms(8) by (auto simp: width_ok_def)
  have "map length (take (unat row) (map (row_bits widths) all)) = replicate (unat row) (width_sum widths)"
    by (rule nth_equalityI) (use assms(4,7) in \<open>auto simp: width_ok_def length_row_bits\<close>)
  then have "holds_bits m (p + unat row * width_sum widths) (row_bits widths ?row)"
    using holds_concat [OF assms(6), of "unat row"] assms(7) by (simp add: sum_list_replicate)
  then have "holds_bits m (p + unat row * width_sum widths + sum_list (map length (take c (row_fields widths ?row)))) (row_fields widths ?row ! c)"
    unfolding row_bits_def by (rule holds_concat) (use assms(8) len in \<open>simp add: row_fields_def\<close>)
  moreover have "map length (take c (row_fields widths ?row)) = map unat (take c widths)"
    using row_fields_lengths [OF len] by (metis take_map)
  ultimately have h: "holds_bits m (p + (unat row * width_sum widths + width_sum (take c widths))) (bits_of ?n (?row ! c - kValueBias))"
    using assms(8) len by (simp add: row_fields_def width_sum_def add.assoc)
  have n: "?n \<le> 64" using assms(5,8) nth_mem [of c widths] by fastforce
  have start: "start_bit (table_data t) = p" using assms(1) by (simp add: table_of_def)
  have "LoadBits m (table_data t) (unat row * width_sum widths + width_sum (take c widths)) ?n = ucast (?row ! c - kValueBias)"
    (is "?x = _")
  proof (rule bit_word_eqI)
    fix i
    show "bit ?x i \<longleftrightarrow> bit (ucast (?row ! c - kValueBias) :: u64) i"
      using h bit_below [OF v, of i] bit_imp_le_length [of "?row ! c - kValueBias" i]
      by (auto simp: bit_LoadBits [OF n] start bit_ucast_iff holds_bits_def add.assoc)
  qed
  moreover have "ucast (ucast a + ucast b :: u64) = a + b" for a b :: u32
  proof -
    have "unat x < 2 ^ 64" for x :: u32 by (rule order_less_le_trans [OF unsigned_less]) simp
    then show ?thesis by (simp add: word_unat_eq_iff unsigned_ucast_eq unat_word_ariths take_bit_eq_mod mod_mod_cancel)
  qed
  ultimately show ?thesis
    using cell_offset [OF assms(1-3,7,8)] by (simp add: Get_def Let_def)
qed

lemma Encode_wrote:
  assumes "out_size w = BitsToBytes (writer_offset w)" "\<forall>row \<in> set all. length row = k" "Encode k all w m = (w', m')"
  shows "wrote w m (varint_bits (of_nat (length all) # Measure k all) @ concat (map (row_bits (Measure k all)) all)) w' m'"
proof -
  obtain w1 m1 where w1: "WriteInterleavedVarints (of_nat (length all) # Measure k all) w m = (w1, m1)" by force
  note header = WriteInterleavedVarints_wrote [OF assms(1) w1]
  have "out_size w1 = BitsToBytes (writer_offset w1)" using header by (simp add: wrote_def)
  then have "wrote w1 m1 (concat (map (row_bits (Measure k all)) all)) w' m'"
    by (rule write_rows_wrote) (use assms(2,3) Measure_ok [OF assms(2)] w1 in \<open>auto simp: Encode_def Let_def\<close>)
  then show ?thesis by (rule wrote_trans [OF header])
qed

lemma Measure_sum: "\<forall>row \<in> set all. length row = k \<Longrightarrow> width_sum (Measure k all) \<le> 32 * k"
proof -
  assume a: "\<forall>row \<in> set all. length row = k"
  have "sum_list (map unat xs) \<le> 32 * length xs" if "\<forall>n \<in> set xs. unat n \<le> 32" for xs :: "u32 list"
    using that by (induction xs) auto
  then show ?thesis using Measure_ok(2,3) [OF a] by (metis width_sum_def)
qed

definition table_bits :: "nat \<Rightarrow> u32 list list \<Rightarrow> bool list" where
  "table_bits k all = varint_bits (of_nat (length all) # Measure k all) @ concat (map (row_bits (Measure k all)) all)"

lemma Decode_rows:
  assumes "\<forall>row \<in> set all. length row = k" "k < 16" "length all < 2 ^ 32" "length all * width_sum (Measure k all) < 2 ^ 32"
    and "holds_bits m (reader_pos r) (table_bits k all)" "Decode m k r = (t, r')"
  shows "unat (num_rows t) = length all" "reader_pos r' = reader_pos r + length (table_bits k all)" "start_bit r' = start_bit r"
    "\<And>row c. unat row < length all \<Longrightarrow> c < k \<Longrightarrow> Get m t row c = all ! unat row ! c"
proof -
  let ?widths = "Measure k all" and ?n = "of_nat (length all) :: u32"
  have n: "unat ?n = length all" using assms(3) by (simp add: unat_of_nat)
  have k: "length ?widths = k" and le: "\<forall>n \<in> set ?widths. unat n \<le> 32" using Measure_ok(2,3) [OF assms(1)] by simp_all
  have s: "width_sum ?widths < 2 ^ 16" using Measure_sum [OF assms(1)] assms(2) by simp
  have h: "holds_bits m (reader_pos r) (varint_bits (?n # ?widths))"
    "holds_bits m (reader_pos r + length (varint_bits (?n # ?widths))) (concat (map (row_bits ?widths) all))"
    using assms(5) by (simp_all add: table_bits_def holds_bits_append)
  have k': "(1 + length ?widths) * kVarintBits \<le> 64" using k assms(2) by (simp add: kVarintBits_def)
  note D = Decode_result [OF k' s _ h(1), unfolded n k, OF assms(4,6)]
  from D(1) show "unat (num_rows t) = length all" by (simp add: table_of_def)
  from D(3) show "start_bit r' = start_bit r" .
  have ok: "\<forall>row \<in> set all. width_ok ?widths row" using Measure_ok(1) [OF assms(1)] by simp
  have "map length (map (row_bits ?widths) all) = replicate (length all) (width_sum ?widths)"
    by (rule nth_equalityI) (use ok in \<open>auto simp: width_ok_def length_row_bits\<close>)
  then have "length (concat (map (row_bits ?widths) all)) = length all * width_sum ?widths"
    by (simp only: length_concat) (simp add: sum_list_replicate)
  then show "reader_pos r' = reader_pos r + length (table_bits k all)" using D(2) by (simp add: table_bits_def)
  show "Get m t row c = all ! unat row ! c" if "unat row < length all" "c < k" for row c
    using Get_result [OF D(1) s assms(4) ok le h(2) that(1)] that(2) k by simp
qed

lemma Encode_Decode:
  assumes "out_size w = BitsToBytes (writer_offset w)" "\<forall>row \<in> set all. length row = k" "k < 16"
    and "length all < 2 ^ 32" "length all * width_sum (Measure k all) < 2 ^ 32"
    and "Encode k all w m = (w', m')" "reader_pos r = writer_pos w" "Decode m' k r = (t, r')"
  shows "unat (num_rows t) = length all" "reader_pos r' = writer_pos w'"
    "\<And>row c. unat row < length all \<Longrightarrow> c < k \<Longrightarrow> Get m' t row c = all ! unat row ! c"
proof -
  note E = Encode_wrote [OF assms(1,2,6), folded table_bits_def]
  then have h: "holds_bits m' (reader_pos r) (table_bits k all)" using assms(7) by (simp add: wrote_def)
  note D = Decode_rows [OF assms(2-5) h assms(8)]
  show "unat (num_rows t) = length all" "\<And>row c. unat row < length all \<Longrightarrow> c < k \<Longrightarrow> Get m' t row c = all ! unat row ! c" by fact+
  show "reader_pos r' = writer_pos w'" using E D(2) assms(7) by (simp add: wrote_def writer_pos_def)
qed

section \<open>Deduplication\<close>

text \<open>The steps a builder takes, and what every builder that started empty satisfies.\<close>

inductive builder_step :: "table_builder \<Rightarrow> table_builder \<Rightarrow> bool" where
  add: "builder_step b (Builder_Add row b)"
| dedup: "Dedup vs b = (index, b') \<Longrightarrow> builder_step b b'"

inductive_cases builder_stepE: "builder_step b b'"

definition located :: "u32 list list \<Rightarrow> u32 \<Rightarrow> table_builder \<Rightarrow> bool" where
  "located vs index b \<longleftrightarrow>
     length vs \<le> length (rows b) - unat index \<and> take (length vs) (drop (unat index) (rows b)) = vs"

definition dedup_ok :: "table_builder \<Rightarrow> bool" where
  "dedup_ok b \<longleftrightarrow> (\<forall>e \<in> set (dedup b). unat (snd e) \<le> length (rows b))"

definition known :: "u32 list list \<Rightarrow> table_builder \<Rightarrow> bool" where
  "known vs b \<longleftrightarrow> (\<exists>index. (FNVHash (entry_bytes vs), index) \<in> set (dedup b) \<and> located vs index b)"

lemma find_rows_Some:
  "find_rows vs (rows b) hash es = Some index \<Longrightarrow> (hash, index) \<in> set es \<and> located vs index b"
  by (induction es) (auto simp: located_def split: if_splits)

lemma find_rows_None:
  "find_rows vs (rows b) hash es = None \<Longrightarrow> (hash, index) \<in> set es \<Longrightarrow> \<not> located vs index b"
  by (induction es) (auto simp: located_def split: if_splits)

lemma located_mono:
  assumes "located vs index b" "rows b' = rows b @ added"
  shows "located vs index b'"
  using assms by (auto simp: located_def)

lemma known_Dedup: "known vs b \<Longrightarrow> snd (Dedup vs b) = b"
  using find_rows_None [of vs b] by (auto simp: known_def Dedup_def Let_def split: option.splits)

lemma Dedup_grows: "Dedup vs b = (index, b') \<Longrightarrow> \<exists>added es. rows b' = rows b @ added \<and> dedup b' = dedup b @ es"
  by (auto simp: Dedup_def Let_def split: option.splits)

lemma Dedup_located:
  assumes "length (rows b) < 2 ^ 32" "Dedup vs b = (index, b')"
  shows "located vs index b'" "known vs b'"
proof -
  have n: "unat (of_nat (length (rows b)) :: u32) = length (rows b)" using assms(1) by (simp add: unat_of_nat)
  show "located vs index b'"
    using assms(2) n find_rows_Some [of vs b]
    by (auto simp: Dedup_def Let_def located_def split: option.splits)
  then show "known vs b'"
    using assms(2) find_rows_Some [of vs b]
    by (auto simp: Dedup_def Let_def known_def split: option.splits)
qed

lemma builder_step_grows: "builder_step b b' \<Longrightarrow> \<exists>added es. rows b' = rows b @ added \<and> dedup b' = dedup b @ es"
  by (erule builder_stepE) (auto simp: Builder_Add_def dest: Dedup_grows)

lemma builder_steps_grow: "builder_step\<^sup>*\<^sup>* b b' \<Longrightarrow> \<exists>added es. rows b' = rows b @ added \<and> dedup b' = dedup b @ es"
proof (induction rule: rtranclp_induct)
  case (step b' b'')
  then show ?case using builder_step_grows [OF step(2)] by auto
qed simp

lemma known_mono: "known vs b \<Longrightarrow> rows b' = rows b @ added \<Longrightarrow> dedup b' = dedup b @ es \<Longrightarrow> known vs b'"
  by (auto simp: known_def dest: located_mono)

lemma dedup_ok_step:
  assumes "dedup_ok b" "length (rows b) < 2 ^ 32" "builder_step b b'"
  shows "dedup_ok b'"
proof -
  have n: "unat (of_nat (length (rows b)) :: u32) = length (rows b)" using assms(2) by (simp add: unat_of_nat)
  from assms(3) show ?thesis
    by (rule builder_stepE) (use assms(1) n in \<open>fastforce simp: Builder_Add_def Dedup_def Let_def dedup_ok_def split: option.splits\<close>)+
qed

lemma dedup_ok_reachable:
  assumes "builder_step\<^sup>*\<^sup>* Builder_new b" "length (rows b) < 2 ^ 32"
  shows "dedup_ok b"
  using assms
proof (induction rule: rtranclp_induct)
  case base
  then show ?case by (simp add: dedup_ok_def Builder_new_def)
next
  case (step b b')
  then show ?case using builder_step_grows [OF step(2)] dedup_ok_step [OF _ _ step(2)] by auto
qed

section \<open>Bitmaps\<close>

definition bitmap_bits :: "mem \<Rightarrow> nat \<Rightarrow> nat \<times> nat \<Rightarrow> bool list" where
  "bitmap_bits m n reg = map (\<lambda>i. i < 8 * snd reg \<and> mbit m (8 * fst reg + i)) [0..<n]"

definition apart :: "nat \<times> nat \<Rightarrow> nat \<Rightarrow> nat \<Rightarrow> bool" where
  "apart reg p n \<longleftrightarrow> fst reg + snd reg \<le> p \<or> p + n \<le> fst reg"

lemma apart_bits:
  assumes "apart reg p n" "\<And>a. a < p \<or> p + n \<le> a \<Longrightarrow> m' a = m a"
  shows "bitmap_bits m' k reg = bitmap_bits m k reg" "region_bytes m' reg = region_bytes m reg"
proof -
  have eq: "m' (fst reg + i) = m (fst reg + i)" if "i < snd reg" for i
    using assms that by (auto simp: apart_def)
  then show "region_bytes m' reg = region_bytes m reg" by (simp add: region_bytes_def)
  show "bitmap_bits m' k reg = bitmap_bits m k reg"
    using eq [of "_ div 8"] by (auto simp: bitmap_bits_def mbit_def)
qed

lemma write_bitmap_wrote:
  assumes "out_size w = BitsToBytes (writer_offset w)" "clean w m" "Allocate n w m = (dst, w', m1)"
    and "apart (p, bytes) (out_data w) (out_size w')"
    and m': "m' = CopyBits (Subregion 0 (min n (8 * bytes)) dst) (Subregion 0 (min n (8 * bytes)) (BitMemoryRegion_new p 0 (8 * bytes))) m1"
  shows "wrote w m (bitmap_bits m n (p, bytes)) w' m'"
proof -
  note A = Allocate_result [OF assms(1,3)]
  let ?k = "min n (8 * bytes)" and ?src = "Subregion 0 (min n (8 * bytes)) (BitMemoryRegion_new p 0 (8 * bytes))"
  have start: "start_bit ?src = 8 * p" using BitMemoryRegion_new_start [of p 0 "8 * bytes"] by simp
  have off: "writer_offset w \<le> 8 * out_size w" "writer_offset w + n \<le> 8 * out_size w'"
    unfolding assms(1) A(6) A(5) by (auto simp: BitsToBytes_def)
  have d: "disjoint_regions (Subregion 0 ?k dst) ?src"
    using assms(4) off start A(1) by (auto simp: disjoint_regions_def apart_def writer_pos_def)
  have src: "mbit m1 (8 * p + i) = mbit m (8 * p + i)" if "i < 8 * bytes" for i
  proof -
    have "(8 * p + i) div 8 < out_data w \<or> out_data w + out_size w' \<le> (8 * p + i) div 8"
      using assms(4) that by (auto simp: apart_def)
    then show ?thesis using A(9) [of "(8 * p + i) div 8"] by (auto simp: mbit_def)
  qed
  have tail: "\<not> mbit m1 j" if "writer_pos w \<le> j" "j < writer_pos w + n" for j
    using that assms(2) A(7) [of j] A(8) [of j] off(2)
    by (cases "j < 8 * (out_data w + out_size w)") (auto simp: clean_def writer_pos_def)
  have "mbit m' j = (if start_bit dst \<le> j \<and> j < start_bit dst + n
      then j - start_bit dst < 8 * bytes \<and> mbit m (8 * p + (j - start_bit dst)) else mbit m1 j)" for j
    unfolding m' using CopyBits_bit [OF _ d, of m1 j] src [of "j - start_bit dst"] tail [of j] start A(1)
    by auto
  from wrote_allocated [OF assms(1,3) this] show ?thesis by (simp add: bitmap_bits_def)
qed

lemma write_bitmaps_size:
  assumes "out_size w = BitsToBytes (writer_offset w)" "write_bitmaps n regs w m = (w', m')"
  shows "writer_offset w \<le> writer_offset w' \<and> out_size w' = BitsToBytes (writer_offset w')"
  using assms
proof (induction regs arbitrary: w m)
  case (Cons reg regs)
  obtain dst w1 m1 where a: "Allocate n w m = (dst, w1, m1)" by (rule prod_cases3)
  obtain m2 where "write_bitmaps n regs w1 m2 = (w', m')" using Cons(3) a by (cases reg) (auto simp: Let_def)
  then show ?case using Cons(1) [of w1 m2] Allocate_result(5,6) [OF Cons(2) a] by simp
qed simp

lemma write_bitmaps_wrote:
  assumes "out_size w = BitsToBytes (writer_offset w)" "clean w m" "write_bitmaps n regs w m = (w', m')"
    and "\<forall>reg \<in> set regs. apart reg (out_data w) (out_size w')"
  shows "wrote w m (concat (map (bitmap_bits m n) regs)) w' m'"
  using assms
proof (induction regs arbitrary: w m)
  case (Cons reg regs)
  obtain p bytes where reg: "reg = (p, bytes)" by force
  obtain dst w1 m1 where a: "Allocate n w m = (dst, w1, m1)" by (rule prod_cases3)
  define m2 where "m2 = CopyBits (Subregion 0 (min n (8 * bytes)) dst) (Subregion 0 (min n (8 * bytes)) (BitMemoryRegion_new p 0 (8 * bytes))) m1"
  have rest: "write_bitmaps n regs w1 m2 = (w', m')" using Cons(4) a by (simp add: reg m2_def Let_def)
  have A: "out_data w1 = out_data w" "out_size w1 = BitsToBytes (writer_offset w1)" using Allocate_result [OF Cons(2) a] by simp_all
  have le: "out_size w1 \<le> out_size w'" using write_bitmaps_size [OF A(2) rest] A(2) by (simp add: BitsToBytes_mono)
  have ap: "apart (p, bytes) (out_data w) (out_size w1)" using Cons(5) le by (auto simp: reg apart_def)
  note one = write_bitmap_wrote [OF Cons(2,3) a ap m2_def]
  have "bitmap_bits m2 n x = bitmap_bits m n x" if "x \<in> set regs" for x
    using one Cons(5) that le by (intro apart_bits(1) [of x "out_data w" "out_size w'"]) (auto simp: wrote_def)
  then have eq: "map (bitmap_bits m2 n) regs = map (bitmap_bits m n) regs" by simp
  have "wrote w1 m2 (concat (map (bitmap_bits m2 n) regs)) w' m'"
    by (rule Cons(1) [OF A(2) _ rest]) (use one Cons(3,5) A in \<open>auto simp: wrote_def\<close>)
  then show ?case unfolding eq using wrote_trans [OF one] by (simp add: reg)
qed (simp add: wrote_refl)

lemma Bitmap_Encode_wrote:
  assumes "out_size w = BitsToBytes (writer_offset w)" "clean w m" "Bitmap_Encode b w m = (w', m')"
    and "\<forall>reg \<in> set (bitmap_rows b). apart reg (out_data w) (out_size w')"
  shows "wrote w m (varint_bits [of_nat (length (bitmap_rows b)), of_nat (max_num_bits b)] @
    concat (map (bitmap_bits m (max_num_bits b)) (bitmap_rows b))) w' m'"
proof -
  let ?h = "[of_nat (length (bitmap_rows b)), of_nat (max_num_bits b)]"
  obtain w1 m1 where w1: "WriteInterleavedVarints ?h w m = (w1, m1)" by force
  note header = WriteInterleavedVarints_wrote [OF assms(1) w1]
  have W: "out_size w1 = BitsToBytes (writer_offset w1)" "clean w1 m1" "out_data w1 = out_data w" using header assms(2) by (simp_all add: wrote_def)
  have body: "write_bitmaps (max_num_bits b) (bitmap_rows b) w1 m1 = (w', m')" using assms(3) w1 by (simp add: Bitmap_Encode_def)
  have rows: "wrote w1 m1 (concat (map (bitmap_bits m1 (max_num_bits b)) (bitmap_rows b))) w' m'"
    by (rule write_bitmaps_wrote [OF W(1,2) body]) (use assms(4) W(3) in simp)
  have "out_size w1 \<le> out_size w'" using write_bitmaps_size [OF W(1) body] W(1) by (simp add: BitsToBytes_mono)
  then have "bitmap_bits m1 (max_num_bits b) x = bitmap_bits m (max_num_bits b) x" if "x \<in> set (bitmap_rows b)" for x
    using header assms(4) that by (intro apart_bits(1) [of x "out_data w" "out_size w'"]) (auto simp: wrote_def)
  then have eq: "map (bitmap_bits m1 (max_num_bits b)) (bitmap_rows b) = map (bitmap_bits m (max_num_bits b)) (bitmap_rows b)" by simp
  from wrote_trans [OF header rows] show ?thesis unfolding eq .
qed

definition bitmap_table_bits :: "mem \<Rightarrow> bitmap_builder \<Rightarrow> bool list" where
  "bitmap_table_bits m b = varint_bits [of_nat (length (bitmap_rows b)), of_nat (max_num_bits b)] @
     concat (map (bitmap_bits m (max_num_bits b)) (bitmap_rows b))"

lemma Decode_bitmaps:
  assumes "max_num_bits b < 2 ^ 16" "length (bitmap_rows b) < 2 ^ 32" "length (bitmap_rows b) * max_num_bits b < 2 ^ 32"
    and "holds_bits m' (reader_pos r) (bitmap_table_bits m b)" "Decode m' 1 r = (t, r')"
  shows "unat (num_rows t) = length (bitmap_rows b)" "reader_pos r' = reader_pos r + length (bitmap_table_bits m b)"
    "start_bit r' = start_bit r"
    "\<And>row. unat row < length (bitmap_rows b) \<Longrightarrow>
      region_bits m' (GetBitMemoryRegion t row 0) = bitmap_bits m (max_num_bits b) (bitmap_rows b ! unat row)"
proof -
  let ?n = "of_nat (length (bitmap_rows b)) :: u32" and ?k = "of_nat (max_num_bits b) :: u32" and ?regs = "bitmap_rows b"
  have n: "unat ?n = length ?regs" "unat ?k = max_num_bits b" using assms(1,2) by (simp_all add: unat_of_nat)
  then have s: "width_sum [?k] = max_num_bits b" by (simp add: width_sum_def)
  have h: "holds_bits m' (reader_pos r) (varint_bits [?n, ?k])"
    "holds_bits m' (reader_pos r + length (varint_bits [?n, ?k])) (concat (map (bitmap_bits m (max_num_bits b)) ?regs))"
    using assms(4) by (simp_all add: bitmap_table_bits_def holds_bits_append)
  have D: "table_of m' t [?k] (length ?regs) (reader_pos r + length (varint_bits [?n, ?k]))"
    "reader_pos r' = reader_pos r + length (varint_bits [?n, ?k]) + length ?regs * max_num_bits b" "start_bit r' = start_bit r"
    using Decode_result [of "[?k]" ?n m' r t r'] h(1) assms(1,3,5) n s by (simp_all add: kVarintBits_def)
  from D(1) show "unat (num_rows t) = length ?regs" by (simp add: table_of_def)
  from D(3) show "start_bit r' = start_bit r" .
  have len: "map length (take i (map (bitmap_bits m (max_num_bits b)) ?regs)) = replicate i (max_num_bits b)" if "i \<le> length ?regs" for i
    by (rule nth_equalityI) (use that in \<open>simp_all add: bitmap_bits_def\<close>)
  have "length (concat (map (bitmap_bits m (max_num_bits b)) ?regs)) = length ?regs * max_num_bits b"
    by (simp add: length_concat comp_def bitmap_bits_def sum_list_triv)
  then show "reader_pos r' = reader_pos r + length (bitmap_table_bits m b)" using D(2) by (simp add: bitmap_table_bits_def)
  fix row :: u32
  assume row: "unat row < length ?regs"
  have c: "unat (row * NumRowBits t + ucast (column_offset t ! 0)) = unat row * max_num_bits b" "unat (NumColumnBits t 0) = max_num_bits b"
    using cell_offset [OF D(1) _ _ row, of 0] assms(1,3) n s by (simp_all add: width_sum_def)
  have "holds_bits m' (start_bit (table_data t) + unat row * max_num_bits b) (bitmap_bits m (max_num_bits b) (?regs ! unat row))"
    using holds_concat [OF h(2), of "unat row"] len [of "unat row"] row D(1) by (simp add: sum_list_replicate table_of_def)
  then show "region_bits m' (GetBitMemoryRegion t row 0) = bitmap_bits m (max_num_bits b) (?regs ! unat row)"
    by (intro nth_equalityI) (simp_all add: c GetBitMemoryRegion_def Let_def region_bits_def bitmap_bits_def holds_bits_def)
qed

lemma Bitmap_Encode_Decode:
  assumes "out_size w = BitsToBytes (writer_offset w)" "clean w m" "Bitmap_Encode b w m = (w', m')"
    and "\<forall>reg \<in> set (bitmap_rows b). apart reg (out_data w) (out_size w')"
    and "max_num_bits b < 2 ^ 16" "length (bitmap_rows b) < 2 ^ 32" "length (bitmap_rows b) * max_num_bits b < 2 ^ 32"
    and "reader_pos r = writer_pos w" "Decode m' 1 r = (t, r')"
  shows "unat (num_rows t) = length (bitmap_rows b)" "reader_pos r' = writer_pos w'"
    "\<And>row. unat row < length (bitmap_rows b) \<Longrightarrow>
      region_bits m' (GetBitMemoryRegion t row 0) = bitmap_bits m (max_num_bits b) (bitmap_rows b ! unat row)"
proof -
  note E = Bitmap_Encode_wrote [OF assms(1-4), folded bitmap_table_bits_def]
  then have h: "holds_bits m' (reader_pos r) (bitmap_table_bits m b)" using assms(8) by (simp add: wrote_def)
  note D = Decode_bitmaps [OF assms(5-7) h assms(9)]
  show "unat (num_rows t) = length (bitmap_rows b)" by fact
  show "reader_pos r' = writer_pos w'" using E D(2) assms(8) by (simp add: wrote_def writer_pos_def)
  show "\<And>row. unat row < length (bitmap_rows b) \<Longrightarrow>
      region_bits m' (GetBitMemoryRegion t row 0) = bitmap_bits m (max_num_bits b) (bitmap_rows b ! unat row)" by fact
qed

text \<open>Deduplication of bitmaps, with the arena returning memory that overlaps no row.\<close>

lemma find_bitmap_Some:
  "find_bitmap m bytes all hash es = Some index \<Longrightarrow> (hash, index) \<in> set es \<and> bytes = region_bytes m (all ! unat index)"
  by (induction es) (auto split: if_splits)

lemma region_bytes_store: "n = length bytes \<Longrightarrow> region_bytes (store m p bytes) (p, n) = bytes"
  by (rule nth_equalityI) (simp_all add: region_bytes_def store_at)

lemma Bitmap_Dedup_result:
  assumes "length (bitmap_rows b) < 2 ^ 32" "\<forall>e \<in> set (bitmap_dedup b). unat (snd e) < length (bitmap_rows b)"
    and "Bitmap_Dedup_bytes copy bytes num_bits b m = (index, b', m')"
    and "\<forall>reg \<in> set (bitmap_rows b). apart reg copy (length bytes)"
  shows "unat index < length (bitmap_rows b')" "region_bytes m' (bitmap_rows b' ! unat index) = bytes"
    "\<exists>new. bitmap_rows b' = bitmap_rows b @ new" "\<forall>reg \<in> set (bitmap_rows b). region_bytes m' reg = region_bytes m reg"
    "\<forall>e \<in> set (bitmap_dedup b'). unat (snd e) < length (bitmap_rows b')"
    "\<forall>a. a < copy \<or> copy + length bytes \<le> a \<longrightarrow> m' a = m a"
    "b' = b \<or> max_num_bits b' = max (max_num_bits b) num_bits"
proof -
  have n: "unat (of_nat (length (bitmap_rows b)) :: u32) = length (bitmap_rows b)" using assms(1) by (simp add: unat_of_nat)
  have keep: "region_bytes (store m copy bytes) reg = region_bytes m reg" if "reg \<in> set (bitmap_rows b)" for reg
    by (rule apart_bits(2) [of _ copy "length bytes"]) (use assms(4) that in \<open>auto intro!: store_other\<close>)
  note defs = Bitmap_Dedup_bytes_def Let_def and found = find_bitmap_Some [of m bytes "bitmap_rows b" "FNVHash bytes" "bitmap_dedup b"]
  show "unat index < length (bitmap_rows b')" using assms(2,3) n found by (auto simp: defs split: option.splits)
  show "region_bytes m' (bitmap_rows b' ! unat index) = bytes"
    using assms(3) n found region_bytes_store [of "length bytes" bytes m copy] by (auto simp: defs split: option.splits)
  show "\<exists>new. bitmap_rows b' = bitmap_rows b @ new" "b' = b \<or> max_num_bits b' = max (max_num_bits b) num_bits"
    using assms(3) by (auto simp: defs split: option.splits)
  show "\<forall>reg \<in> set (bitmap_rows b). region_bytes m' reg = region_bytes m reg"
    using assms(3) keep by (auto simp: defs split: option.splits)
  show "\<forall>a. a < copy \<or> copy + length bytes \<le> a \<longrightarrow> m' a = m a" using assms(3) by (auto simp: defs store_other split: option.splits)
  show "\<forall>e \<in> set (bitmap_dedup b'). unat (snd e) < length (bitmap_rows b')"
    using assms(2,3) n by (fastforce simp: defs less_Suc_eq split: option.splits)
qed

section \<open>Properties\<close>

text \<open>C10. Decoding a table that was encoded gives the table back: for rows of \<open>k\<close> columns, \<open>k < 16\<close>, whose data fits
  into 32 bits of bit positions, \<^verbatim>\<open>BitTableBuilderBase::Encode\<close> at any bit position, followed by
  \<^verbatim>\<open>BitTableBase::Decode\<close> at that position, yields the number of rows that was added, \<^verbatim>\<open>Get\<close> returns the value of every
  row and column (\<open>kNoValue\<close> included), the reader stops exactly where the writer stopped, and no bit before the table and
  no byte outside of the vector has changed.\<close>

theorem BitTable_round_trip:
  assumes "out_size w = BitsToBytes (writer_offset w)" "\<forall>row \<in> set all. length row = k" "k < 16"
    and "length all < 2 ^ 32" "length all * sum_list (map unat (Measure k all)) < 2 ^ 32"
    and "Encode k all w m = (w', m')" "reader_pos r = writer_pos w" "Decode m' k r = (t, r')"
  shows "unat (num_rows t) = length all \<and> (\<forall>row c. unat row < length all \<and> c < k \<longrightarrow> Get m' t row c = all ! unat row ! c) \<and>
    reader_pos r' = writer_pos w' \<and> (\<forall>j < writer_pos w. mbit m' j = mbit m j) \<and>
    (\<forall>a. a < out_data w \<or> out_data w + out_size w' \<le> a \<longrightarrow> m' a = m a)"
proof -
  note E = Encode_Decode [OF assms(1-4), unfolded width_sum_def, OF assms(5-8)]
  show ?thesis using E Encode_wrote [OF assms(1,2,6)] by (simp add: wrote_def)
qed

theorem BitTable_round_trip_witness:
  "let all = [[7, kNoValue], [300, 5]]; w = \<lparr>out_data = 4096, out_size = 1, writer_start = 0, writer_offset = 3\<rparr>;
       (w', m') = Encode 2 all w (\<lambda>_. 255); (t, r') = Decode m' 2 (BitMemoryReader_new 4096 3)
   in Get m' t 0 0 = 7 \<and> Get m' t 0 1 = kNoValue \<and> Get m' t 1 0 = 300 \<and> Get m' t 1 1 = 5 \<and> num_rows t = 2"
proof -
  let ?all = "[[7, kNoValue], [300, 5]] :: u32 list list"
    and ?w = "\<lparr>out_data = 4096, out_size = 1, writer_start = 0, writer_offset = 3\<rparr>" and ?r = "BitMemoryReader_new 4096 3"
  obtain w' m' where e: "Encode 2 ?all ?w (\<lambda>_. 255) = (w', m')" by force
  obtain t r' where d: "Decode m' 2 ?r = (t, r')" by force
  have "sum_list (map unat (Measure 2 ?all)) = 12" by code_simp
  then have T: "unat (num_rows t) = 2" "\<And>row c. unat row < 2 \<Longrightarrow> c < 2 \<Longrightarrow> Get m' t row c = ?all ! unat row ! c"
    using BitTable_round_trip [OF _ _ _ _ _ e _ d] BitMemoryRegion_new_start [of 4096 3 0]
    by (simp_all add: BitsToBytes_def reader_pos_def writer_pos_def BitMemoryReader_new_def)
  have "num_rows t = 2" using T(1) by (simp add: word_unat_eq_iff)
  then show ?thesis using T(2) [of 0 0] T(2) [of 0 1] T(2) [of 1 0] T(2) [of 1 1] e d by simp
qed



text \<open>C35. Deduplication of rows: whatever is added to a builder that started empty, the index \<^verbatim>\<open>Dedup\<close> returned for a sequence
  of rows locates exactly these rows ever after, and asking for them again adds nothing.\<close>

theorem Dedup_correct:
  assumes "builder_step\<^sup>*\<^sup>* Builder_new b" "Dedup vs b = (index, b')" "builder_step\<^sup>*\<^sup>* b' b''" "length (rows b'') < 2 ^ 32"
  shows "unat index + length vs \<le> length (rows b'') \<and> take (length vs) (drop (unat index) (rows b'')) = vs \<and> snd (Dedup vs b'') = b''"
proof -
  have "builder_step\<^sup>*\<^sup>* b b''" using builder_step.dedup [OF assms(2)] assms(3) by (rule converse_rtranclp_into_rtranclp)
  then have b: "length (rows b) < 2 ^ 32" using assms(4) builder_steps_grow by fastforce
  obtain added es where grow: "rows b'' = rows b' @ added" "dedup b'' = dedup b' @ es" using builder_steps_grow [OF assms(3)] by auto
  have "dedup_ok b" by (rule dedup_ok_reachable [OF assms(1) b])
  then have "unat index \<le> length (rows b')"
    using assms(2) find_rows_Some [of vs b] b
    by (fastforce simp: Dedup_def Let_def dedup_ok_def unat_of_nat split: option.splits)
  then show ?thesis
    using located_mono [OF Dedup_located(1) [OF b assms(2)] grow(1)] grow(1)
      known_Dedup [OF known_mono [OF Dedup_located(2) [OF b assms(2)] grow]]
    by (auto simp: located_def)
qed

theorem Dedup_correct_witness:
  "let b = Builder_Add [9] Builder_new; (i, b') = Dedup [[1], [2]] b; b'' = Builder_Add [3] b'
   in i = 1 \<and> take 2 (drop (unat i) (rows b'')) = [[1], [2]] \<and> snd (Dedup [[1], [2]] b'') = b''"
proof -
  let ?b = "Builder_Add [9] Builder_new"
  obtain i b' where d: "Dedup [[1], [2]] ?b = (i, b')" by force
  have b': "i = 1" "rows b' = [[9], [1], [2]]" using d by (auto simp: Dedup_def Builder_Add_def Builder_new_def)
  have "builder_step\<^sup>*\<^sup>* Builder_new ?b" "builder_step\<^sup>*\<^sup>* b' (Builder_Add [3] b')" by (auto intro: builder_step.add)
  from Dedup_correct [OF this(1) d this(2)] b' d show ?thesis by (simp add: Builder_Add_def)
qed

end
