(* ===== verification/BitVector.thy ===== *)
theory BitVector
  imports BitUtils
begin

text \<open>
  The expanding bitmap (\<^verbatim>\<open>libartbase/base/bit_vector.h\<close>, \<^verbatim>\<open>bit_vector-inl.h\<close>, \<^verbatim>\<open>bit_vector.cc\<close>): a vector of 32-bit words and
  its meaning as a finite set of natural numbers.  The storage is the list of its words; expanding copies it, so the
  allocator has no other effect.  Bit numbers are natural numbers, so the model speaks of vectors of fewer than
  \<open>2^31\<close> bits, where the code's 32-bit indices do not wrap.
\<close>

section \<open>Operations\<close>

definition kWordBits :: nat where "kWordBits = 32"

record bit_vector =
  storage :: "u32 list"
  expandable :: bool

definition BitsToWords :: "nat \<Rightarrow> nat" where
  "BitsToWords bits = (bits + (kWordBits - 1)) div kWordBits"

definition WordIndex :: "nat \<Rightarrow> nat" where
  "WordIndex idx = idx div 32"

definition BitMask :: "nat \<Rightarrow> u32" where
  "BitMask idx = push_bit (idx mod 32) 1"

definition ClearAllBits :: "bit_vector \<Rightarrow> bit_vector" where
  "ClearAllBits v = v\<lparr>storage := replicate (length (storage v)) 0\<rparr>"

definition BitVector_new :: "nat \<Rightarrow> bool \<Rightarrow> bit_vector" where
  "BitVector_new start_bits e = ClearAllBits \<lparr>storage = replicate (BitsToWords start_bits) 0, expandable = e\<rparr>"

definition EnsureSize :: "nat \<Rightarrow> bit_vector \<Rightarrow> bit_vector" where
  "EnsureSize idx v =
     (if idx \<ge> length (storage v) * kWordBits
      then let new_size = BitsToWords (idx + 1)
           in v\<lparr>storage := storage v @ replicate (new_size - length (storage v)) 0\<rparr>
      else v)"

definition SetBit :: "nat \<Rightarrow> bit_vector \<Rightarrow> bit_vector" where
  "SetBit idx v =
     (let v = (if idx \<ge> length (storage v) * kWordBits then EnsureSize idx v else v)
      in v\<lparr>storage := (storage v)[WordIndex idx := storage v ! WordIndex idx OR BitMask idx]\<rparr>)"

definition ClearBit :: "nat \<Rightarrow> bit_vector \<Rightarrow> bit_vector" where
  "ClearBit idx v =
     (if idx < length (storage v) * kWordBits
      then v\<lparr>storage := (storage v)[WordIndex idx := storage v ! WordIndex idx AND NOT (BitMask idx)]\<rparr> else v)"

definition IsBitSet_storage :: "u32 list \<Rightarrow> nat \<Rightarrow> bool" where
  "IsBitSet_storage s idx \<longleftrightarrow> s ! WordIndex idx AND BitMask idx \<noteq> 0"

definition IsBitSet :: "bit_vector \<Rightarrow> nat \<Rightarrow> bool" where
  "IsBitSet v idx \<longleftrightarrow> idx < length (storage v) * kWordBits \<and> IsBitSet_storage (storage v) idx"

text \<open>The loop runs from the last word down; the argument is the number of words still to look at.\<close>

fun highest_loop :: "u32 list \<Rightarrow> nat \<Rightarrow> int" where
  "highest_loop s 0 = - 1"
| "highest_loop s (Suc idx) =
     (if s ! idx \<noteq> 0 then 31 - int (CLZ (s ! idx)) + int (idx * kWordBits) else highest_loop s idx)"

definition GetHighestBitSet :: "bit_vector \<Rightarrow> int" where
  "GetHighestBitSet v = highest_loop (storage v) (length (storage v))"

definition IsAnyBitSet :: "bit_vector \<Rightarrow> bool" where
  "IsAnyBitSet v \<longleftrightarrow> GetHighestBitSet v \<noteq> - 1"

definition GetNumberOfBits :: "bit_vector \<Rightarrow> nat" where
  "GetNumberOfBits v = nat (GetHighestBitSet v + 1)"

definition SetInitialBits :: "nat \<Rightarrow> bit_vector \<Rightarrow> bit_vector" where
  "SetInitialBits num_bits v =
     (if num_bits = 0 then ClearAllBits v
      else let v = SetBit (num_bits - 1) v;
               idx = WordIndex num_bits;
               rem_num_bits = num_bits mod 32;
               tail = (if rem_num_bits \<noteq> 0 then [push_bit rem_num_bits 1 - 1] else [])
           in v\<lparr>storage := replicate idx (- 1) @ tail @ replicate (length (storage v) - (idx + length tail)) 0\<rparr>)"

definition BitVector_Copy :: "bit_vector \<Rightarrow> bit_vector \<Rightarrow> bit_vector" where
  "BitVector_Copy src v =
     (let highest_bit = GetHighestBitSet src
      in if highest_bit = - 1 then ClearAllBits v
         else let v = SetBit (nat highest_bit) v;
                  n = 1 + nat highest_bit div kWordBits
              in v\<lparr>storage := take n (storage src) @ replicate (length (storage v) - n) 0\<rparr>)"

definition BitVector_copy_new :: "bit_vector \<Rightarrow> bool \<Rightarrow> bit_vector" where
  "BitVector_copy_new src e = BitVector_Copy src \<lparr>storage = replicate (length (storage src)) 0, expandable = e\<rparr>"

definition Intersect :: "bit_vector \<Rightarrow> bit_vector \<Rightarrow> bit_vector" where
  "Intersect src v =
     (let min_size = min (length (storage v)) (length (storage src))
      in v\<lparr>storage := map2 (AND) (take min_size (storage v)) (take min_size (storage src)) @
                      replicate (length (storage v) - min_size) 0\<rparr>)"

text \<open>The words of a loop that rewrites a word only when it changes, and whether it changed one.\<close>

definition update_words :: "(nat \<Rightarrow> u32) \<Rightarrow> nat \<Rightarrow> bool \<times> bit_vector \<Rightarrow> bool \<times> bit_vector" where
  "update_words update n cv =
     foldl (\<lambda>(changed, v) idx.
              if storage v ! idx \<noteq> storage v ! idx OR update idx
              then (True, v\<lparr>storage := (storage v)[idx := storage v ! idx OR update idx]\<rparr>) else (changed, v)) cv [0..<n]"

definition BitVector_Union :: "bit_vector \<Rightarrow> bit_vector \<Rightarrow> bool \<times> bit_vector" where
  "BitVector_Union src v =
     (let highest_bit = GetHighestBitSet src
      in if highest_bit = - 1 then (False, v)
         else let src_size = BitsToWords (nat (highest_bit + 1));
                  grow = length (storage v) < src_size;
                  v = (if grow then EnsureSize (nat highest_bit) v else v)
              in update_words (\<lambda>idx. storage src ! idx) src_size (grow, v))"

definition UnionIfNotIn :: "bit_vector \<Rightarrow> bit_vector \<Rightarrow> bit_vector \<Rightarrow> bool \<times> bit_vector" where
  "UnionIfNotIn union_with not_in v =
     (let highest_bit = GetHighestBitSet union_with
      in if highest_bit = - 1 then (False, v)
         else let union_with_size = BitsToWords (nat (highest_bit + 1));
                  v = (if length (storage v) < union_with_size then EnsureSize (nat highest_bit) v else v);
                  not_in_size = length (storage not_in)
              in update_words
                   (\<lambda>idx. if idx < min not_in_size union_with_size
                          then storage union_with ! idx AND NOT (storage not_in ! idx) else storage union_with ! idx)
                   union_with_size (False, v))"

definition Subtract :: "bit_vector \<Rightarrow> bit_vector \<Rightarrow> bit_vector" where
  "Subtract src v =
     (let min_size = min (length (storage v)) (length (storage src))
      in v\<lparr>storage := map2 (\<lambda>x y. x AND NOT y) (take min_size (storage v)) (take min_size (storage src)) @
                      drop min_size (storage v)\<rparr>)"

definition BitVector_Equal :: "bit_vector \<Rightarrow> bit_vector \<Rightarrow> bool" where
  "BitVector_Equal src v \<longleftrightarrow>
     length (storage v) = length (storage src) \<and> expandable v = expandable src \<and> storage v = storage src"

definition SameBitsSet :: "bit_vector \<Rightarrow> bit_vector \<Rightarrow> bool" where
  "SameBitsSet src v \<longleftrightarrow>
     (let our_highest = GetHighestBitSet v; src_highest = GetHighestBitSet src
      in if our_highest \<noteq> src_highest then False
         else if our_highest \<le> 0 then True
         else let our_highest_index = BitsToWords (nat our_highest)
              in take our_highest_index (storage v) = take our_highest_index (storage src))"

definition IsSubsetOf :: "bit_vector \<Rightarrow> bit_vector \<Rightarrow> bool" where
  "IsSubsetOf other v \<longleftrightarrow>
     (let this_highest = GetHighestBitSet v; other_highest = GetHighestBitSet other
      in if this_highest < 0 then True
         else if this_highest > other_highest then False
         else list_all (\<lambda>i. storage v ! i OR storage other ! i = storage other ! i) [0..<BitsToWords (nat (this_highest + 1))])"

definition NumSetBits :: "bit_vector \<Rightarrow> nat" where
  "NumSetBits v = sum_list (map POPCOUNT (storage v))"

definition NumSetBits_storage :: "u32 list \<Rightarrow> nat \<Rightarrow> nat" where
  "NumSetBits_storage s n =
     (let word_end = WordIndex n; partial_word_bits = n mod 32;
          count = sum_list (map POPCOUNT (take word_end s))
      in if partial_word_bits \<noteq> 0 then count + POPCOUNT (s ! word_end AND NOT (push_bit partial_word_bits (- 1))) else count)"

definition FindIndex_start :: "u32 list \<Rightarrow> nat \<Rightarrow> u32" where
  "FindIndex_start s start_index = s ! (start_index div kWordBits) AND push_bit (start_index mod 32) (- 1)"

function FindIndex_loop :: "u32 list \<Rightarrow> nat \<Rightarrow> u32 \<Rightarrow> nat" where
  "FindIndex_loop s word_index word =
     (if word = 0
      then (if word_index + 1 \<ge> length s then length s * kWordBits else FindIndex_loop s (word_index + 1) (s ! (word_index + 1)))
      else word_index * 32 + CTZ word)"
  by auto
termination
  by (relation "measure (\<lambda>(s, word_index, _). length s - word_index)") auto

declare FindIndex_loop.simps [simp del]

definition BitVector_FindIndex :: "bit_vector \<Rightarrow> nat \<Rightarrow> nat" where
  "BitVector_FindIndex v start_index =
     (if start_index div kWordBits = length (storage v) then start_index
      else FindIndex_loop (storage v) (start_index div kWordBits) (FindIndex_start (storage v) start_index))"

section \<open>Arrays of rows\<close>

record bit_vector_array =
  raw_data :: bit_vector
  num_columns :: nat
  array_rows :: nat

definition Array_new :: "nat \<Rightarrow> nat \<Rightarrow> bool \<Rightarrow> bit_vector_array" where
  "Array_new start_rows start_cols e =
     (let cols = BitsToWords start_cols * kWordBits
      in \<lparr>raw_data = BitVector_new (start_rows * cols) e, num_columns = cols, array_rows = start_rows\<rparr>)"

definition Array_SetBit :: "nat \<Rightarrow> nat \<Rightarrow> bit_vector_array \<Rightarrow> bit_vector_array" where
  "Array_SetBit row col a = a\<lparr>raw_data := SetBit (row * num_columns a + col) (raw_data a)\<rparr>"

definition Array_ClearBit :: "nat \<Rightarrow> nat \<Rightarrow> bit_vector_array \<Rightarrow> bit_vector_array" where
  "Array_ClearBit row col a = a\<lparr>raw_data := ClearBit (row * num_columns a + col) (raw_data a)\<rparr>"

definition Array_IsBitSet :: "bit_vector_array \<Rightarrow> nat \<Rightarrow> nat \<Rightarrow> bool" where
  "Array_IsBitSet a row col \<longleftrightarrow> IsBitSet (raw_data a) (row * num_columns a + col)"

definition Array_Resize :: "nat \<Rightarrow> nat \<Rightarrow> bool \<Rightarrow> bit_vector_array \<Rightarrow> bit_vector_array" where
  "Array_Resize rows cols clear a =
     (let data = (if clear then ClearAllBits (raw_data a) else raw_data a);
          cols = BitsToWords cols * kWordBits
      in \<lparr>raw_data = ClearBit (rows * cols - 1) (SetBit (rows * cols - 1) data), num_columns = cols, array_rows = rows\<rparr>)"

definition UnionRows :: "nat \<Rightarrow> nat \<Rightarrow> bit_vector_array \<Rightarrow> bit_vector_array" where
  "UnionRows dest_row other a =
     (let block_words = num_columns a div kWordBits;
          dest = dest_row * num_columns a div kWordBits; source = other * num_columns a div kWordBits
      in a\<lparr>raw_data := raw_data a\<lparr>storage :=
             foldl (\<lambda>s i. s[dest + i := s ! (dest + i) OR s ! (source + i)]) (storage (raw_data a)) [0..<block_words]\<rparr>\<rparr>)"

section \<open>Meaning as sets\<close>

definition word_bit :: "u32 list \<Rightarrow> nat \<Rightarrow> bool" where
  "word_bit s i \<longleftrightarrow> i div 32 < length s \<and> bit (s ! (i div 32)) (i mod 32)"

definition bits :: "bit_vector \<Rightarrow> nat set" where
  "bits v = {i. IsBitSet v i}"

lemma bit_BitMask: "bit (BitMask i) n \<longleftrightarrow> n = i mod 32"
  by (auto simp: BitMask_def bit_exp_iff)

lemma and_BitMask: "w AND BitMask i \<noteq> 0 \<longleftrightarrow> bit w (i mod 32)"
  by (auto simp: word_zero_by_bits bit_and_iff bit_BitMask)

lemma IsBitSet_word_bit: "IsBitSet v i \<longleftrightarrow> word_bit (storage v) i"
  by (auto simp: IsBitSet_def IsBitSet_storage_def word_bit_def kWordBits_def WordIndex_def and_BitMask less_mult_imp_div_less div_less_iff_less_mult)

lemma bits_word_bit: "i \<in> bits v \<longleftrightarrow> word_bit (storage v) i"
  by (simp add: bits_def IsBitSet_word_bit)

lemma word_bit_append_0: "word_bit (s @ replicate n 0) i \<longleftrightarrow> word_bit s i"
  by (auto simp: word_bit_def nth_append)

lemma word_bit_replicate_0 [simp]: "\<not> word_bit (replicate n 0) i"
  by (simp add: word_bit_def)

lemma word_bit_update:
  "k < length s \<Longrightarrow> word_bit (s[k := w]) i \<longleftrightarrow> (if i div 32 = k then bit w (i mod 32) else word_bit s i)"
  by (auto simp: word_bit_def nth_list_update)

lemma word_bit_at: "t < 32 \<Longrightarrow> word_bit s (32 * k + t) \<longleftrightarrow> k < length s \<and> bit (s ! k) t"
  by (simp add: word_bit_def)

lemma same_index: "i div 32 = j div 32 \<Longrightarrow> i mod 32 = j mod 32 \<Longrightarrow> i = j" for i j :: nat
  by (metis div_mult_mod_eq)

lemma finite_bits [simp]: "finite (bits v)"
proof (rule finite_subset)
  show "bits v \<subseteq> {..<32 * length (storage v)}" by (auto simp: bits_word_bit word_bit_def)
qed simp

lemma bits_EnsureSize: "bits (EnsureSize i v) = bits v"
  by (auto simp: EnsureSize_def Let_def bits_word_bit word_bit_append_0)

lemma length_EnsureSize: "i div 32 < length (storage (EnsureSize i v))"
  by (auto simp: EnsureSize_def Let_def BitsToWords_def kWordBits_def)

lemma bits_SetBit: "bits (SetBit i v) = insert i (bits v)"
proof -
  define v' where "v' = (if i \<ge> length (storage v) * kWordBits then EnsureSize i v else v)"
  have b: "bits v' = bits v" by (simp add: v'_def bits_EnsureSize)
  have l: "i div 32 < length (storage v')" using length_EnsureSize [of i v] by (auto simp: v'_def kWordBits_def)
  have "j \<in> bits (SetBit i v) \<longleftrightarrow> j = i \<or> j \<in> bits v'" for j
    unfolding SetBit_def v'_def [symmetric] Let_def bits_word_bit using l
    by (auto simp: WordIndex_def word_bit_update bit_or_iff bit_BitMask intro: same_index) (auto simp: word_bit_def intro: same_index)
  then show ?thesis using b by auto
qed

lemma bits_ClearBit: "bits (ClearBit i v) = bits v - {i}"
proof -
  have "j \<in> bits (ClearBit i v) \<longleftrightarrow> j \<noteq> i \<and> j \<in> bits v" for j
  proof (cases "i div 32 < length (storage v)")
    case True
    then have "i < length (storage v) * kWordBits" by (simp add: kWordBits_def)
    then show ?thesis using True
      by (auto simp: ClearBit_def bits_word_bit WordIndex_def word_bit_update bit_and_iff bit_not_iff bit_BitMask dest: same_index)
        (auto simp: word_bit_def dest: same_index)
  next
    case False
    then have "\<not> i < length (storage v) * kWordBits" by (simp add: kWordBits_def)
    then show ?thesis using False by (auto simp: ClearBit_def bits_word_bit word_bit_def)
  qed
  then show ?thesis by auto
qed

lemma bits_ClearAllBits: "bits (ClearAllBits v) = {}"
  by (auto simp: ClearAllBits_def bits_word_bit)

lemma bits_new: "bits (BitVector_new n e) = {}"
  by (simp add: BitVector_new_def bits_ClearAllBits)

lemma highest_loop_cases:
  "n \<le> length s \<Longrightarrow> (highest_loop s n = - 1 \<and> (\<forall>i < 32 * n. \<not> word_bit s i)) \<or>
     (\<exists>h < 32 * n. highest_loop s n = int h \<and> word_bit s h \<and> (\<forall>i < 32 * n. h < i \<longrightarrow> \<not> word_bit s i))"
proof (induction n)
  case (Suc n)
  show ?case
  proof (cases "s ! n = 0")
    case True
    have "\<not> word_bit s i" if "32 * n \<le> i" "i < 32 * Suc n" for i
    proof -
      have "i div 32 = n" using that by auto
      then show ?thesis using True by (simp add: word_bit_def)
    qed
    then show ?thesis using Suc True by (auto simp: not_less [symmetric]) (metis le_less_linear less_SucI mult_Suc_right trans_less_add2)+
  next
    case False
    note c = CLZ_facts [OF False, simplified]
    define k where "k = 31 - CLZ (s ! n)"
    have k: "k < 32" "bit (s ! n) k" "\<And>i. k < i \<Longrightarrow> \<not> bit (s ! n) i" using c by (simp_all add: k_def)
    have "highest_loop s (Suc n) = int (32 * n + k)" "32 * n + k < 32 * Suc n"
      using False c(1) k(1) by (simp_all add: k_def kWordBits_def)
    moreover have "word_bit s (32 * n + k)" using k(1,2) Suc(2) by (simp add: word_bit_def)
    moreover have "\<not> word_bit s i" if "i < 32 * Suc n" "32 * n + k < i" for i
    proof -
      define t where "t = i - 32 * n"
      have "i = 32 * n + t" "k < t" "t < 32" using that by (simp_all add: t_def)
      then show ?thesis using k(3) [of t] by (simp add: word_bit_def)
    qed
    ultimately show ?thesis by blast
  qed
qed simp

lemma GetHighestBitSet_Max: "GetHighestBitSet v = (if bits v = {} then - 1 else int (Max (bits v)))"
proof -
  have below: "i < 32 * length (storage v)" if "word_bit (storage v) i" for i using that by (auto simp: word_bit_def)
  consider "GetHighestBitSet v = - 1" "bits v = {}"
    | h where "GetHighestBitSet v = int h" "h \<in> bits v" "\<forall>i \<in> bits v. i \<le> h"
  proof -
    note c = highest_loop_cases [of "length (storage v)" "storage v", folded GetHighestBitSet_def, OF order_refl]
    show thesis
    proof (cases "GetHighestBitSet v = - 1")
      case True
      then have "\<forall>i. i \<notin> bits v" using c below by (auto simp: bits_word_bit)
      then show thesis using that(1) True by blast
    next
      case False
      then obtain h where "GetHighestBitSet v = int h" "h \<in> bits v" "\<forall>i \<in> bits v. i \<le> h"
        using c below by (metis bits_word_bit leI)
      then show thesis by (rule that(2))
    qed
  qed
  then show ?thesis
  proof cases
    case 2
    then have "Max (bits v) = h" by (intro Max_eqI) auto
    then show ?thesis using 2 by auto
  qed simp
qed

lemma GetNumberOfBits_le: "GetNumberOfBits v \<le> n \<longleftrightarrow> (\<forall>i \<in> bits v. i < n)"
  by (auto simp: GetNumberOfBits_def GetHighestBitSet_Max Suc_le_eq nat_add_distrib)

lemma highest_words:
  assumes "bits v \<noteq> {}"
  defines "n \<equiv> BitsToWords (nat (GetHighestBitSet v + 1))"
  shows "GetHighestBitSet v = int (Max (bits v))" "n = Max (bits v) div 32 + 1" "n \<le> length (storage v)"
    "i \<in> bits v \<longleftrightarrow> i div 32 < n \<and> bit (storage v ! (i div 32)) (i mod 32)"
proof -
  have "Max (bits v) \<in> bits v" using assms(1) by simp
  then have l: "Max (bits v) div 32 < length (storage v)" by (simp add: bits_word_bit word_bit_def)
  show h: "GetHighestBitSet v = int (Max (bits v))" using assms(1) by (simp add: GetHighestBitSet_Max)
  show n: "n = Max (bits v) div 32 + 1" by (simp add: n_def h BitsToWords_def kWordBits_def nat_add_distrib)
  show le: "n \<le> length (storage v)" using l n by simp
  have "i div 32 \<le> Max (bits v) div 32" if "i \<in> bits v" using that by (simp add: div_le_mono)
  then show "i \<in> bits v \<longleftrightarrow> i div 32 < n \<and> bit (storage v ! (i div 32)) (i mod 32)"
    using le n by (auto simp: bits_word_bit word_bit_def)
qed

definition word_bits :: "(nat \<Rightarrow> u32) \<Rightarrow> nat \<Rightarrow> nat set" where
  "word_bits f n = {i. i div 32 < n \<and> bit (f (i div 32)) (i mod 32)}"

lemma word_bits_Suc: "word_bits f (Suc n) = word_bits f n \<union> {i. i div 32 = n \<and> bit (f n) (i mod 32)}"
  by (auto simp: word_bits_def less_Suc_eq)

lemma update_words_result:
  assumes "n \<le> length (storage v)" "update_words f n (c, v) = (c', v')"
  shows "bits v' = bits v \<union> word_bits f n \<and> length (storage v') = length (storage v) \<and>
    (c' \<longleftrightarrow> c \<or> bits v' \<noteq> bits v) \<and> expandable v' = expandable v"
  using assms
proof (induction n arbitrary: c' v')
  case (Suc n)
  obtain c1 v1 where one: "update_words f n (c, v) = (c1, v1)" by force
  have IH: "bits v1 = bits v \<union> word_bits f n" "length (storage v1) = length (storage v)" "c1 \<longleftrightarrow> c \<or> bits v1 \<noteq> bits v"
    "expandable v1 = expandable v" using Suc(1) [OF _ one] Suc(2) by auto
  let ?w = "storage v1 ! n OR f n"
  have step: "(c', v') = (if storage v1 ! n \<noteq> ?w then (True, v1\<lparr>storage := (storage v1)[n := ?w]\<rparr>) else (c1, v1))"
    using Suc(3) one by (simp add: update_words_def)
  have new: "bits (v1\<lparr>storage := (storage v1)[n := ?w]\<rparr>) = bits v1 \<union> {i. i div 32 = n \<and> bit (f n) (i mod 32)}"
  proof (rule set_eqI)
    fix j
    show "j \<in> bits (v1\<lparr>storage := (storage v1)[n := ?w]\<rparr>) \<longleftrightarrow> j \<in> bits v1 \<union> {i. i div 32 = n \<and> bit (f n) (i mod 32)}"
      using Suc(2) IH(2) by (cases "j div 32 = n") (auto simp: bits_word_bit word_bit_update bit_or_iff word_bit_def)
  qed
  show ?case
  proof (cases "storage v1 ! n = ?w")
    case True
    then have "v1\<lparr>storage := (storage v1)[n := ?w]\<rparr> = v1" by (metis bit_vector.surjective bit_vector.update_convs(1) list_update_id)
    then have "bits v1 = bits v1 \<union> {i. i div 32 = n \<and> bit (f n) (i mod 32)}" using new by simp
    moreover have "c' = c1" "v' = v1" using step True by simp_all
    ultimately show ?thesis using IH by (simp add: word_bits_Suc Un_assoc)
  next
    case False
    obtain t where "bit (storage v1 ! n) t \<noteq> bit ?w t" using False bit_eqI by blast
    then have t: "bit (f n) t" "\<not> bit (storage v1 ! n) t" by (auto simp: bit_or_iff)
    then have "t < 32" using bit_imp_le_length [of "f n" t] by simp
    have "32 * n + t \<notin> bits v1" "32 * n + t \<in> bits (v1\<lparr>storage := (storage v1)[n := ?w]\<rparr>)"
      using t \<open>t < 32\<close> unfolding new by (simp_all add: bits_word_bit word_bit_def)
    then have ne: "bits (v1\<lparr>storage := (storage v1)[n := ?w]\<rparr>) \<noteq> bits v" using IH(1) by blast
    have c': "c' = True" "v' = v1\<lparr>storage := (storage v1)[n := ?w]\<rparr>" using step False by (simp_all only: if_True if_False not_False_eq_True prod.inject)
    have "bits v' = bits v \<union> word_bits f (Suc n)" unfolding c' new IH(1) word_bits_Suc by (simp add: Un_assoc)
    moreover have "bits v' \<noteq> bits v" unfolding c' by (rule ne)
    moreover have "length (storage v') = length (storage v)" "expandable v' = expandable v" unfolding c' using IH by simp_all
    ultimately show ?thesis using c'(1) by blast
  qed
qed (simp add: update_words_def word_bits_def)

lemma BitVector_Union_result:
  assumes "BitVector_Union src v = (changed, v')"
  shows "bits v' = bits v \<union> bits src" "changed \<longleftrightarrow> bits v' \<noteq> bits v"
proof -
  have "bits v' = bits v \<union> bits src \<and> (changed \<longleftrightarrow> bits v' \<noteq> bits v)"
  proof (cases "bits src = {}")
    case True
    then show ?thesis using assms by (simp add: BitVector_Union_def GetHighestBitSet_Max)
  next
    case False
    note H = highest_words [OF False]
    let ?n = "BitsToWords (nat (GetHighestBitSet src + 1))" and ?h = "Max (bits src)"
    define v1 where "v1 = (if length (storage v) < ?n then EnsureSize (nat (GetHighestBitSet src)) v else v)"
    have b: "bits v1 = bits v" by (simp add: v1_def bits_EnsureSize)
    have l: "?n \<le> length (storage v1)" using length_EnsureSize [of ?h v] H(1,2) by (simp add: v1_def)
    have u: "update_words (\<lambda>idx. storage src ! idx) ?n (length (storage v) < ?n, v1) = (changed, v')"
      using assms H(1) unfolding BitVector_Union_def Let_def v1_def by (simp split del: if_split)
    have src: "word_bits (\<lambda>idx. storage src ! idx) ?n = bits src" using H(4) by (auto simp: word_bits_def)
    have "?h \<in> bits src" using False by simp
    moreover have "?h \<notin> bits v" if "length (storage v) < ?n" using that H(2) by (auto simp: bits_word_bit word_bit_def)
    ultimately show ?thesis using update_words_result [OF l u] b src by auto
  qed
  then show "bits v' = bits v \<union> bits src" "changed \<longleftrightarrow> bits v' \<noteq> bits v" by simp_all
qed

lemma UnionIfNotIn_result:
  assumes "UnionIfNotIn union_with not_in v = (changed, v')"
  shows "bits v' = bits v \<union> (bits union_with - bits not_in)" "changed \<longleftrightarrow> bits v' \<noteq> bits v"
proof -
  have "bits v' = bits v \<union> (bits union_with - bits not_in) \<and> (changed \<longleftrightarrow> bits v' \<noteq> bits v)"
  proof (cases "bits union_with = {}")
    case True
    then show ?thesis using assms by (simp add: UnionIfNotIn_def GetHighestBitSet_Max)
  next
    case False
    note H = highest_words [OF False]
    let ?n = "BitsToWords (nat (GetHighestBitSet union_with + 1))" and ?h = "Max (bits union_with)"
    define v1 where "v1 = (if length (storage v) < ?n then EnsureSize (nat (GetHighestBitSet union_with)) v else v)"
    define f where "f = (\<lambda>idx. if idx < min (length (storage not_in)) ?n
      then storage union_with ! idx AND NOT (storage not_in ! idx) else storage union_with ! idx)"
    have b: "bits v1 = bits v" by (simp add: v1_def bits_EnsureSize)
    have l: "?n \<le> length (storage v1)" using length_EnsureSize [of ?h v] H(1,2) by (simp add: v1_def)
    have u: "update_words f ?n (False, v1) = (changed, v')"
      using assms H(1) unfolding UnionIfNotIn_def Let_def v1_def f_def by (simp split del: if_split)
    have "word_bits f ?n = bits union_with - bits not_in"
      using H(4) by (auto simp: word_bits_def f_def bit_and_iff bit_not_iff bits_word_bit [of _ not_in] word_bit_def split: if_splits)
    then show ?thesis using update_words_result [OF l u] b by auto
  qed
  then show "bits v' = bits v \<union> (bits union_with - bits not_in)" "changed \<longleftrightarrow> bits v' \<noteq> bits v" by simp_all
qed

lemma bits_Copy: "bits (BitVector_Copy src v) = bits src"
proof (cases "bits src = {}")
  case True
  then show ?thesis by (simp add: BitVector_Copy_def GetHighestBitSet_Max bits_ClearAllBits)
next
  case False
  note H = highest_words [OF False]
  have n: "1 + Max (bits src) div 32 = BitsToWords (nat (GetHighestBitSet src + 1))" using H(2) by simp
  have "j \<in> bits (BitVector_Copy src v) \<longleftrightarrow> word_bit (take (1 + Max (bits src) div 32) (storage src)) j" for j
    by (simp add: BitVector_Copy_def H(1) Let_def kWordBits_def bits_word_bit word_bit_append_0)
  then show ?thesis unfolding n using H(3,4) by (auto simp: word_bit_def)
qed

lemma length_SetBit: "i div 32 < length (storage (SetBit i v))"
  using length_EnsureSize [of i v] by (auto simp: SetBit_def Let_def kWordBits_def)

lemma bits_SetInitialBits: "bits (SetInitialBits n v) = {..<n}"
proof (cases "n = 0")
  case True
  then show ?thesis by (simp add: SetInitialBits_def bits_ClearAllBits)
next
  case False
  define k r where "k = n div 32" and "r = n mod 32"
  have nkr: "n = 32 * k + r" "r < 32" by (simp_all add: k_def r_def)
  define tail :: "u32 list" where "tail = (if r \<noteq> 0 then [push_bit r 1 - 1] else [])"
  obtain N where "storage (SetInitialBits n v) = (replicate k (- 1) @ tail) @ replicate N 0"
    using False by (auto simp: SetInitialBits_def Let_def WordIndex_def k_def r_def tail_def)
  then have "bits (SetInitialBits n v) = {j. word_bit (replicate k (- 1) @ tail) j}"
    by (simp only: bits_def IsBitSet_word_bit word_bit_append_0)
  moreover have "word_bit (replicate k (- 1) @ tail) j \<longleftrightarrow> j < n" for j
  proof -
    define q t where "q = j div 32" and "t = j mod 32"
    have j: "j = 32 * q + t" "t < 32" by (simp_all add: q_def t_def)
    have "bit (push_bit r 1 - 1 :: u32) t \<longleftrightarrow> t < r" using j(2) nkr(2) by (simp add: bit_mask_iff flip: mask_eq_exp_minus_1)
    then show ?thesis using j nkr by (cases "q < k"; cases "q = k") (auto simp: word_bit_def nth_append tail_def)
  qed
  ultimately show ?thesis by auto
qed

lemma word_bit_map2:
  assumes "f 0 0 = 0" "\<And>x y i. bit (f x y) i \<longleftrightarrow> g (bit x i) (bit y i)"
  shows "word_bit (map2 f (take n s) (take n s')) i \<longleftrightarrow>
    i div 32 < n \<and> i div 32 < length s \<and> i div 32 < length s' \<and> g (word_bit s i) (word_bit s' i)"
  using assms(2) by (auto simp: word_bit_def)

lemma bits_Intersect: "bits (Intersect src v) = bits v \<inter> bits src"
  by (auto simp: Intersect_def Let_def bits_word_bit word_bit_append_0 word_bit_map2 [where g = "(\<and>)"] bit_and_iff)
    (auto simp: word_bit_def)

lemma bits_Subtract: "bits (Subtract src v) = bits v - bits src"
proof -
  let ?n = "min (length (storage v)) (length (storage src))"
  have "j \<in> bits (Subtract src v) \<longleftrightarrow> j \<in> bits v \<and> j \<notin> bits src" for j
    by (cases "j div 32 < ?n") (auto simp: Subtract_def Let_def bits_word_bit word_bit_def nth_append bit_and_iff bit_not_iff)
  then show ?thesis by auto
qed

lemma SameBitsSet_iff: "SameBitsSet src v \<longleftrightarrow> bits v = bits src"
proof (cases "bits v = {} \<or> bits src = {} \<or> Max (bits v) \<noteq> Max (bits src) \<or> Max (bits v) = 0")
  case True
  have "bits u = {0}" if "Max (bits u) = 0" "bits u \<noteq> {}" for u
  proof -
    have "i = 0" if "i \<in> bits u" for i using Max_ge [OF finite_bits that] \<open>Max (bits u) = 0\<close> by simp
    then show ?thesis using that(2) by auto
  qed
  then show ?thesis using True by (auto simp: SameBitsSet_def GetHighestBitSet_Max)
next
  case False
  define h n where "h = Max (bits v)" and "n = BitsToWords h"
  have h: "h \<in> bits v" "h \<in> bits src" "\<forall>i \<in> bits v. i \<le> h" "\<forall>i \<in> bits src. i \<le> h"
    using False Max_in [of "bits v"] Max_in [of "bits src"] Max_ge [of "bits v"] Max_ge [of "bits src"] by (simp_all add: h_def)
  have n: "n \<le> h div 32 + 1" "h div 32 + (if h mod 32 = 0 then 0 else 1) = n"
  proof -
    obtain q r where "h = 32 * q + r" "r < 32" using div_mult_mod_eq [of h 32] by (metis mod_less_divisor mult.commute zero_less_numeral)
    then show "n \<le> h div 32 + 1" "h div 32 + (if h mod 32 = 0 then 0 else 1) = n"
      by (auto simp: n_def BitsToWords_def kWordBits_def intro!: div_nat_eqI [symmetric])
  qed
  have l: "n \<le> length (storage v)" "n \<le> length (storage src)" using h(1,2) n(1) by (auto simp: bits_word_bit word_bit_def)
  have "SameBitsSet src v \<longleftrightarrow> take n (storage v) = take n (storage src)"
    using False by (simp add: SameBitsSet_def GetHighestBitSet_Max Let_def h_def n_def)
  also have "\<dots> \<longleftrightarrow> (\<forall>k < n. storage v ! k = storage src ! k)" using l by (simp add: list_eq_iff_nth_eq)
  also have "\<dots> \<longleftrightarrow> (\<forall>k < n. \<forall>t < 32. 32 * k + t \<in> bits v \<longleftrightarrow> 32 * k + t \<in> bits src)"
    using l by (auto simp: bits_word_bit word_bit_def intro!: bit_word_eqI)
  also have "\<dots> \<longleftrightarrow> bits v = bits src"
  proof
    assume a: "\<forall>k < n. \<forall>t < 32. 32 * k + t \<in> bits v \<longleftrightarrow> 32 * k + t \<in> bits src"
    have "i \<in> bits v \<longleftrightarrow> i \<in> bits src" if "i < h" for i
    proof -
      have "i div 32 < n" using that n(2) by (auto split: if_splits)
      then show ?thesis using a [rule_format, of "i div 32" "i mod 32"] by simp
    qed
    moreover have "i \<in> bits v \<longleftrightarrow> i \<in> bits src" if "\<not> i < h" for i
    proof (cases "i = h")
      case True
      then show ?thesis using h(1,2) by simp
    next
      case False
      then show ?thesis using h(3,4) that by auto
    qed
    ultimately show "bits v = bits src" by blast
  qed simp
  finally show ?thesis .
qed

lemma IsSubsetOf_iff: "IsSubsetOf other v \<longleftrightarrow> bits v \<subseteq> bits other"
proof (cases "bits v = {} \<or> bits other = {} \<or> Max (bits v) > Max (bits other)")
  case True
  show ?thesis
  proof (cases "bits v = {}")
    case True
    then show ?thesis by (simp add: IsSubsetOf_def GetHighestBitSet_Max)
  next
    case False
    have "GetHighestBitSet other < GetHighestBitSet v" "0 \<le> GetHighestBitSet v"
      using True False by (auto simp: GetHighestBitSet_Max simp del: Max_less_iff Max_gr_iff)
    then have "\<not> IsSubsetOf other v" by (simp add: IsSubsetOf_def)
    moreover have "\<not> bits v \<subseteq> bits other" using True False by (metis Max_mono finite_bits leD subset_empty)
    ultimately show ?thesis by simp
  qed
next
  case False
  then have ne: "bits v \<noteq> {}" "bits other \<noteq> {}" by auto
  note H = highest_words [OF ne(1)] and O = highest_words [OF ne(2)]
  let ?n = "BitsToWords (nat (GetHighestBitSet v + 1))"
  have "Max (bits v) div 32 \<le> Max (bits other) div 32" using False by (intro div_le_mono) linarith
  then have l: "?n \<le> length (storage other)" using H(2) O(2,3) by simp
  have "x OR y = y \<longleftrightarrow> (\<forall>t < 32. bit x t \<longrightarrow> bit y t)" for x y :: u32
    by (auto simp: bit_eq_iff bit_or_iff dest: bit_imp_le_length)
  then have "IsSubsetOf other v \<longleftrightarrow> (\<forall>k < ?n. \<forall>t < 32. bit (storage v ! k) t \<longrightarrow> bit (storage other ! k) t)"
    using False by (auto simp: IsSubsetOf_def GetHighestBitSet_Max list_all_iff Let_def)
  also have "\<dots> \<longleftrightarrow> (\<forall>i. i \<in> bits v \<longrightarrow> i \<in> bits other)"
  proof (intro iffI allI impI)
    fix i
    assume a: "\<forall>k < ?n. \<forall>t < 32. bit (storage v ! k) t \<longrightarrow> bit (storage other ! k) t" and i: "i \<in> bits v"
    then show "i \<in> bits other" using a [rule_format, of "i div 32" "i mod 32"] H(4) l by (auto simp: bits_word_bit [of i other] word_bit_def)
  next
    fix k t
    assume a: "\<forall>i. i \<in> bits v \<longrightarrow> i \<in> bits other" and k: "k < ?n" "t < (32 :: nat)" "bit (storage v ! k) t"
    have "32 * k + t \<in> bits v" using H(4) k by simp
    then show "bit (storage other ! k) t" using a k(2) by (auto simp: bits_word_bit [of _ other] word_bit_def)
  qed
  finally show ?thesis by auto
qed

lemma card_word_bits:
  "card {i. word_bit s i} = sum_list (map POPCOUNT s)"
proof (induction s rule: rev_induct)
  case (snoc w s)
  have "{i. word_bit (s @ [w]) i} = {i. word_bit s i} \<union> (\<lambda>t. 32 * length s + t) ` {t. bit w t}" (is "_ = ?A \<union> ?B")
  proof (rule set_eqI)
    fix i :: nat
    have "i = 32 * (i div 32) + i mod 32" by simp
    moreover have "t < 32" if "bit w t" for t using bit_imp_le_length [OF that] by simp
    ultimately show "i \<in> {i. word_bit (s @ [w]) i} \<longleftrightarrow> i \<in> ?A \<union> ?B"
      by (cases "i div 32 = length s") (auto simp: word_bit_def nth_append image_iff)
  qed
  moreover have "finite ?A" "finite ?B" "?A \<inter> ?B = {}"
    by (auto simp: word_bit_def intro: finite_subset [of _ "{..<32 * length s}"])
  ultimately show ?case using snoc by (simp add: card_Un_disjoint card_image POPCOUNT_card)
qed (simp add: word_bit_def)

lemma NumSetBits_card: "NumSetBits v = card (bits v)"
  by (simp add: NumSetBits_def card_word_bits [symmetric] bits_def IsBitSet_word_bit)

lemma NumSetBits_storage_card:
  assumes "n \<le> 32 * length s"
  shows "NumSetBits_storage s n = card {i. word_bit s i \<and> i < n}"
proof -
  define k r where "k = n div 32" and "r = n mod 32"
  have nkr: "n = 32 * k + r" "r < 32" by (simp_all add: k_def r_def)
  define s' where "s' = take k s @ (if r \<noteq> 0 then [s ! k AND NOT (push_bit r (- 1))] else [])"
  have "word_bit s' i \<longleftrightarrow> word_bit s i \<and> i < n" for i
  proof -
    define q t where "q = i div 32" and "t = i mod 32"
    have i: "i = 32 * q + t" "t < 32" by (simp_all add: q_def t_def)
    show ?thesis using i nkr assms
      by (cases "q < k"; cases "q = k") (auto simp: s'_def word_bit_def nth_append bit_and_iff bit_not_iff bit_push_bit_iff bit_mask_iff min_def)
  qed
  then show ?thesis
    using card_word_bits [of s'] by (simp add: s'_def NumSetBits_storage_def Let_def WordIndex_def k_def r_def split: if_splits)
qed

section \<open>Iteration\<close>

definition next_index :: "u32 list \<Rightarrow> nat \<Rightarrow> nat \<Rightarrow> bool" where
  "next_index s start r \<longleftrightarrow> start \<le> r \<and> (\<forall>i. start \<le> i \<and> i < r \<longrightarrow> \<not> word_bit s i) \<and> (word_bit s r \<or> r = 32 * length s)"

lemma FindIndex_loop_next:
  assumes "k < length s" "start \<le> 32 * k + 32" "\<And>i. start \<le> i \<Longrightarrow> i < 32 * k \<Longrightarrow> \<not> word_bit s i"
    and "\<And>t. t < 32 \<Longrightarrow> bit w t \<longleftrightarrow> word_bit s (32 * k + t) \<and> start \<le> 32 * k + t"
  shows "next_index s start (FindIndex_loop s k w)"
  using assms
proof (induction s k w rule: FindIndex_loop.induct)
  case (1 s k w)
  show ?case
  proof (cases "w = 0")
    case True
    have none: "\<not> word_bit s i" if "start \<le> i" "i < 32 * Suc k" for i
    proof (cases "i < 32 * k")
      case False
      define t where "t = i - 32 * k"
      have "i = 32 * k + t" "t < 32" using False that by (simp_all add: t_def)
      then show ?thesis using 1(5) [of t] True that by simp
    qed (use 1(4) that in blast)
    show ?thesis
    proof (cases "k + 1 \<ge> length s")
      case True
      then have "length s = Suc k" using 1(2) by simp
      then show ?thesis using True \<open>w = 0\<close> none 1(3) by (simp add: FindIndex_loop.simps [of s k] next_index_def kWordBits_def)
    next
      case False
      have "next_index s start (FindIndex_loop s (k + 1) (s ! (k + 1)))"
      proof (rule 1(1) [OF \<open>w = 0\<close> False])
        show "bit (s ! (k + 1)) t \<longleftrightarrow> word_bit s (32 * (k + 1) + t) \<and> start \<le> 32 * (k + 1) + t" if "t < 32" for t
          using word_bit_at [OF that, of s "k + 1"] False 1(3) by simp
      qed (use False 1(3) none in auto)
      then show ?thesis using False \<open>w = 0\<close> by (simp add: FindIndex_loop.simps [of s k])
    qed
  next
    case False
    note c = CTZ_facts [OF False, simplified]
    have r: "FindIndex_loop s k w = 32 * k + CTZ w" using False by (simp add: FindIndex_loop.simps [of s k])
    have "\<not> word_bit s i" if "start \<le> i" "i < 32 * k + CTZ w" for i
    proof (cases "i < 32 * k")
      case False
      define t where "t = i - 32 * k"
      have "i = 32 * k + t" "t < CTZ w" using False that by (simp_all add: t_def)
      then show ?thesis using 1(5) [of t] c that by simp
    qed (use 1(4) that in blast)
    then show ?thesis using 1(5) [of "CTZ w"] c by (simp add: r next_index_def)
  qed
qed

lemma FindIndex_next:
  assumes "start \<le> 32 * length (storage v)"
  shows "next_index (storage v) start (BitVector_FindIndex v start)"
proof (cases "start div 32 = length (storage v)")
  case True
  then have "start = 32 * length (storage v)" using assms by (metis div_mult_mod_eq le_add1 le_antisym mult.commute)
  then show ?thesis by (auto simp: BitVector_FindIndex_def kWordBits_def next_index_def)
next
  case False
  then have k: "start div 32 < length (storage v)" using assms by (metis div_le_mono div_mult_self1_is_m le_neq_implies_less zero_less_numeral)
  define k r where "k = start div 32" and "r = start mod 32"
  have s: "start = 32 * k + r" "r < 32" by (simp_all add: k_def r_def)
  have "next_index (storage v) start (FindIndex_loop (storage v) k (FindIndex_start (storage v) start))"
    by (rule FindIndex_loop_next)
      (use k s in \<open>auto simp: k_def [symmetric] r_def [symmetric] FindIndex_start_def kWordBits_def bit_and_iff bit_not_iff bit_mask_iff word_bit_def\<close>)
  then show ?thesis using False by (simp add: BitVector_FindIndex_def kWordBits_def k_def)
qed

lemma FindIndex_ge: "i < length (storage v) * 32 \<Longrightarrow> i < BitVector_FindIndex v (i + 1)"
  using FindIndex_next [of "i + 1" v] by (simp add: next_index_def)

text \<open>The loop over \<^verbatim>\<open>Indexes()\<close>, from an iterator at \<open>i\<close> to the end.\<close>

function Indexes_from :: "bit_vector \<Rightarrow> nat \<Rightarrow> nat list" where
  "Indexes_from v i = (if i < length (storage v) * 32 then i # Indexes_from v (BitVector_FindIndex v (i + 1)) else [])"
  by auto
termination
proof (relation "measure (\<lambda>(v, i). length (storage v) * 32 - i)")
  fix v :: bit_vector and i
  assume "i < length (storage v) * 32"
  then show "((v, BitVector_FindIndex v (i + 1)), v, i) \<in> measure (\<lambda>(v, i). length (storage v) * 32 - i)"
    using FindIndex_ge [of i v] by simp
qed simp

declare Indexes_from.simps [simp del]

definition Indexes :: "bit_vector \<Rightarrow> nat list" where
  "Indexes v = Indexes_from v (BitVector_FindIndex v 0)"

lemma Indexes_from_bits:
  assumes "next_index (storage v) start i"
  shows "sorted_wrt (<) (Indexes_from v i) \<and> set (Indexes_from v i) = {j \<in> bits v. start \<le> j} \<and> (\<forall>j \<in> set (Indexes_from v i). i \<le> j)"
  using assms
proof (induction v i arbitrary: start rule: Indexes_from.induct)
  case (1 v i)
  have below: "j < length (storage v) * 32" if "word_bit (storage v) j" for j using that by (auto simp: word_bit_def)
  show ?case
  proof (cases "i < length (storage v) * 32")
    case True
    note n = FindIndex_next [of "i + 1" v] and ge = FindIndex_ge [OF True]
    have IH: "sorted_wrt (<) (Indexes_from v (BitVector_FindIndex v (i + 1)))"
      "set (Indexes_from v (BitVector_FindIndex v (i + 1))) = {j \<in> bits v. i + 1 \<le> j}"
      using 1(1) [OF True n] True by auto
    have i: "word_bit (storage v) i" "start \<le> i" "\<And>j. start \<le> j \<Longrightarrow> j < i \<Longrightarrow> \<not> word_bit (storage v) j"
      using 1(2) True by (auto simp: next_index_def)
    have "set (Indexes_from v i) = insert i {j \<in> bits v. i + 1 \<le> j}" using True IH(2) by (simp add: Indexes_from.simps [of v i])
    also have "\<dots> = {j \<in> bits v. start \<le> j}" using i by (auto simp: bits_word_bit Suc_le_eq) (meson linorder_neqE_nat)
    finally show ?thesis using True IH i(2) by (auto simp: Indexes_from.simps [of v i] Suc_le_eq)
  next
    case False
    then show ?thesis using 1(2) below by (fastforce simp: Indexes_from.simps [of v i] next_index_def bits_word_bit)
  qed
qed

lemma Indexes_bits: "Indexes v = sorted_list_of_set (bits v)"
proof -
  note I = Indexes_from_bits [OF FindIndex_next [of 0 v], folded Indexes_def]
  show ?thesis by (rule sorted_distinct_set_unique)
    (use I in \<open>auto simp: sorted_list_of_set.sorted_key_list_of_set_unique dest: strict_sorted_imp_sorted strict_sorted_iff [THEN iffD1]\<close>)
qed

section \<open>Rows of an array\<close>

definition array_ok :: "bit_vector_array \<Rightarrow> bool" where
  "array_ok a \<longleftrightarrow> num_columns a mod 32 = 0 \<and> array_rows a * num_columns a \<le> 32 * length (storage (raw_data a))"

lemma array_ok_new: "array_ok (Array_new rows cols e)"
  by (auto simp: array_ok_def Array_new_def Let_def BitVector_new_def ClearAllBits_def BitsToWords_def kWordBits_def)

lemma length_SetBit_ge: "length (storage v) \<le> length (storage (SetBit i v))"
  by (simp add: SetBit_def EnsureSize_def Let_def)

lemma array_ok_SetBit: "array_ok a \<Longrightarrow> array_ok (Array_SetBit row col a)"
  using length_SetBit_ge [of "raw_data a" "row * num_columns a + col"] by (simp add: array_ok_def Array_SetBit_def)

lemma array_ok_Resize:
  assumes "0 < rows" "0 < cols"
  shows "array_ok (Array_Resize rows cols clear a)"
proof -
  let ?c = "BitsToWords cols * 32" and ?data = "if clear then ClearAllBits (raw_data a) else raw_data a"
  have "0 < rows * ?c" using assms by (simp add: BitsToWords_def kWordBits_def)
  then have "(rows * ?c - 1) div 32 < length (storage (SetBit (rows * ?c - 1) ?data))" by (intro length_SetBit)
  then have "rows * ?c \<le> 32 * length (storage (SetBit (rows * ?c - 1) ?data))" using \<open>0 < rows * ?c\<close> by linarith
  moreover have "length (storage (ClearBit i v)) = length (storage v)" for i v by (simp add: ClearBit_def)
  ultimately show ?thesis by (simp add: array_ok_def Array_Resize_def Let_def kWordBits_def)
qed

lemma union_words:
  assumes "d = s \<or> d + n \<le> s \<or> s + n \<le> d" "d + n \<le> length xs" "s + n \<le> length xs"
  shows "length (foldl (\<lambda>xs i. xs[d + i := xs ! (d + i) OR xs ! (s + i)]) xs [0..<n]) = length xs \<and>
    (\<forall>k < length xs. foldl (\<lambda>xs i. xs[d + i := xs ! (d + i) OR xs ! (s + i)]) xs [0..<n] ! k =
      (if d \<le> k \<and> k < d + n then xs ! k OR xs ! (s + (k - d)) else xs ! k))"
  using assms
proof (induction n)
  case (Suc n)
  let ?f = "foldl (\<lambda>xs i. xs[d + i := xs ! (d + i) OR xs ! (s + i)]) xs [0..<n]"
  have IH: "length ?f = length xs" "\<And>k. k < length xs \<Longrightarrow> ?f ! k = (if d \<le> k \<and> k < d + n then xs ! k OR xs ! (s + (k - d)) else xs ! k)"
    using Suc by auto
  have "?f ! (d + n) = xs ! (d + n)" "?f ! (s + n) = xs ! (s + n)" using IH(2) Suc(2-4) by auto
  then show ?case using IH Suc(2-4) by (auto simp: nth_list_update)
qed auto

lemma UnionRows_result:
  assumes "array_ok a" "dest < array_rows a" "other < array_rows a" "row < array_rows a" "col < num_columns a"
  shows "Array_IsBitSet (UnionRows dest other a) row col \<longleftrightarrow>
    Array_IsBitSet a row col \<or> (row = dest \<and> Array_IsBitSet a other col)"
proof -
  obtain w where w: "num_columns a = 32 * w" using assms(1) by (auto simp: array_ok_def)
  let ?s = "storage (raw_data a)"
  have le: "array_rows a * w \<le> length ?s" using assms(1) by (simp add: array_ok_def w)
  have row_le: "r * w + w \<le> length ?s" if "r < array_rows a" for r
    using le that by (metis Suc_leI add.commute le_trans mult_Suc mult_le_mono1)
  have apart: "r * w + w \<le> r' * w" if "r < r'" for r r' using that by (metis Suc_leI add.commute mult_Suc mult_le_mono1)
  have div: "r * num_columns a div kWordBits = r * w" "num_columns a div kWordBits = w" for r by (simp_all add: w kWordBits_def)
  define s' where "s' = storage (raw_data (UnionRows dest other a))"
  have s': "length s' = length ?s" "\<And>k. k < length ?s \<Longrightarrow> s' ! k = (if dest * w \<le> k \<and> k < dest * w + w then ?s ! k OR ?s ! (other * w + (k - dest * w)) else ?s ! k)"
  proof -
    have "dest * w = other * w \<or> dest * w + w \<le> other * w \<or> other * w + w \<le> dest * w"
      using apart [of dest other] apart [of other dest] by (cases dest other rule: linorder_cases) auto
    note U = union_words [OF this row_le [OF assms(2)] row_le [OF assms(3)]]
    have "s' = foldl (\<lambda>xs i. xs[dest * w + i := xs ! (dest * w + i) OR xs ! (other * w + i)]) ?s [0..<w]"
      by (simp add: s'_def UnionRows_def Let_def div)
    then show "length s' = length ?s" "\<And>k. k < length ?s \<Longrightarrow> s' ! k =
        (if dest * w \<le> k \<and> k < dest * w + w then ?s ! k OR ?s ! (other * w + (k - dest * w)) else ?s ! k)"
      using U by simp_all
  qed
  define q t where "q = col div 32" and "t = col mod 32"
  have c: "col = 32 * q + t" "t < 32" "q < w" using assms(5) by (auto simp: q_def t_def w)
  have at: "Array_IsBitSet b r col \<longleftrightarrow> r * w + q < length (storage (raw_data b)) \<and> bit (storage (raw_data b) ! (r * w + q)) t"
    if "num_columns b = num_columns a" for b r
    using word_bit_at [OF c(2), of _ "r * w + q"] that c(1) by (simp add: Array_IsBitSet_def IsBitSet_word_bit w algebra_simps)
  have in_dest: "dest * w \<le> row * w + q \<and> row * w + q < dest * w + w \<longleftrightarrow> row = dest"
    using apart [of row dest] apart [of dest row] c(3) by (cases row dest rule: linorder_cases) auto
  have "num_columns (UnionRows dest other a) = num_columns a" by (simp add: UnionRows_def Let_def)
  then show ?thesis using at [of a] at [of "UnionRows dest other a"] s'(2) [of "row * w + q"] in_dest row_le [OF assms(4)] row_le [OF assms(3)] c(3) s'(1)
    by (auto simp: s'_def [symmetric] bit_or_iff split: if_splits)
qed

section \<open>Properties\<close>


end
