(* ===== verification/Spec2Isabelle.thy ===== *)
theory Spec2Isabelle
  imports SubtypeCheckHeap SharedWord Leb128Codec UtfCodec MonitorSafety HashSetSafety HashSetMemory BitTable BitVector
begin

text \<open>
  Verification of parts of the Android Runtime.

  The development models components of the runtime and of its libraries that are pure computations or state machines
  of their own, translates their functions one by one, and proves what the rest of the runtime relies on.  All paths
  below are relative to \<^verbatim>\<open>src/\<close>.

  \<^bold>\<open>Conventions.\<close>  A \<open>w\<close>-bit integer of C++ is a \<open>w word\<close>, so arithmetic wraps as in the source; sizes and addresses
  that are bounded by the memory are natural numbers.  Memory is a function from addresses to bytes (\<open>mem\<close> in
  \<open>Prelude\<close>).  A \<open>CHECK\<close> that fails and a fatal message is the result \<open>None\<close>; a \<open>DCHECK\<close> is absent in release
  builds, and appears as a hypothesis of the theorem that needs it.  A loop is a recursive function with a termination
  proof; one that may run forever is a partial function into options, and then that it returns is proved.  A
  compare-and-swap loop takes the writes of the other threads as an argument or is split into its iterations.

  \<^bold>\<open>Prelude, BitUtils\<close> (\<^verbatim>\<open>libartbase/base/bit_utils.h\<close>).  Word types, memory, and the bit primitives the other theories
  use: counting bits, rounding, masks, inserting and extracting bit fields, reversing bits.

  \<^bold>\<open>BitString, SubtypeCheckInfo, SubtypeCheck, SubtypeHierarchy, SubtypeCheckHeap\<close>
  (\<^verbatim>\<open>libartbase/base/bit_string.h\<close>, \<^verbatim>\<open>runtime/subtype_check_bits.h\<close>, \<^verbatim>\<open>runtime/subtype_check_info.h\<close>,
  \<^verbatim>\<open>runtime/subtype_check_bits_and_status.h\<close>, \<^verbatim>\<open>runtime/subtype_check.h\<close>).  The labels that make the subclass test a
  masked comparison: the packed path of a class, how a child takes its label from its parent, the status word of a
  class, and the operations over a heap of classes.  The theorems show that in every heap the operations can reach the
  label test agrees with the scan of the superclasses (\<open>Class::IsSubClass\<close>, \<^verbatim>\<open>runtime/mirror/class-inl.h\<close>), that ready
  labels are final, and that the checks of debug builds never fail.

  \<^bold>\<open>SharedWord\<close>.  The two compare-and-swap loops on the status word (\<open>WriteSubtypeCheckBits\<close>, \<open>WriteStatusImpl\<close>) as
  instances of one contract: neither loses the update of the other.

  \<^bold>\<open>ClassStatus\<close> (\<^verbatim>\<open>runtime/class_status.h\<close>, \<^verbatim>\<open>runtime/mirror/class.cc\<close>).  The states of a class and \<open>Class::SetStatus\<close>
  with its checks, writes and notifications; the status increases along every run.

  \<^bold>\<open>Leb128, Leb128Codec\<close> (\<^verbatim>\<open>libartbase/base/leb128.h\<close>).  Encoders and decoders of variable-length integers, bounds
  checked or not; round trips of sequences, sizes, update in place, backward search.

  \<^bold>\<open>Utf, UtfCodec\<close> (\<^verbatim>\<open>libdexfile/dex/utf.cc\<close>, \<^verbatim>\<open>utf.h\<close>, \<^verbatim>\<open>utf-inl.h\<close>).  Modified UTF-8: round trips with UTF-16, the
  counts that size the buffers, hashes and comparisons.

  \<^bold>\<open>LockWord, Monitor, MonitorObject, MonitorThread, MonitorSystem, MonitorSafety\<close> (\<^verbatim>\<open>runtime/lock_word.h\<close>,
  \<^verbatim>\<open>runtime/monitor.cc\<close>, \<^verbatim>\<open>runtime/mirror/object.cc\<close>).  Lock words and monitors.  \<open>Monitor\<close> has one function per
  operation, or per iteration of its retry loop, on the lock word it has read and the current state of the object;
  \<open>MonitorObject\<close> and \<open>MonitorThread\<close> give their effects; \<open>MonitorSystem\<close> is the transition system of any number of
  threads, with spurious failures of compare-and-set, inflation, deflation and suspension at the points where the
  source allows them, its invariant, and the simulation of a reentrant lock with waiting.  \<open>MonitorSafety\<close> holds the
  theorems: mutual exclusion, refinement, no abort on stale lock words, the illegal-state errors, and one identity hash
  code per object.

  \<^bold>\<open>HashSet, HashSetProbe, HashSetOps, HashSetIter, HashSetLoad, HashSetMemory, HashSetSafety, DataHash\<close>
  (\<^verbatim>\<open>libartbase/base/hash_set.h\<close>, \<^verbatim>\<open>libartbase/base/data_hash.h\<close>).  The open-addressing hash set.  The function objects of
  the template and the rounding of \<open>double\<close> products are parameters, with what is needed of them as predicates
  (\<open>fns_ok\<close>, \<open>load_ok\<close>, \<open>reserve_ok\<close>, \<open>shrink_ok\<close>, \<open>mean_ok\<close>); sets of strings with the default load factors are an
  instance.  The searches are partial functions; the theorems show that they end in every table the operations
  produce, that any sequence of operations answers as a set does, that erasing inside an iteration skips nothing, and
  where a load factor close to one makes a search run forever.

  \<^bold>\<open>BitMemory, BitMemoryOps, BitMemoryIO, BitTable\<close> (\<^verbatim>\<open>libartbase/base/bit_memory_region.h\<close>,
  \<^verbatim>\<open>libartbase/base/bit_table.h\<close>).  Memory addressed by bits: fields of any width, bitwise operations in chunks, readers and
  writers, variable-length integers, and tables of packed columns with their builders.  The meaning of a region is the
  sequence of its bits (\<open>region_bits\<close>), and a write is described by the bits it appends (\<open>wrote\<close>); the theorems are round
  trips through both, the order of regions, and that deduplicated rows stay where they were found.

  \<^bold>\<open>BitVector\<close> (\<^verbatim>\<open>libartbase/base/bit_vector.h\<close>, \<^verbatim>\<open>bit_vector-inl.h\<close>, \<^verbatim>\<open>bit_vector.cc\<close>).  Expanding bit vectors
  and arrays of rows; every operation is proved to be the operation on the finite set of the bits (\<open>bits\<close>).

  \<^bold>\<open>Not modelled.\<close>  Code generators, assemblers and intrinsics emit machine code for which there is no semantics here;
  the garbage collectors, threads and signals, JNI, the JIT, file loading, the daemons and the command line tools work
  on the operating system, on mapped memory or on the whole managed heap.  Printing and logging functions are left out
  everywhere.  What is left out of a modelled component is said in its theory.
\<close>

end
